(* ===== verification/Prelude.thy ===== *)
theory Prelude
  imports Main "HOL-Library.Word" "HOL-Library.Multiset"
begin

text \<open>
  Shared vocabulary of the development: the results of fallible Rust code, the
  arithmetic of \<open>usize\<close> values kept as natural numbers, and the generic lemmas the
  component theories rewrite with.

  A Rust \<open>Result<T, Error>\<close> or a function that may panic is a value of
  \<open>error + 'a\<close>: \<open>Inl (Errno e)\<close> for an error return, \<open>Inl Panic\<close> for a panic (a failed
  \<open>assert!\<close>, an \<open>unwrap\<close> of \<open>None\<close>, an index out of bounds, an arithmetic overflow under
  overflow checks) and \<open>Inr x\<close> for a normal return.
\<close>

unbundle bit_operations_syntax

section \<open>Errors and results\<close>

datatype errno =
    EPERM | ENOENT | ESRCH | EINTR | E2BIG | EAGAIN | ENOMEM | EACCES | EFAULT | EEXIST | EINVAL
  | EFBIG | ENOSPC | EPIPE | ERANGE | EIDRM

datatype error = Errno errno | Panic

type_synonym 'a result = "error + 'a"

type_synonym usize = "64 word"

named_theorems rust_simps \<open>rewriting of results and of checked arithmetic\<close>

definition rbind :: "'e + 'a \<Rightarrow> ('a \<Rightarrow> 'e + 'b) \<Rightarrow> 'e + 'b" where
  "rbind m f = (case m of Inl e \<Rightarrow> Inl e | Inr x \<Rightarrow> f x)"

lemma rbind_Inl [simp]: "rbind (Inl e) f = Inl e"
  by (simp add: rbind_def)

lemma rbind_Inr [simp]: "rbind (Inr x) f = f x"
  by (simp add: rbind_def)

lemma rbind_eq_Inr [rust_simps]:
  "rbind m f = Inr y \<longleftrightarrow> (\<exists>x. m = Inr x \<and> f x = Inr y)"
  by (cases m) auto

lemma rbind_eq_Inl [rust_simps]:
  "rbind m f = Inl e \<longleftrightarrow> m = Inl e \<or> (\<exists>x. m = Inr x \<and> f x = Inl e)"
  by (cases m) auto

lemma rbind_cong [fundef_cong]:
  "m = m' \<Longrightarrow> (\<And>x. m' = Inr x \<Longrightarrow> f x = f' x) \<Longrightarrow> rbind m f = rbind m' f'"
  by (cases m') auto

definition rassert :: "bool \<Rightarrow> unit result" where
  "rassert b = (if b then Inr () else Inl Panic)"

lemma rassert_True [simp]: "b \<Longrightarrow> rassert b = Inr ()"
  by (simp add: rassert_def)

lemma rassert_False [simp]: "\<not> b \<Longrightarrow> rassert b = Inl Panic"
  by (simp add: rassert_def)

lemma rassert_eq_Inr [rust_simps]: "rassert b = Inr u \<longleftrightarrow> b"
  by (simp add: rassert_def)

lemma rassert_eq_Inl [rust_simps]: "rassert b = Inl e \<longleftrightarrow> \<not> b \<and> e = Panic"
  by (auto simp: rassert_def)

section \<open>Checked arithmetic on \<open>usize\<close> values\<close>

text \<open>
  Sizes, addresses and offsets are natural numbers; the operations that overflow in Rust
  are written with the checks that make the overflow a panic.
\<close>

definition uadd :: "nat \<Rightarrow> nat \<Rightarrow> nat result" where
  "uadd a b = (if a + b < 2 ^ 64 then Inr (a + b) else Inl Panic)"

definition usub :: "nat \<Rightarrow> nat \<Rightarrow> nat result" where
  "usub a b = (if b \<le> a then Inr (a - b) else Inl Panic)"

definition umul :: "nat \<Rightarrow> nat \<Rightarrow> nat result" where
  "umul a b = (if a * b < 2 ^ 64 then Inr (a * b) else Inl Panic)"

lemma uadd_eq_Inr [rust_simps]: "uadd a b = Inr c \<longleftrightarrow> c = a + b \<and> a + b < 2 ^ 64"
  by (auto simp: uadd_def)

lemma usub_eq_Inr [rust_simps]: "usub a b = Inr c \<longleftrightarrow> c = a - b \<and> b \<le> a"
  by (auto simp: usub_def)

lemma uadd_ok [simp]: "a + b < 2 ^ 64 \<Longrightarrow> uadd a b = Inr (a + b)"
  by (simp add: uadd_def)

lemma usub_ok [simp]: "b \<le> a \<Longrightarrow> usub a b = Inr (a - b)"
  by (simp add: usub_def)

section \<open>Half-open ranges\<close>

text \<open>A \<open>core::ops::Range<usize>\<close> is a pair; the points it contains are a set of naturals.\<close>

type_synonym urange = "nat \<times> nat"

definition range_set :: "urange \<Rightarrow> nat set" where
  "range_set r = {fst r..<snd r}"

definition range_is_empty :: "urange \<Rightarrow> bool" where
  "range_is_empty r \<longleftrightarrow> \<not> fst r < snd r"

lemma range_set_pair [simp]: "range_set (a, b) = {a..<b}"
  by (simp add: range_set_def)

section \<open>Searching lists\<close>

lemma find_SomeD: "find P xs = Some x \<Longrightarrow> x \<in> set xs \<and> P x"
  by (induction xs) (auto split: if_splits)

lemma find_NoneD: "find P xs = None \<Longrightarrow> x \<in> set xs \<Longrightarrow> \<not> P x"
  by (auto simp: find_None_iff)

lemma find_upt_Some:
  "find P [lo..<hi] = Some i \<longleftrightarrow> lo \<le> i \<and> i < hi \<and> P i \<and> (\<forall>j. lo \<le> j \<and> j < i \<longrightarrow> \<not> P j)"
proof (induction "hi - lo" arbitrary: lo)
  case (Suc n)
  then have lt: "lo < hi" by simp
  with Suc(1) [of "Suc lo"] Suc(2) have
    IH: "find P [Suc lo..<hi] = Some i \<longleftrightarrow>
      Suc lo \<le> i \<and> i < hi \<and> P i \<and> (\<forall>j. Suc lo \<le> j \<and> j < i \<longrightarrow> \<not> P j)" by simp
  show ?case
  proof (cases "P lo")
    case True
    with lt show ?thesis by (auto simp: upt_conv_Cons)
  next
    case False
    with lt IH show ?thesis
      by (auto simp: upt_conv_Cons Suc_le_eq) (metis le_neq_implies_less)+
  qed
qed auto

lemma find_upt_None: "find P [lo..<hi] = None \<longleftrightarrow> (\<forall>i. lo \<le> i \<and> i < hi \<longrightarrow> \<not> P i)"
  by (auto simp: find_None_iff)

section \<open>Iterators\<close>

text \<open>\<open>iter().map(f).collect()\<close> with a closure that may panic, and \<open>iter().min()\<close>.\<close>

primrec rmap :: "('a \<Rightarrow> 'e + 'b) \<Rightarrow> 'a list \<Rightarrow> 'e + 'b list" where
  "rmap f [] = Inr []"
| "rmap f (x # xs) = rbind (f x) (\<lambda>y. rbind (rmap f xs) (\<lambda>ys. Inr (y # ys)))"

lemma rmap_ok: "\<forall>x\<in>set xs. f x = Inr (g x) \<Longrightarrow> rmap f xs = Inr (map g xs)"
  by (induction xs) auto

fun iter_min :: "'a::linorder list \<Rightarrow> 'a option" where
  "iter_min [] = None"
| "iter_min (x # xs) = Some (fold min xs x)"

lemma iter_min_None [simp]: "iter_min xs = None \<longleftrightarrow> xs = []"
  by (cases xs) auto

lemma iter_min_Some: "iter_min xs = Some m \<longleftrightarrow> m \<in> set xs \<and> (\<forall>x\<in>set xs. m \<le> x)"
proof (cases xs)
  case (Cons x xs')
  have "fold min xs' x = Min (set xs)"
    using Min.set_eq_fold [of x xs'] Cons by simp
  then show ?thesis
    using Cons Min_eq_iff [of "set xs" m] by (auto simp del: List.set_simps)
qed simp

fun iter_max :: "'a::linorder list \<Rightarrow> 'a option" where
  "iter_max [] = None"
| "iter_max (x # xs) = Some (fold max xs x)"

lemma iter_max_None [simp]: "iter_max xs = None \<longleftrightarrow> xs = []"
  by (cases xs) auto

lemma iter_max_Some: "iter_max xs = Some m \<longleftrightarrow> m \<in> set xs \<and> (\<forall>x\<in>set xs. x \<le> m)"
proof (cases xs)
  case (Cons x xs')
  have "fold max xs' x = Max (set xs)"
    using Max.set_eq_fold [of x xs'] Cons by simp
  then show ?thesis
    using Cons Max_eq_iff [of "set xs" m] by (auto simp del: List.set_simps)
qed simp

text \<open>\<open>for_each\<close> over a list, threading the state and stopping at a panic.\<close>

primrec rfold :: "('x \<Rightarrow> 's \<Rightarrow> 'e + 's) \<Rightarrow> 'x list \<Rightarrow> 's \<Rightarrow> 'e + 's" where
  "rfold f [] s = Inr s"
| "rfold f (x # xs) s = rbind (f x s) (rfold f xs)"

section \<open>Vectors\<close>

text \<open>\<open>iter().position\<close>, \<open>Vec::remove\<close>, \<open>Vec::insert\<close> and \<open>slice::swap\<close> inside the bounds.\<close>

primrec position :: "('a \<Rightarrow> bool) \<Rightarrow> 'a list \<Rightarrow> nat option" where
  "position P [] = None"
| "position P (x # xs) = (if P x then Some 0 else map_option Suc (position P xs))"

lemma position_SomeD: "position P xs = Some i \<Longrightarrow> i < length xs \<and> P (xs ! i)"
  by (induction xs arbitrary: i) (auto split: if_splits)

lemma position_NoneD: "position P xs = None \<Longrightarrow> x \<in> set xs \<Longrightarrow> \<not> P x"
  by (induction xs) (auto split: if_splits)

lemma position_before: "position P xs = Some i \<Longrightarrow> j < i \<Longrightarrow> \<not> P (xs ! j)"
proof (induction xs arbitrary: i j)
  case (Cons x xs)
  then show ?case by (cases j) (auto split: if_splits)
qed simp

definition vec_remove :: "nat \<Rightarrow> 'a list \<Rightarrow> 'a list" where
  "vec_remove i xs = take i xs @ drop (Suc i) xs"

definition vec_insert :: "nat \<Rightarrow> 'a \<Rightarrow> 'a list \<Rightarrow> 'a list" where
  "vec_insert i x xs = take i xs @ x # drop i xs"

definition vec_swap :: "'a list \<Rightarrow> nat \<Rightarrow> nat \<Rightarrow> 'a list" where
  "vec_swap xs i j = xs[i := xs ! j, j := xs ! i]"

lemma length_vec_remove [simp]: "i < length xs \<Longrightarrow> length (vec_remove i xs) = length xs - 1"
  by (simp add: vec_remove_def min_def)

lemma set_vec_remove: "set (vec_remove i xs) \<subseteq> set xs"
  using set_take_subset set_drop_subset by (fastforce simp: vec_remove_def)

lemma vec_remove_cover: "i < length xs \<Longrightarrow> set xs = insert (xs ! i) (set (vec_remove i xs))"
  by (subst id_take_nth_drop [of i xs]) (auto simp: vec_remove_def)

lemma set_vec_insert [simp]: "set (vec_insert i x xs) = insert x (set xs)"
proof -
  have "set (take i xs) \<union> set (drop i xs) = set xs" by (metis append_take_drop_id set_append)
  then show ?thesis by (auto simp: vec_insert_def)
qed

lemma length_vec_insert [simp]: "i \<le> length xs \<Longrightarrow> length (vec_insert i x xs) = Suc (length xs)"
  by (simp add: vec_insert_def)

lemma length_vec_swap [simp]: "length (vec_swap xs i j) = length xs"
  by (simp add: vec_swap_def)

lemma set_vec_swap [simp]: "i < length xs \<Longrightarrow> j < length xs \<Longrightarrow> set (vec_swap xs i j) = set xs"
  by (simp add: vec_swap_def)

lemma nth_vec_swap:
  "i < length xs \<Longrightarrow> j < length xs \<Longrightarrow> vec_swap xs i j ! k =
    (if k = j then xs ! i else if k = i then xs ! j else xs ! k)"
  by (simp add: vec_swap_def nth_list_update)

lemma nth_vec_remove:
  "i < length xs \<Longrightarrow> vec_remove i xs ! k = (if k < i then xs ! k else xs ! Suc k)" if "k < length xs - 1"
  using that by (auto simp: vec_remove_def nth_append)

end
