(* ===== verification/Align.thy ===== *)
theory Align
  imports Prelude
begin

text \<open>
  The trait \<open>AlignExt\<close> of \<open>osxtd/libs/align_ext/src/lib.rs\<close>: rounding an unsigned machine
  integer up or down to a multiple of a power of two. The macro instantiates the same two
  methods for \<open>u8\<close> to \<open>u64\<close> and \<open>usize\<close>, so the model is polymorphic in the word width.
  \<open>nat_align_up\<close> and \<open>nat_align_down\<close> are the \<open>usize\<close> instances for the components that
  keep addresses as natural numbers.
\<close>

definition is_power_of_two :: "'a::len word \<Rightarrow> bool" where
  "is_power_of_two x \<longleftrightarrow> list_ex (\<lambda>k. x = push_bit k 1) [0..<LENGTH('a)]"

definition checked_add :: "'a::len word \<Rightarrow> 'a word \<Rightarrow> 'a word option" where
  "checked_add x y = (if unat x + unat y < 2 ^ LENGTH('a) then Some (x + y) else None)"

definition align_up :: "'a::len word \<Rightarrow> 'a word \<Rightarrow> 'a word result" where
  "align_up x align =
     rbind (rassert (is_power_of_two align \<and> unat align \<ge> 2)) (\<lambda>_.
       case checked_add x (align - 1) of
         None \<Rightarrow> Inl Panic
       | Some s \<Rightarrow> Inr (s AND NOT (align - 1)))"

definition align_down :: "'a::len word \<Rightarrow> 'a word \<Rightarrow> 'a word result" where
  "align_down x align =
     rbind (rassert (is_power_of_two align \<and> unat align \<ge> 2)) (\<lambda>_.
       Inr (x AND NOT (align - 1)))"

section \<open>Masking is rounding down\<close>

lemma is_power_of_two_iff:
  "is_power_of_two (x :: 'a::len word) \<longleftrightarrow> (\<exists>k < LENGTH('a). x = 2 ^ k)"
  by (auto simp: is_power_of_two_def list_ex_iff push_bit_eq_mult)

lemma unat_pow2: "k < LENGTH('a) \<Longrightarrow> unat (2 ^ k :: 'a::len word) = 2 ^ k"
  by (metis of_nat_numeral of_nat_power unat_of_nat mod_less power_strict_increasing_iff
      one_less_numeral_iff semiring_norm(76))

lemma and_not_mask_eq: "x AND NOT (2 ^ k - 1) = push_bit k (drop_bit k (x :: 'a::len word))"
  by (rule bit_word_eqI)
    (auto simp: bit_simps simp flip: mask_eq_exp_minus_1)

lemma unat_and_not_mask:
  fixes x :: "'a::len word"
  assumes "k < LENGTH('a)"
  shows "unat (x AND NOT (2 ^ k - 1)) = unat x div 2 ^ k * 2 ^ k"
proof -
  have "unat (push_bit k (drop_bit k x)) = unat (drop_bit k x) * 2 ^ k mod 2 ^ LENGTH('a)"
    by (simp add: push_bit_eq_mult unat_word_ariths unat_pow2 [OF assms])
  moreover have "unat (drop_bit k x) = unat x div 2 ^ k"
    by (metis unat_drop_bit_eq drop_bit_eq_div)
  moreover have "unat x div 2 ^ k * 2 ^ k < 2 ^ LENGTH('a)"
    by (meson div_times_less_eq_dividend order_le_less_trans unsigned_less)
  ultimately show ?thesis
    by (simp only: and_not_mask_eq mod_less)
qed

lemma align_pow2E:
  fixes align :: "'a::len word"
  assumes "is_power_of_two align \<and> unat align \<ge> 2"
  obtains k where "0 < k" "k < LENGTH('a)" "align = 2 ^ k" "unat align = 2 ^ k"
proof -
  from assms obtain k where k: "k < LENGTH('a)" "align = 2 ^ k"
    by (auto simp: is_power_of_two_iff)
  with assms have "0 < k"
    by (cases k) auto
  with k show ?thesis using that by (simp add: unat_pow2)
qed

lemma multiple_unique:
  fixes a m n :: nat
  assumes "a dvd m" "a dvd n" "m < n + a" "n < m + a"
  shows "m = n"
proof -
  from assms obtain i j where ij: "m = a * i" "n = a * j" by (metis dvdE)
  have "\<not> p < q" if "a * q < a * p + a" for p q
  proof
    assume "p < q"
    then have "a * Suc p \<le> a * q" by (intro mult_le_mono2) simp
    with that show False by simp
  qed
  with assms(3,4) ij show ?thesis by (metis linorder_neqE_nat)
qed

lemma round_up_window:
  fixes a x :: nat
  assumes "0 < a"
  shows "x \<le> (x + (a - 1)) div a * a" "(x + (a - 1)) div a * a < x + a"
proof -
  let ?y = "(x + (a - 1)) div a * a"
  have "?y + (x + (a - 1)) mod a = x + (a - 1)" by simp
  moreover have "(x + (a - 1)) mod a < a" using assms by simp
  ultimately show "x \<le> ?y" "?y < x + a" using assms by linarith+
qed

lemma multiple_below_pow2:
  fixes y :: nat
  assumes "2 ^ k dvd y" "y < 2 ^ n" "k \<le> n"
  shows "y + 2 ^ k \<le> 2 ^ n"
proof -
  from assms(1) obtain q where q: "y = 2 ^ k * q" by (metis dvdE)
  have p: "(2::nat) ^ n = 2 ^ k * 2 ^ (n - k)" using assms(3) by (simp flip: power_add)
  with q assms(2) have "q + 1 \<le> 2 ^ (n - k)" by simp
  then have "2 ^ k * (q + 1) \<le> 2 ^ k * 2 ^ (n - k)" by (rule mult_le_mono2)
  with p q show ?thesis by (simp add: algebra_simps)
qed

section \<open>Functional behaviour\<close>

lemma align_down_unat:
  assumes "is_power_of_two align \<and> unat align \<ge> 2"
  shows "\<exists>y. align_down x align = Inr y \<and> unat y = unat x div unat align * unat align"
  using assms
  by (auto elim!: align_pow2E simp: align_down_def unat_and_not_mask unat_pow2)

lemma unat_minus_one: "unat align \<ge> 1 \<Longrightarrow> unat (align - 1) = unat align - 1"
  by (metis One_nat_def Suc_le_eq unat_gt_0 unat_minus_one)

lemma align_up_unat:
  fixes x align :: "'a::len word"
  assumes a: "is_power_of_two align \<and> unat align \<ge> 2"
    and fits: "unat x + (unat align - 1) < 2 ^ LENGTH('a)"
  shows "\<exists>y. align_up x align = Inr y
    \<and> unat y = (unat x + (unat align - 1)) div unat align * unat align"
proof -
  from a have u: "unat (align - 1) = unat align - 1"
    by (simp add: unat_minus_one)
  from fits have "unat (x + (align - 1)) = unat x + (unat align - 1)"
    by (metis u unat_add_lem)
  with a u fits show ?thesis
    by (auto elim!: align_pow2E
        simp: align_up_def checked_add_def unat_and_not_mask unat_pow2 diff_add_eq)
qed

lemma align_up_InrD:
  "align_up x align = Inr y \<Longrightarrow> (is_power_of_two align \<and> 2 \<le> unat align)
     \<and> unat x + (unat align - 1) < 2 ^ LENGTH('a)" for x align y :: "'a::len word"
  by (auto simp: align_up_def checked_add_def rust_simps unat_minus_one
      split: option.splits if_splits)

section \<open>Properties\<close>

text \<open>\<open>align_up\<close> returns \<open>y\<close> exactly when \<open>align\<close> is a power of two, at least 2, and \<open>y\<close>
  is the least multiple of \<open>align\<close> that is not below \<open>x\<close>; in every other case (a bad
  alignment, or a least multiple that does not fit the width) it panics.\<close>

theorem align_up_least_multiple:
  fixes x align y :: "'a::len word"
  shows "align_up x align = Inr y \<longleftrightarrow>
    (is_power_of_two align \<and> 2 \<le> unat align) \<and>
    unat align dvd unat y \<and> unat x \<le> unat y \<and> unat y < unat x + unat align"
    (is "?L \<longleftrightarrow> ?A \<and> ?R")
proof
  assume L: ?L
  from align_up_InrD [OF L] have A: ?A
    and fits: "unat x + (unat align - 1) < 2 ^ LENGTH('a)" by auto
  from align_up_unat [OF A fits] L
  have "unat y = (unat x + (unat align - 1)) div unat align * unat align" by auto
  with A round_up_window [of "unat align" "unat x"] show "?A \<and> ?R" by auto
next
  assume R: "?A \<and> ?R"
  then obtain k where k: "k < LENGTH('a)" "unat align = 2 ^ k"
    using align_pow2E [of align] by blast
  with R have "unat y + unat align \<le> 2 ^ LENGTH('a)"
    by (auto intro!: multiple_below_pow2)
  with R have fits: "unat x + (unat align - 1) < 2 ^ LENGTH('a)" by auto
  from align_up_unat [OF _ fits] R obtain z where z: "align_up x align = Inr z"
    "unat z = (unat x + (unat align - 1)) div unat align * unat align" by auto
  with R round_up_window [of "unat align" "unat x"]
  have "unat z = unat y" by (intro multiple_unique [of "unat align"]) auto
  with z(1) show ?L by (simp add: word_unat_eq_iff)
qed

text \<open>\<open>align_down\<close> never overflows: it returns the greatest multiple that is not above \<open>x\<close>.\<close>

lemma align_down_greatest_multiple:
  fixes x align y :: "'a::len word"
  shows "align_down x align = Inr y \<longleftrightarrow>
    (is_power_of_two align \<and> 2 \<le> unat align) \<and>
    unat align dvd unat y \<and> unat y \<le> unat x \<and> unat x < unat y + unat align"
    (is "?L \<longleftrightarrow> ?A \<and> ?R")
proof -
  have down: "\<exists>z. align_down x align = Inr z \<and> unat z = unat x div unat align * unat align"
    if ?A using align_down_unat that .
  have win: "unat x div unat align * unat align \<le> unat x"
    "unat x < unat x div unat align * unat align + unat align" if ?A
    using that by (auto simp: dividend_less_div_times add.commute)
  show ?thesis
  proof
    assume L: ?L
    then have A: ?A by (auto simp: align_down_def rust_simps)
    with down L win show "?A \<and> ?R" by auto
  next
    assume R: "?A \<and> ?R"
    with down obtain z where z: "align_down x align = Inr z"
      "unat z = unat x div unat align * unat align" by auto
    with R win have "unat z \<le> unat x" "unat x < unat z + unat align" "unat align dvd unat z"
      by simp_all
    with R have "unat z = unat y"
      by (intro multiple_unique [of "unat align"]) linarith+
    with z(1) show ?L by (simp add: word_unat_eq_iff)
  qed
qed

section \<open>The \<open>usize\<close> instances on natural numbers\<close>

definition nat_align_up :: "nat \<Rightarrow> nat \<Rightarrow> nat result" where
  "nat_align_up x align =
     rbind (align_up (of_nat x :: usize) (of_nat align)) (\<lambda>y. Inr (unat y))"

definition nat_align_down :: "nat \<Rightarrow> nat \<Rightarrow> nat result" where
  "nat_align_down x align =
     rbind (align_down (of_nat x :: usize) (of_nat align)) (\<lambda>y. Inr (unat y))"

definition PAGE_SIZE :: nat where
  "PAGE_SIZE = 4096"

lemma page_is_align: "is_power_of_two (of_nat PAGE_SIZE :: usize)"
  unfolding is_power_of_two_iff PAGE_SIZE_def by (rule exI [of _ 12]) simp

lemma unat_page [simp]: "unat (of_nat PAGE_SIZE :: usize) = PAGE_SIZE"
  by (simp add: PAGE_SIZE_def)

lemma nat_align_down_page:
  assumes "x < 2 ^ 64"
  shows "nat_align_down x PAGE_SIZE = Inr (x div PAGE_SIZE * PAGE_SIZE)"
proof -
  have "unat (of_nat x :: usize) = x" using assms by (simp add: unat_of_nat)
  with align_down_unat [of "of_nat PAGE_SIZE :: usize" "of_nat x"] page_is_align
  show ?thesis by (auto simp: nat_align_down_def PAGE_SIZE_def)
qed

lemma nat_align_up_page:
  assumes "x < 2 ^ 64"
  shows "nat_align_up x PAGE_SIZE =
    (if x + (PAGE_SIZE - 1) < 2 ^ 64
     then Inr ((x + (PAGE_SIZE - 1)) div PAGE_SIZE * PAGE_SIZE) else Inl Panic)"
proof -
  have x: "unat (of_nat x :: usize) = x" using assms by (simp add: unat_of_nat)
  have m: "unat (of_nat PAGE_SIZE - 1 :: usize) = PAGE_SIZE - 1"
    by (simp add: PAGE_SIZE_def)
  show ?thesis
  proof (cases "x + (PAGE_SIZE - 1) < 2 ^ 64")
    case True
    with align_up_unat [of "of_nat PAGE_SIZE :: usize" "of_nat x"] page_is_align x
    show ?thesis by (auto simp: nat_align_up_def PAGE_SIZE_def)
  next
    case False
    with x m page_is_align show ?thesis
      by (simp add: nat_align_up_def align_up_def checked_add_def PAGE_SIZE_def)
  qed
qed

end
