(* ===== verification/Btree_Map.thy ===== *)
theory Btree_Map
  imports Prelude
begin

text \<open>
  The part of \<open>alloc::collections::BTreeMap\<close> that the kernel uses, as a list of entries
  sorted by key, and the interface its clients rely on. The gap cursors of the standard
  library become lookups of a neighbour: \<open>upper_bound(Excluded(k)).peek_prev()\<close> is
  \<open>bt_prev_lt\<close>, \<open>lower_bound(Excluded(k)).peek_prev()\<close> is \<open>bt_prev_le\<close> and what
  \<open>lower_bound(Excluded(k))\<close> still has in front of it is \<open>bt_after\<close>.

  The locale \<open>ordered_map\<close> states the laws, \<open>interval_map\<close> extends it with values that
  carry a half-open range, as the interval set of a VMAR and the free list of the range
  allocator do; both are interpreted on the sorted lists.
\<close>

type_synonym ('k, 'v) btree = "('k \<times> 'v) list"

definition bt_ok :: "('k::linorder, 'v) btree \<Rightarrow> bool" where
  "bt_ok m \<longleftrightarrow> sorted_wrt (<) (map fst m)"

definition bt_get :: "('k, 'v) btree \<Rightarrow> 'k \<Rightarrow> 'v option" where
  "bt_get m = map_of m"

definition bt_insert :: "'k::linorder \<Rightarrow> 'v \<Rightarrow> ('k, 'v) btree \<Rightarrow> ('k, 'v) btree" where
  "bt_insert k v m = filter (\<lambda>e. fst e < k) m @ (k, v) # filter (\<lambda>e. k < fst e) m"

definition bt_remove :: "'k::linorder \<Rightarrow> ('k, 'v) btree \<Rightarrow> ('k, 'v) btree" where
  "bt_remove k m = filter (\<lambda>e. fst e \<noteq> k) m"

definition last_entry :: "'a list \<Rightarrow> 'a option" where
  "last_entry xs = (if xs = [] then None else Some (last xs))"

definition bt_prev_lt :: "('k::linorder, 'v) btree \<Rightarrow> 'k \<Rightarrow> ('k \<times> 'v) option" where
  "bt_prev_lt m k = last_entry (filter (\<lambda>e. fst e < k) m)"

definition bt_prev_le :: "('k::linorder, 'v) btree \<Rightarrow> 'k \<Rightarrow> ('k \<times> 'v) option" where
  "bt_prev_le m k = last_entry (filter (\<lambda>e. fst e \<le> k) m)"

definition bt_after :: "('k::linorder, 'v) btree \<Rightarrow> 'k \<Rightarrow> ('k \<times> 'v) list" where
  "bt_after m k = filter (\<lambda>e. k < fst e) m"

section \<open>The laws of an ordered map\<close>

locale ordered_map =
  fixes get :: "'m \<Rightarrow> 'k::linorder \<Rightarrow> 'v option"
    and insert :: "'k \<Rightarrow> 'v \<Rightarrow> 'm \<Rightarrow> 'm"
    and remove :: "'k \<Rightarrow> 'm \<Rightarrow> 'm"
    and prev_lt :: "'m \<Rightarrow> 'k \<Rightarrow> ('k \<times> 'v) option"
    and prev_le :: "'m \<Rightarrow> 'k \<Rightarrow> ('k \<times> 'v) option"
    and after :: "'m \<Rightarrow> 'k \<Rightarrow> ('k \<times> 'v) list"
    and invar :: "'m \<Rightarrow> bool"
  assumes get_insert: "invar m \<Longrightarrow> get (insert k v m) = (get m)(k \<mapsto> v)"
    and get_remove: "invar m \<Longrightarrow> get (remove k m) = (get m)(k := None)"
    and invar_insert: "invar m \<Longrightarrow> invar (insert k v m)"
    and invar_remove: "invar m \<Longrightarrow> invar (remove k m)"
    and prev_lt_iff: "invar m \<Longrightarrow> prev_lt m k = Some (j, v) \<longleftrightarrow>
      get m j = Some v \<and> j < k \<and> (\<forall>i. j < i \<and> i < k \<longrightarrow> get m i = None)"
    and prev_lt_None: "invar m \<Longrightarrow> prev_lt m k = None \<longleftrightarrow> (\<forall>i. i < k \<longrightarrow> get m i = None)"
    and prev_le_iff: "invar m \<Longrightarrow> prev_le m k = Some (j, v) \<longleftrightarrow>
      get m j = Some v \<and> j \<le> k \<and> (\<forall>i. j < i \<and> i \<le> k \<longrightarrow> get m i = None)"
    and prev_le_None: "invar m \<Longrightarrow> prev_le m k = None \<longleftrightarrow> (\<forall>i. i \<le> k \<longrightarrow> get m i = None)"
    and after_sorted: "invar m \<Longrightarrow> sorted_wrt (<) (map fst (after m k))"
    and after_set: "invar m \<Longrightarrow> (j, v) \<in> set (after m k) \<longleftrightarrow> k < j \<and> get m j = Some v"

section \<open>Sorted lists satisfy the laws\<close>

lemma bt_ok_distinct: "bt_ok m \<Longrightarrow> distinct (map fst m)"
  by (auto simp: bt_ok_def strict_sorted_iff)

lemma bt_get_eq: "bt_ok m \<Longrightarrow> bt_get m k = Some v \<longleftrightarrow> (k, v) \<in> set m"
  by (simp add: bt_get_def bt_ok_distinct)

lemma bt_get_None: "bt_get m k = None \<longleftrightarrow> k \<notin> fst ` set m"
  by (simp add: bt_get_def map_of_eq_None_iff)

lemma bt_ok_filter: "bt_ok m \<Longrightarrow> bt_ok (filter P m)"
  unfolding bt_ok_def by (induction m) auto

lemma bt_ok_insert: "bt_ok m \<Longrightarrow> bt_ok (bt_insert k v m)"
  using bt_ok_filter [of m "\<lambda>e. fst e < k"] bt_ok_filter [of m "\<lambda>e. k < fst e"]
  by (auto simp: bt_insert_def bt_ok_def sorted_wrt_append)

lemma map_of_filter_key:
  "map_of (filter (\<lambda>e. P (fst e)) m) k = (if P k then map_of m k else None)"
  by (induction m) auto

lemma bt_get_insert: "bt_get (bt_insert k v m) = (bt_get m)(k \<mapsto> v)"
  using map_of_filter_key [of "\<lambda>j. j < k" m] map_of_filter_key [of "\<lambda>j. k < j" m]
  by (auto simp: bt_insert_def bt_get_def fun_eq_iff map_add_def split: option.splits)

lemma bt_get_remove: "bt_get (bt_remove k m) = (bt_get m)(k := None)"
  using map_of_filter_key [of "\<lambda>j. j \<noteq> k" m]
  by (auto simp: bt_remove_def bt_get_def fun_eq_iff)

lemma last_entry_None [simp]: "last_entry xs = None \<longleftrightarrow> xs = []"
  by (simp add: last_entry_def)

lemma last_entry_iff:
  fixes m :: "('k::linorder, 'v) btree"
  assumes "bt_ok m"
  shows "last_entry (filter (\<lambda>e. P (fst e)) m) = Some (j, v) \<longleftrightarrow>
    (j, v) \<in> set m \<and> P j \<and> (\<forall>i. j < i \<and> P i \<longrightarrow> i \<notin> fst ` set m)"
  using assms
proof (induction m)
  case Nil
  then show ?case by (simp add: last_entry_def)
next
  case (Cons e m)
  then have ok: "bt_ok m" and lt: "\<forall>d\<in>set m. fst e < fst d"
    by (auto simp: bt_ok_def)
  show ?case
  proof (cases "filter (\<lambda>e. P (fst e)) m = []")
    case True
    then have "\<forall>d\<in>set m. \<not> P (fst d)" by (simp add: filter_empty_conv)
    with True lt show ?thesis
      by (cases e) (auto simp: last_entry_def less_le_not_le)
  next
    case False
    then have "last_entry (filter (\<lambda>e. P (fst e)) (e # m)) = last_entry (filter (\<lambda>e. P (fst e)) m)"
      by (simp add: last_entry_def)
    moreover obtain d where "d \<in> set m" "P (fst d)"
      using False by (auto simp: filter_empty_conv)
    ultimately show ?thesis using Cons.IH [OF ok] lt
      by (cases e) (auto simp: less_imp_neq; metis fst_conv imageI)
  qed
qed

interpretation bt: ordered_map bt_get bt_insert bt_remove bt_prev_lt bt_prev_le bt_after bt_ok
proof unfold_locales
  fix m :: "('k::linorder, 'v) btree" and k j :: 'k and v :: 'v
  assume ok: "bt_ok m"
  show "bt_get (bt_insert k v m) = (bt_get m)(k \<mapsto> v)" by (rule bt_get_insert)
  show "bt_get (bt_remove k m) = (bt_get m)(k := None)" by (rule bt_get_remove)
  show "bt_ok (bt_insert k v m)" using ok by (rule bt_ok_insert)
  show "bt_ok (bt_remove k m)" using ok unfolding bt_remove_def by (rule bt_ok_filter)
  show "bt_prev_lt m k = Some (j, v) \<longleftrightarrow>
      bt_get m j = Some v \<and> j < k \<and> (\<forall>i. j < i \<and> i < k \<longrightarrow> bt_get m i = None)"
    by (simp add: bt_prev_lt_def last_entry_iff [OF ok, where P = "\<lambda>i. i < k"]
        bt_get_eq [OF ok] bt_get_None)
  show "bt_prev_lt m k = None \<longleftrightarrow> (\<forall>i. i < k \<longrightarrow> bt_get m i = None)"
    by (auto simp: bt_prev_lt_def filter_empty_conv bt_get_None)
  show "bt_prev_le m k = Some (j, v) \<longleftrightarrow>
      bt_get m j = Some v \<and> j \<le> k \<and> (\<forall>i. j < i \<and> i \<le> k \<longrightarrow> bt_get m i = None)"
    by (simp add: bt_prev_le_def last_entry_iff [OF ok, where P = "\<lambda>i. i \<le> k"]
        bt_get_eq [OF ok] bt_get_None)
  show "bt_prev_le m k = None \<longleftrightarrow> (\<forall>i. i \<le> k \<longrightarrow> bt_get m i = None)"
    by (auto simp: bt_prev_le_def filter_empty_conv bt_get_None)
  show "sorted_wrt (<) (map fst (bt_after m k))"
    using bt_ok_filter [OF ok] by (simp add: bt_after_def bt_ok_def)
  show "(j, v) \<in> set (bt_after m k) \<longleftrightarrow> k < j \<and> bt_get m j = Some v"
    by (auto simp: bt_after_def bt_get_eq [OF ok])
qed

section \<open>Maps of half-open intervals\<close>

text \<open>
  \<open>ivl_ok\<close>: every value's range is not empty and starts at the value's key, and a range ends
  before the next key. \<open>ivl_points\<close>: the points the ranges cover.
\<close>

definition ivl_ok :: "('k::linorder \<Rightarrow> 'v option) \<Rightarrow> ('v \<Rightarrow> 'k \<times> 'k) \<Rightarrow> bool" where
  "ivl_ok g rng \<longleftrightarrow>
     (\<forall>k v. g k = Some v \<longrightarrow> fst (rng v) = k \<and> k < snd (rng v)) \<and>
     (\<forall>j u k v. g j = Some u \<and> g k = Some v \<and> j < k \<longrightarrow> snd (rng u) \<le> k)"

definition ivl_points :: "('k::linorder \<Rightarrow> 'v option) \<Rightarrow> ('v \<Rightarrow> 'k \<times> 'k) \<Rightarrow> 'k set" where
  "ivl_points g rng = {p. \<exists>k v. g k = Some v \<and> fst (rng v) \<le> p \<and> p < snd (rng v)}"

lemma ivl_okD:
  assumes "ivl_ok g rng" "g k = Some v"
  shows "fst (rng v) = k" "k < snd (rng v)"
  using assms by (auto simp: ivl_ok_def)

lemma ivl_ok_gap: "ivl_ok g rng \<Longrightarrow> g j = Some u \<Longrightarrow> g k = Some v \<Longrightarrow> j < k \<Longrightarrow> snd (rng u) \<le> k"
  by (auto simp: ivl_ok_def)

lemma ivl_pointsI:
  "g k = Some v \<Longrightarrow> fst (rng v) \<le> p \<Longrightarrow> p < snd (rng v) \<Longrightarrow> p \<in> ivl_points g rng"
  by (auto simp: ivl_points_def)

lemma ivl_pointsE:
  assumes "p \<in> ivl_points g rng"
  obtains k v where "g k = Some v" "fst (rng v) \<le> p" "p < snd (rng v)"
  using assms by (auto simp: ivl_points_def)

lemma ivl_unique:
  assumes ok: "ivl_ok g rng" and ju: "g j = Some u" and kv: "g k = Some v"
    and p: "j \<le> p" "p < snd (rng u)" "k \<le> p" "p < snd (rng v)"
  shows "j = k"
proof (rule linorder_cases [of j k])
  assume "j < k"
  from ivl_ok_gap [OF ok ju kv this] p show ?thesis by simp
next
  assume "k < j"
  from ivl_ok_gap [OF ok kv ju this] p show ?thesis by simp
qed

lemma ivl_ok_remove: "ivl_ok g rng \<Longrightarrow> ivl_ok (g(k := None)) rng"
  by (auto simp: ivl_ok_def)

lemma ivl_points_remove:
  assumes ok: "ivl_ok g rng" and kv: "g k = Some v"
  shows "ivl_points (g(k := None)) rng = ivl_points g rng - {k..<snd (rng v)}"
proof (intro equalityI subsetI)
  fix p assume "p \<in> ivl_points (g(k := None)) rng"
  then obtain j u where ju: "j \<noteq> k" "g j = Some u" "fst (rng u) \<le> p" "p < snd (rng u)"
    by (auto elim!: ivl_pointsE split: if_splits)
  then have "\<not> (k \<le> p \<and> p < snd (rng v))"
    using ivl_unique [OF ok ju(2) kv] ivl_okD [OF ok ju(2)] by auto
  with ju show "p \<in> ivl_points g rng - {k..<snd (rng v)}" by (auto intro: ivl_pointsI)
next
  fix p assume p: "p \<in> ivl_points g rng - {k..<snd (rng v)}"
  then obtain j u where ju: "g j = Some u" "fst (rng u) \<le> p" "p < snd (rng u)"
    by (auto elim: ivl_pointsE)
  with p kv ivl_okD [OF ok kv] have "j \<noteq> k" by auto
  with ju show "p \<in> ivl_points (g(k := None)) rng"
    by (intro ivl_pointsI [of _ j u]) simp_all
qed

lemma ivl_points_update:
  assumes "g k = None" "fst (rng v) = k"
  shows "ivl_points (g(k \<mapsto> v)) rng = ivl_points g rng \<union> {k..<snd (rng v)}"
proof (intro equalityI subsetI)
  fix p assume "p \<in> ivl_points (g(k \<mapsto> v)) rng"
  then show "p \<in> ivl_points g rng \<union> {k..<snd (rng v)}"
    using assms(2) by (auto elim!: ivl_pointsE intro: ivl_pointsI split: if_splits)
next
  fix p assume "p \<in> ivl_points g rng \<union> {k..<snd (rng v)}"
  then consider (old) j u where "g j = Some u" "fst (rng u) \<le> p" "p < snd (rng u)"
    | (new) "k \<le> p" "p < snd (rng v)" by (auto elim: ivl_pointsE)
  then show "p \<in> ivl_points (g(k \<mapsto> v)) rng"
  proof cases
    case old
    with assms(1) have "j \<noteq> k" by auto
    with old show ?thesis by (intro ivl_pointsI [of _ j u]) simp_all
  next
    case new
    with assms(2) show ?thesis by (intro ivl_pointsI [of _ k v]) simp_all
  qed
qed

lemma ivl_ok_update:
  assumes ok: "ivl_ok g rng" and v: "fst (rng v) = k" "k < snd (rng v)"
    and disj: "ivl_points g rng \<inter> {k..<snd (rng v)} = {}"
  shows "ivl_ok (g(k \<mapsto> v)) rng"
proof -
  have below: "snd (rng u) \<le> k" if "g j = Some u" "j < k" for j u
  proof (rule ccontr)
    assume "\<not> snd (rng u) \<le> k"
    with that ivl_okD [OF ok that(1)] have "k \<in> ivl_points g rng"
      by (intro ivl_pointsI [of _ j u]) auto
    with disj v(2) show False by auto
  qed
  have above: "snd (rng v) \<le> j" if "g j = Some u" "k < j" for j u
  proof (rule ccontr)
    assume "\<not> snd (rng v) \<le> j"
    with that(2) have "j \<in> {k..<snd (rng v)}" by (simp add: not_le less_imp_le)
    moreover from that ivl_okD [OF ok that(1)] have "j \<in> ivl_points g rng"
      by (intro ivl_pointsI [of _ j u]) auto
    ultimately show False using disj by blast
  qed
  show ?thesis
    unfolding ivl_ok_def
  proof (intro conjI allI impI)
    fix j u assume "(g(k \<mapsto> v)) j = Some u"
    then show "fst (rng u) = j" "j < snd (rng u)"
      using v ivl_okD [OF ok] by (auto split: if_splits)
  next
    fix j u i w
    assume "(g(k \<mapsto> v)) j = Some u \<and> (g(k \<mapsto> v)) i = Some w \<and> j < i"
    then show "snd (rng u) \<le> i"
      using below above ivl_ok_gap [OF ok] by (auto split: if_splits)
  qed
qed

locale interval_map = ordered_map get insert remove prev_lt prev_le after invar
  for get :: "'m \<Rightarrow> 'k::linorder \<Rightarrow> 'v option"
    and insert :: "'k \<Rightarrow> 'v \<Rightarrow> 'm \<Rightarrow> 'm"
    and remove :: "'k \<Rightarrow> 'm \<Rightarrow> 'm"
    and prev_lt :: "'m \<Rightarrow> 'k \<Rightarrow> ('k \<times> 'v) option"
    and prev_le :: "'m \<Rightarrow> 'k \<Rightarrow> ('k \<times> 'v) option"
    and after :: "'m \<Rightarrow> 'k \<Rightarrow> ('k \<times> 'v) list"
    and invar :: "'m \<Rightarrow> bool" +
  fixes rng :: "'v \<Rightarrow> 'k \<times> 'k"
begin

lemma insert_ok:
  assumes "invar m" "ivl_ok (get m) rng" "fst (rng v) = k" "k < snd (rng v)"
    and "ivl_points (get m) rng \<inter> {k..<snd (rng v)} = {}"
  shows "ivl_ok (get (insert k v m)) rng"
    and "ivl_points (get (insert k v m)) rng = ivl_points (get m) rng \<union> {k..<snd (rng v)}"
proof -
  have "get m k = None"
  proof (rule ccontr)
    assume "get m k \<noteq> None"
    then obtain u where u: "get m k = Some u" by blast
    with ivl_okD [OF assms(2) u] have "k \<in> ivl_points (get m) rng"
      by (intro ivl_pointsI [of _ k u]) auto
    with assms(4,5) show False by auto
  qed
  with assms show "ivl_ok (get (insert k v m)) rng"
    "ivl_points (get (insert k v m)) rng = ivl_points (get m) rng \<union> {k..<snd (rng v)}"
    by (simp_all add: get_insert ivl_ok_update ivl_points_update)
qed

lemma remove_ok:
  assumes "invar m" "ivl_ok (get m) rng" "get m k = Some v"
  shows "ivl_ok (get (remove k m)) rng"
    and "ivl_points (get (remove k m)) rng = ivl_points (get m) rng - {k..<snd (rng v)}"
  using assms by (simp_all add: get_remove ivl_ok_remove ivl_points_remove)

lemma replace_ok:
  assumes inv: "invar m" "ivl_ok (get m) rng" and u: "get m k = Some u"
    and v: "fst (rng v) = k" "k < snd (rng v)" "snd (rng v) \<le> snd (rng u)"
  shows "ivl_ok (get (insert k v m)) rng"
    and "ivl_points (get (insert k v m)) rng = ivl_points (get m) rng - {snd (rng v)..<snd (rng u)}"
proof -
  let ?g = "(get m)(k := None)"
  have upd: "(get m)(k \<mapsto> v) = ?g(k \<mapsto> v)" by simp
  have pts: "ivl_points ?g rng = ivl_points (get m) rng - {k..<snd (rng u)}"
    using inv(2) u by (rule ivl_points_remove)
  with v have "ivl_points ?g rng \<inter> {k..<snd (rng v)} = {}" by auto
  with inv(2) v show "ivl_ok (get (insert k v m)) rng"
    unfolding get_insert [OF inv(1)] upd by (intro ivl_ok_update ivl_ok_remove)
  have "{k..<snd (rng u)} \<subseteq> ivl_points (get m) rng"
    using u ivl_okD [OF inv(2) u] by (auto intro: ivl_pointsI)
  moreover have "ivl_points (?g(k \<mapsto> v)) rng = ivl_points ?g rng \<union> {k..<snd (rng v)}"
    using v by (intro ivl_points_update) auto
  moreover have "{k..<snd (rng u)} = {k..<snd (rng v)} \<union> {snd (rng v)..<snd (rng u)}"
    using v by (simp add: ivl_disj_un_two(3) less_imp_le)
  ultimately show
    "ivl_points (get (insert k v m)) rng = ivl_points (get m) rng - {snd (rng v)..<snd (rng u)}"
    unfolding get_insert [OF inv(1)] upd pts by auto
qed

lemma prev_le_contains:
  assumes inv: "invar m" "ivl_ok (get m) rng"
  shows "(\<exists>k. prev_le m p = Some (k, v) \<and> p < snd (rng v)) \<longleftrightarrow>
    (\<exists>k. get m k = Some v \<and> k \<le> p \<and> p < snd (rng v))" (is "?L \<longleftrightarrow> ?R")
proof
  assume ?R
  then obtain k where k: "get m k = Some v" "k \<le> p" "p < snd (rng v)" by blast
  moreover have "get m i = None" if "k < i" "i \<le> p" for i
    using ivl_ok_gap [OF inv(2) k(1) _ that(1)] that k(3)
    by (metis leD not_None_eq order.trans)
  ultimately show ?L using inv(1) by (auto simp: prev_le_iff)
qed (use inv(1) in \<open>auto simp: prev_le_iff\<close>)

end

interpretation bti: interval_map bt_get bt_insert bt_remove bt_prev_lt bt_prev_le bt_after bt_ok rng
  for rng :: "'v \<Rightarrow> 'k::linorder \<times> 'k"
  by unfold_locales

end
