(* ===== verification/Range_Alloc.thy ===== *)
theory Range_Alloc
  imports Btree_Map
begin

text \<open>
  The allocator of kernel virtual ranges, \<open>osxtd/src/util/range_alloc.rs\<close>. The free list is
  a \<open>BTreeMap\<close> from the start of a free block to the block; it is created on the first
  allocation. \<open>alloc_specific\<close> takes a given range out of a free block, \<open>alloc\<close> takes the
  top of the first block that is large enough, \<open>free\<close> gives a range back and merges it with
  its neighbours.
\<close>

record free_range =
  block :: urange

record range_allocator =
  fullrange :: urange
  freelist :: "(nat, free_range) btree option"

datatype range_alloc_error = RangeAllocError

definition range_allocator_new :: "urange \<Rightarrow> range_allocator" where
  "range_allocator_new full = \<lparr>fullrange = full, freelist = None\<rparr>"

definition get_freelist_guard :: "range_allocator \<Rightarrow> (nat, free_range) btree" where
  "get_freelist_guard a =
     (case freelist a of
        None \<Rightarrow> bt_insert (fst (fullrange a)) \<lparr>block = fullrange a\<rparr> []
      | Some fl \<Rightarrow> fl)"

definition range_alloc_specific ::
  "range_allocator \<Rightarrow> urange \<Rightarrow> (range_alloc_error + unit) \<times> range_allocator" where
  "range_alloc_specific a r =
     (if range_is_empty r then (Inl RangeAllocError, a)
      else let fl = get_freelist_guard a in
        case find (\<lambda>(key, value). snd (block value) \<ge> snd r \<and> fst (block value) \<le> fst r) fl of
          None \<Rightarrow> (Inl RangeAllocError, a\<lparr>freelist := Some fl\<rparr>)
        | Some (key, value) \<Rightarrow>
            let left_length = fst r - fst (block value);
                right_length = snd (block value) - snd r;
                fl1 = (if left_length = 0 then bt_remove key fl
                       else case bt_get fl key of
                              Some freenode \<Rightarrow>
                                bt_insert key
                                  (freenode\<lparr>block := (fst (block freenode), fst r)\<rparr>) fl
                            | None \<Rightarrow> fl);
                fl2 = (if right_length \<noteq> 0
                       then bt_insert (snd r) \<lparr>block = (snd r, snd r + right_length)\<rparr> fl1
                       else fl1)
            in (Inr (), a\<lparr>freelist := Some fl2\<rparr>))"

text \<open>The first-fit loop of \<open>alloc\<close>: \<open>end - start\<close> panics on a block that ends before it
  starts, which the invariant excludes.\<close>

fun range_alloc_scan ::
  "nat \<Rightarrow> (nat, free_range) btree \<Rightarrow> (urange \<times> nat) option result" where
  "range_alloc_scan sz [] = Inr None"
| "range_alloc_scan sz ((key, value) # rest) =
     rbind (usub (snd (block value)) (fst (block value))) (\<lambda>len.
       if len \<ge> sz then Inr (Some ((snd (block value) - sz, snd (block value)), key))
       else range_alloc_scan sz rest)"

definition range_alloc ::
  "range_allocator \<Rightarrow> nat \<Rightarrow> ((range_alloc_error + urange) \<times> range_allocator) result" where
  "range_alloc a sz =
     (let fl = get_freelist_guard a in
      rbind (range_alloc_scan sz fl) (\<lambda>found.
        case found of
          None \<Rightarrow> Inr (Inl RangeAllocError, a\<lparr>freelist := Some fl\<rparr>)
        | Some (r, key) \<Rightarrow>
            (case bt_get fl key of
               None \<Rightarrow> Inr (Inr r, a\<lparr>freelist := Some fl\<rparr>)
             | Some freenode \<Rightarrow>
                 rbind (usub (snd (block freenode)) sz) (\<lambda>new_end.
                   let fl' = (if new_end = fst (block freenode) then bt_remove key fl
                              else bt_insert key
                                (freenode\<lparr>block := (fst (block freenode), new_end)\<rparr>) fl)
                   in Inr (Inr r, a\<lparr>freelist := Some fl'\<rparr>)))))"

definition range_free :: "range_allocator \<Rightarrow> urange \<Rightarrow> range_allocator result" where
  "range_free a r =
     (case freelist a of
        None \<Rightarrow> Inl Panic
      | Some fl \<Rightarrow>
          let (free_range, fl1) =
                (case bt_prev_lt fl (fst r) of
                   Some (prev_va, prev_node) \<Rightarrow>
                     if snd (block prev_node) = fst r
                     then ((fst (block prev_node), snd r), bt_remove prev_va fl)
                     else (r, fl)
                 | None \<Rightarrow> (r, fl));
              fl2 = bt_insert (fst free_range) \<lparr>block = free_range\<rparr> fl1
          in case bt_after fl2 (fst free_range) of
               [] \<Rightarrow> Inr (a\<lparr>freelist := Some fl2\<rparr>)
             | (next_va, next_node) # _ \<Rightarrow>
                 if snd free_range = fst (block next_node)
                 then let fl3 = bt_remove next_va fl2 in
                   (case bt_get fl3 (fst free_range) of
                      None \<Rightarrow> Inl Panic
                    | Some node \<Rightarrow>
                        Inr (a\<lparr>freelist := Some (bt_insert (fst free_range)
                          (node\<lparr>block := (fst (block node), snd (block next_node))\<rparr>) fl3)\<rparr>))
                 else Inr (a\<lparr>freelist := Some fl2\<rparr>))"

section \<open>Invariant and free set\<close>

definition fl_ok :: "urange \<Rightarrow> (nat, free_range) btree \<Rightarrow> bool" where
  "fl_ok full fl \<longleftrightarrow> bt_ok fl \<and> ivl_ok (bt_get fl) block \<and>
     ivl_points (bt_get fl) block \<subseteq> range_set full"

text \<open>No free block ends where another one starts: \<open>free\<close> merges them.\<close>

definition fl_coalesced :: "(nat, free_range) btree \<Rightarrow> bool" where
  "fl_coalesced fl \<longleftrightarrow>
     (\<forall>j u k v. bt_get fl j = Some u \<and> bt_get fl k = Some v \<longrightarrow> snd (block u) \<noteq> k)"

definition range_inv :: "range_allocator \<Rightarrow> bool" where
  "range_inv a \<longleftrightarrow> fst (fullrange a) < snd (fullrange a) \<and>
     (\<forall>fl. freelist a = Some fl \<longrightarrow> fl_ok (fullrange a) fl \<and> fl_coalesced fl)"

definition free_set :: "range_allocator \<Rightarrow> nat set" where
  "free_set a =
     (case freelist a of
        None \<Rightarrow> range_set (fullrange a)
      | Some fl \<Rightarrow> ivl_points (bt_get fl) block)"

lemma guard_ok:
  assumes "range_inv a"
  shows "fl_ok (fullrange a) (get_freelist_guard a)" "fl_coalesced (get_freelist_guard a)"
    "ivl_points (bt_get (get_freelist_guard a)) block = free_set a"
proof -
  have "ivl_ok (bt_get (bt_insert s \<lparr>block = (s, e)\<rparr> [])) block"
    "ivl_points (bt_get (bt_insert s \<lparr>block = (s, e)\<rparr> [])) block = {s..<e}"
    "fl_coalesced (bt_insert s \<lparr>block = (s, e)\<rparr> [])"
    "bt_ok (bt_insert s \<lparr>block = (s, e)\<rparr> [])" if "s < e" for s e
    using that
    by (auto simp: bt_insert_def bt_get_def ivl_ok_def ivl_points_def fl_coalesced_def bt_ok_def
        split: if_splits)
  with assms show "fl_ok (fullrange a) (get_freelist_guard a)"
    "fl_coalesced (get_freelist_guard a)"
    "ivl_points (bt_get (get_freelist_guard a)) block = free_set a"
    by (cases "fullrange a";
        auto simp: range_inv_def get_freelist_guard_def free_set_def fl_ok_def
        split: option.splits)+
qed

section \<open>Allocation of a given range\<close>

lemma contained_in_block:
  assumes ok: "ivl_ok (bt_get fl) block" and co: "fl_coalesced fl"
    and ne: "fst r < snd r" and sub: "range_set r \<subseteq> ivl_points (bt_get fl) block"
  obtains k v where "bt_get fl k = Some v" "k \<le> fst r" "snd r \<le> snd (block v)"
proof -
  have "fst r \<in> ivl_points (bt_get fl) block" using ne sub by (auto simp: range_set_def)
  then obtain k v where kv: "bt_get fl k = Some v" "k \<le> fst r" "fst r < snd (block v)"
    using ivl_okD [OF ok] by (metis ivl_pointsE)
  have "snd r \<le> snd (block v)"
  proof (rule ccontr)
    assume "\<not> snd r \<le> snd (block v)"
    then have "snd (block v) \<in> ivl_points (bt_get fl) block"
      using sub kv(3) by (auto simp: range_set_def)
    then obtain j u where ju: "bt_get fl j = Some u" "j \<le> snd (block v)" "snd (block v) < snd (block u)"
      using ivl_okD [OF ok] by (metis ivl_pointsE)
    have "j \<noteq> snd (block v)" using co kv(1) ju(1) by (auto simp: fl_coalesced_def)
    moreover have "\<not> k < j" using ivl_ok_gap [OF ok kv(1) ju(1)] ju(2) calculation by auto
    moreover have "\<not> j < k" using ivl_ok_gap [OF ok ju(1) kv(1)] ju(3) ivl_okD [OF ok kv(1)] by auto
    ultimately show False using ju kv by (metis linorder_neqE_nat option.inject less_irrefl)
  qed
  with kv that show thesis by blast
qed

lemma fl_coalesced_remove: "fl_coalesced fl \<Longrightarrow> fl_coalesced (bt_remove k fl)"
  by (auto simp: fl_coalesced_def bt_get_remove split: if_splits)

text \<open>Cutting \<open>[s, e)\<close> out of the block at \<open>key\<close>, as both allocation functions do.\<close>

lemma cut_block:
  assumes ok: "fl_ok full fl" and co: "fl_coalesced fl"
    and kv: "bt_get fl key = Some value" and r: "key \<le> s" "s < e" "e \<le> snd (block value)"
    and fl1: "fl1 = (if s = key then bt_remove key fl
                     else bt_insert key (value\<lparr>block := (key, s)\<rparr>) fl)"
    and fl2: "fl2 = (if e = snd (block value) then fl1
                     else bt_insert e \<lparr>block = (e, snd (block value))\<rparr> fl1)"
  shows "fl_ok full fl2" "fl_coalesced fl2"
    "ivl_points (bt_get fl2) block = ivl_points (bt_get fl) block - {s..<e}"
proof -
  from ok have bt: "bt_ok fl" and iv: "ivl_ok (bt_get fl) block"
    and full: "ivl_points (bt_get fl) block \<subseteq> range_set full" by (auto simp: fl_ok_def)
  note k = ivl_okD [OF iv kv]
  have bt1: "bt_ok fl1"
    using bt fl1 by (simp add: bt.invar_insert bt.invar_remove)
  have fl1_ok: "ivl_ok (bt_get fl1) block"
    "ivl_points (bt_get fl1) block = ivl_points (bt_get fl) block - {s..<snd (block value)}"
  proof -
    note rep = bti.replace_ok [OF bt iv kv, of "value\<lparr>block := (key, s)\<rparr>"]
    show "ivl_ok (bt_get fl1) block"
      using bti.remove_ok(1) [OF bt iv kv] rep(1) r by (simp add: fl1)
    show "ivl_points (bt_get fl1) block = ivl_points (bt_get fl) block - {s..<snd (block value)}"
      using bti.remove_ok(2) [OF bt iv kv] rep(2) r by (simp add: fl1)
  qed
  have fl2_ok: "ivl_ok (bt_get fl2) block"
    "ivl_points (bt_get fl2) block =
       ivl_points (bt_get fl1) block \<union> {e..<snd (block value)}"
  proof -
    have "ivl_points (bt_get fl1) block \<inter> {e..<snd (block value)} = {}"
      unfolding fl1_ok(2) using r by auto
    note ins = bti.insert_ok [OF bt1 fl1_ok(1), of "\<lparr>block = (e, snd (block value))\<rparr>" e, simplified,
      OF _ this]
    show "ivl_ok (bt_get fl2) block"
      using ins(1) fl1_ok(1) r by (simp add: fl2)
    show "ivl_points (bt_get fl2) block = ivl_points (bt_get fl1) block \<union> {e..<snd (block value)}"
      using ins(2) r by (simp add: fl2)
  qed
  have "{s..<snd (block value)} \<subseteq> ivl_points (bt_get fl) block"
    using kv k r by (auto intro: ivl_pointsI)
  with fl2_ok(2) fl1_ok(2) r
  show pts: "ivl_points (bt_get fl2) block = ivl_points (bt_get fl) block - {s..<e}" by auto
  show "fl_ok full fl2"
    using bt1 fl2_ok(1) full pts fl2 by (auto simp: fl_ok_def bt.invar_insert)
  have g2: "bt_get fl2 j = Some u \<Longrightarrow>
      (j = e \<and> block u = (e, snd (block value)) \<and> e \<noteq> snd (block value)) \<or>
      (j = key \<and> block u = (key, s) \<and> s \<noteq> key) \<or>
      (j \<noteq> key \<and> bt_get fl j = Some u)" for j u
    unfolding fl2 fl1 by (auto simp: bt_get_insert bt_get_remove split: if_splits)
  have gap: "j < key \<or> snd (block value) < j" if "bt_get fl j = Some u" "j \<noteq> key" for j u
    using that ivl_ok_gap [OF iv kv that(1)] co kv
    by (metis fl_coalesced_def le_neq_implies_less linorder_neqE_nat)
  have gap': "snd (block u) < key" if "bt_get fl j = Some u" "j < key" for j u
    using that ivl_ok_gap [OF iv that(1) kv] co kv
    by (metis fl_coalesced_def le_neq_implies_less)
  have cls: "(j = e \<and> snd (block u) = snd (block value) \<and> e < snd (block value)) \<or>
      (j = key \<and> snd (block u) = s \<and> key < s) \<or>
      (bt_get fl j = Some u \<and> j < key \<and> snd (block u) < key) \<or>
      (bt_get fl j = Some u \<and> snd (block value) < j \<and> snd (block value) < snd (block u))"
    if ju: "bt_get fl2 j = Some u" for j u
    using g2 [OF ju]
  proof (elim disjE conjE)
    assume j: "j \<noteq> key" "bt_get fl j = Some u"
    from gap [OF j(2,1)] show ?thesis
      using gap' [OF j(2)] ivl_okD(2) [OF iv j(2)] j by auto
  qed (use r in auto)
  show "fl_coalesced fl2"
    unfolding fl_coalesced_def
  proof (intro allI impI notI, elim conjE)
    fix j u i w
    assume ju: "bt_get fl2 j = Some u" and iw: "bt_get fl2 i = Some w" and eq: "snd (block u) = i"
    have old: "\<not> (bt_get fl j = Some u \<and> bt_get fl i = Some w)"
      using co eq by (auto simp: fl_coalesced_def)
    show False
      using cls [OF ju] cls [OF iw] eq old r k by (elim disjE conjE) auto
  qed
qed

lemma range_inv_freelist:
  "range_inv a \<Longrightarrow> fl_ok (fullrange a) fl \<Longrightarrow> fl_coalesced fl \<Longrightarrow> range_inv (a\<lparr>freelist := Some fl\<rparr>)"
  by (simp add: range_inv_def)

lemma free_set_freelist [simp]:
  "free_set (a\<lparr>freelist := Some fl\<rparr>) = ivl_points (bt_get fl) block"
  by (simp add: free_set_def)

text \<open>\<open>alloc_specific\<close> succeeds exactly on a non-empty range that is entirely free, takes
  exactly that range out of the free set, changes nothing on failure, and keeps the
  invariant (sorted, disjoint, coalesced blocks inside the full range).\<close>

lemma range_alloc_specific_correct:
  assumes inv: "range_inv a" and run: "range_alloc_specific a r = (res, a')"
  shows "(res = Inr () \<longleftrightarrow> \<not> range_is_empty r \<and> range_set r \<subseteq> free_set a) \<and>
    free_set a' = (if res = Inr () then free_set a - range_set r else free_set a) \<and>
    range_inv a'"
proof (cases "range_is_empty r")
  case True
  with run inv show ?thesis by (auto simp: range_alloc_specific_def)
next
  case False
  then have ne: "fst r < snd r" by (simp add: range_is_empty_def)
  let ?fl = "get_freelist_guard a"
  let ?P = "\<lambda>(key::nat, value). snd (block value) \<ge> snd r \<and> fst (block value) \<le> fst r"
  note g = guard_ok [OF inv]
  from g(1) have bt: "bt_ok ?fl" and iv: "ivl_ok (bt_get ?fl) block" by (auto simp: fl_ok_def)
  show ?thesis
  proof (cases "find ?P ?fl")
    case None
    have "\<not> range_set r \<subseteq> free_set a"
    proof
      assume "range_set r \<subseteq> free_set a"
      with contained_in_block [OF iv g(2) ne] g(3) obtain k v
        where kv: "bt_get ?fl k = Some v" "k \<le> fst r" "snd r \<le> snd (block v)" by metis
      then have "(k, v) \<in> set ?fl" by (simp add: bt_get_eq [OF bt])
      with find_NoneD [OF None] kv ivl_okD [OF iv kv(1)] show False by fastforce
    qed
    moreover have "range_alloc_specific a r = (Inl RangeAllocError, a\<lparr>freelist := Some ?fl\<rparr>)"
      using None False by (simp add: range_alloc_specific_def Let_def)
    ultimately show ?thesis
      using run g(3) range_inv_freelist [OF inv g(1,2)] by simp
  next
    case (Some e)
    then obtain key "value" where e: "e = (key, value)" by fastforce
    from find_SomeD [OF Some] have "e \<in> set ?fl" and P: "?P e" by blast+
    with e have kv: "bt_get ?fl key = Some value" by (simp add: bt_get_eq [OF bt])
    note k = ivl_okD [OF iv kv]
    from P e k have le: "key \<le> fst r" "snd r \<le> snd (block value)" by auto
    define fl1 where "fl1 = (if fst r = key then bt_remove key ?fl
      else bt_insert key (value\<lparr>block := (key, fst r)\<rparr>) ?fl)"
    define fl2 where "fl2 = (if snd r = snd (block value) then fl1
      else bt_insert (snd r) \<lparr>block = (snd r, snd (block value))\<rparr> fl1)"
    note cut = cut_block [OF g(1,2) kv le(1) ne le(2) fl1_def fl2_def]
    have "range_alloc_specific a r = (Inr (), a\<lparr>freelist := Some fl2\<rparr>)"
      using False Some e kv k le
      by (simp add: range_alloc_specific_def Let_def fl1_def fl2_def)
    with run have "res = Inr ()" "a' = a\<lparr>freelist := Some fl2\<rparr>" by simp_all
    moreover have "range_set r \<subseteq> free_set a"
      using kv k le unfolding g(3) [symmetric] range_set_def by (auto intro!: ivl_pointsI)
    ultimately show ?thesis
      using cut False g(3) range_inv_freelist [OF inv cut(1,2)]
      by (simp add: range_set_def)
  qed
qed

section \<open>First-fit allocation\<close>

lemma range_alloc_scan_ok:
  assumes "\<forall>(k, v) \<in> set fl. fst (block v) \<le> snd (block v)"
  shows "range_alloc_scan sz fl =
    Inr (case find (\<lambda>(k, v). snd (block v) - fst (block v) \<ge> sz) fl of
           None \<Rightarrow> None
         | Some (k, v) \<Rightarrow> Some ((snd (block v) - sz, snd (block v)), k))"
  using assms by (induction sz fl rule: range_alloc_scan.induct) auto

lemma fl_ok_blocks:
  assumes "fl_ok full fl" "(k, v) \<in> set fl"
  shows "bt_get fl k = Some v" "fst (block v) = k" "k < snd (block v)"
  using assms ivl_okD [of "bt_get fl" block k v] by (auto simp: fl_ok_def bt_get_eq)

text \<open>\<open>alloc\<close> never panics on a valid allocator. When it succeeds it returns a range of
  exactly the requested size that was entirely free and is free no more; when it fails the free
  set is unchanged and contains no run of that size. The invariant is kept.\<close>

lemma range_alloc_correct:
  assumes inv: "range_inv a"
  shows "\<exists>res a'. range_alloc a sz = Inr (res, a') \<and> range_inv a' \<and>
    (case res of
       Inl _ \<Rightarrow> free_set a' = free_set a \<and> (\<forall>s. 0 < sz \<longrightarrow> \<not> {s..<s + sz} \<subseteq> free_set a)
     | Inr r \<Rightarrow> snd r = fst r + sz \<and> range_set r \<subseteq> free_set a \<and>
         free_set a' = free_set a - range_set r)"
proof -
  let ?fl = "get_freelist_guard a"
  let ?P = "\<lambda>(k::nat, v). snd (block v) - fst (block v) \<ge> sz"
  note g = guard_ok [OF inv]
  from g(1) have iv: "ivl_ok (bt_get ?fl) block" by (simp add: fl_ok_def)
  have "\<forall>(k, v) \<in> set ?fl. fst (block v) \<le> snd (block v)"
    using fl_ok_blocks [OF g(1)] by fastforce
  note scan = range_alloc_scan_ok [OF this, of sz]
  show ?thesis
  proof (cases "find ?P ?fl")
    case None
    have "\<not> {s..<s + sz} \<subseteq> free_set a" if "0 < sz" for s
    proof
      assume "{s..<s + sz} \<subseteq> free_set a"
      with contained_in_block [OF iv g(2), of "(s, s + sz)"] that g(3) obtain k v
        where kv: "bt_get ?fl k = Some v" "k \<le> s" "s + sz \<le> snd (block v)" by auto
      then have "(k, v) \<in> set ?fl" using g(1) by (simp add: fl_ok_def bt_get_eq)
      with find_NoneD [OF None this] kv ivl_okD [OF iv kv(1)] show False by simp
    qed
    moreover have "range_alloc a sz = Inr (Inl RangeAllocError, a\<lparr>freelist := Some ?fl\<rparr>)"
      using None scan by (simp add: range_alloc_def Let_def)
    ultimately show ?thesis
      using g(3) range_inv_freelist [OF inv g(1,2)] by simp
  next
    case (Some e)
    then obtain key "value" where e: "e = (key, value)" by fastforce
    from find_SomeD [OF Some] e have "(key, value) \<in> set ?fl"
      and P: "snd (block value) - fst (block value) \<ge> sz" by auto
    note k = fl_ok_blocks [OF g(1) this(1)]
    define new_end where "new_end = snd (block value) - sz"
    define fl' where "fl' = (if new_end = key then bt_remove key ?fl
      else bt_insert key (value\<lparr>block := (key, new_end)\<rparr>) ?fl)"
    have run: "range_alloc a sz =
        Inr (Inr (new_end, snd (block value)), a\<lparr>freelist := Some fl'\<rparr>)"
      using Some e scan k P by (simp add: range_alloc_def Let_def fl'_def new_end_def)
    have "{new_end..<snd (block value)} \<subseteq> free_set a"
      using k P unfolding g(3) [symmetric] new_end_def by (auto intro!: ivl_pointsI)
    moreover have "fl_ok (fullrange a) fl' \<and> fl_coalesced fl' \<and>
        ivl_points (bt_get fl') block = free_set a - {new_end..<snd (block value)}"
    proof (cases "sz = 0")
      case True
      then have "bt_get fl' = bt_get ?fl" "bt_ok fl'"
        using k g(1) by (cases "value", auto simp: fl'_def new_end_def bt_get_insert fl_ok_def
            bt.invar_insert fun_eq_iff)+
      with g True show ?thesis
        by (simp add: fl_ok_def fl_coalesced_def new_end_def)
    next
      case False
      with k P have "key \<le> new_end" "new_end < snd (block value)" by (auto simp: new_end_def)
      from cut_block [OF g(1,2) k(1) this order.refl fl'_def, of fl'] g(3) show ?thesis by simp
    qed
    moreover have "snd (block value) = new_end + sz" using P by (simp add: new_end_def)
    ultimately show ?thesis
      unfolding run using range_inv_freelist [OF inv] by (simp add: range_set_def)
  qed
qed

section \<open>Giving a range back\<close>

lemma fl_coalesced_insert:
  assumes "fl_coalesced fl" "s < e"
    and "\<And>j u. bt_get fl j = Some u \<Longrightarrow> snd (block u) \<noteq> s" and "bt_get fl e = None"
  shows "fl_coalesced (bt_insert s \<lparr>block = (s, e)\<rparr> fl)"
  using assms unfolding fl_coalesced_def by (auto simp: bt_get_insert)

lemma bt_insert_remove_insert:
  assumes "n \<noteq> s"
  shows "bt_insert s x (bt_remove n (bt_insert s y fl)) = bt_insert s x (bt_remove n fl)"
proof -
  have "filter (\<lambda>e. s < fst e \<and> fst e \<noteq> n \<and> fst e < s) fl = []"
    "filter (\<lambda>e. fst e < s \<and> fst e \<noteq> n \<and> s < fst e) fl = []"
    by (auto simp: filter_empty_conv)
  moreover have "filter (\<lambda>e. fst e < s \<and> fst e \<noteq> n \<and> fst e < s) fl =
      filter (\<lambda>e. fst e \<noteq> n \<and> fst e < s) fl"
    "filter (\<lambda>e. s < fst e \<and> fst e \<noteq> n \<and> s < fst e) fl =
      filter (\<lambda>e. fst e \<noteq> n \<and> s < fst e) fl"
    by (auto intro: filter_cong)
  ultimately show ?thesis using assms by (simp add: bt_insert_def bt_remove_def)
qed

text \<open>The state between the two merges of \<open>free\<close>: \<open>fl\<close> is valid, \<open>[s, e)\<close> is not in it and
  no block of it ends at \<open>s\<close>.\<close>

definition free_gap :: "urange \<Rightarrow> (nat, free_range) btree \<Rightarrow> nat \<Rightarrow> nat \<Rightarrow> bool" where
  "free_gap full fl s e \<longleftrightarrow> fl_ok full fl \<and> fl_coalesced fl \<and> s < e \<and> {s..<e} \<subseteq> range_set full \<and>
     ivl_points (bt_get fl) block \<inter> {s..<e} = {} \<and>
     (\<forall>j u. bt_get fl j = Some u \<longrightarrow> snd (block u) \<noteq> s)"

lemma free_merge_prev:
  assumes ok: "fl_ok full fl" and co: "fl_coalesced fl"
    and r: "fst r < snd r" "range_set r \<subseteq> range_set full"
      "ivl_points (bt_get fl) block \<inter> range_set r = {}"
    and run: "(fr, fl1) = (case bt_prev_lt fl (fst r) of
        Some (prev_va, prev_node) \<Rightarrow>
          if snd (block prev_node) = fst r
          then ((fst (block prev_node), snd r), bt_remove prev_va fl) else (r, fl)
      | None \<Rightarrow> (r, fl))"
  shows "free_gap full fl1 (fst fr) (snd fr) \<and>
    ivl_points (bt_get fl1) block \<union> range_set fr = ivl_points (bt_get fl) block \<union> range_set r"
proof -
  from ok have bt: "bt_ok fl" and iv: "ivl_ok (bt_get fl) block"
    and full: "ivl_points (bt_get fl) block \<subseteq> range_set full" by (auto simp: fl_ok_def)
  show ?thesis
  proof (cases "\<exists>k v. bt_get fl k = Some v \<and> snd (block v) = fst r")
    case True
    then obtain k v where kv: "bt_get fl k = Some v" "snd (block v) = fst r" by blast
    note k = ivl_okD [OF iv kv(1)]
    have "bt_get fl i = None" if "k < i" "i < fst r" for i
      using ivl_ok_gap [OF iv kv(1) _ that(1)] that(2) kv(2) by (cases "bt_get fl i") auto
    then have "bt_prev_lt fl (fst r) = Some (k, v)"
      using kv k by (simp add: bt.prev_lt_iff [OF bt])
    with run kv k have fr: "fr = (k, snd r)" "fl1 = bt_remove k fl" by auto
    have kr: "{k..<snd r} = {k..<fst r} \<union> range_set r"
      using k kv(2) r(1) by (auto simp: range_set_def)
    have old: "{k..<fst r} \<subseteq> ivl_points (bt_get fl) block"
      using kv k by (auto intro: ivl_pointsI)
    note rem = bti.remove_ok [OF bt iv kv(1), unfolded kv(2)]
    have "snd (block u) \<noteq> k" if "bt_get fl1 j = Some u" for j u
      using that co kv(1) unfolding fr fl_coalesced_def by (auto simp: bt_get_remove split: if_splits)
    moreover have "fl_ok full fl1"
      using rem full bt by (auto simp: fl_ok_def fr bt.invar_remove)
    moreover have "fl_coalesced fl1" using co by (simp add: fr fl_coalesced_remove)
    moreover have "k < snd r" using k kv(2) r(1) by simp
    ultimately show ?thesis
      using rem(2) kr old r full by (auto simp: free_gap_def fr)
  next
    case False
    then have "bt_prev_lt fl (fst r) = Some (k, v) \<Longrightarrow> snd (block v) \<noteq> fst r" for k v
      by (auto simp: bt.prev_lt_iff [OF bt])
    with run have "fr = r" "fl1 = fl" by (auto split: option.splits prod.splits if_splits)
    with False ok co r show ?thesis by (auto simp: free_gap_def range_set_def)
  qed
qed

lemma free_gap_insert:
  assumes gap: "free_gap full fl s e" and e: "bt_get fl e = None"
  shows "fl_ok full (bt_insert s \<lparr>block = (s, e)\<rparr> fl)"
    "fl_coalesced (bt_insert s \<lparr>block = (s, e)\<rparr> fl)"
    "ivl_points (bt_get (bt_insert s \<lparr>block = (s, e)\<rparr> fl)) block =
      ivl_points (bt_get fl) block \<union> {s..<e}"
proof -
  from gap have bt: "bt_ok fl" and iv: "ivl_ok (bt_get fl) block" and co: "fl_coalesced fl"
    and se: "s < e" "ivl_points (bt_get fl) block \<inter> {s..<e} = {}"
    and ends: "\<And>j u. bt_get fl j = Some u \<Longrightarrow> snd (block u) \<noteq> s"
    by (auto simp: free_gap_def fl_ok_def)
  note ins = bti.insert_ok [OF bt iv, of "\<lparr>block = (s, e)\<rparr>" s, simplified, OF se]
  show "ivl_points (bt_get (bt_insert s \<lparr>block = (s, e)\<rparr> fl)) block =
      ivl_points (bt_get fl) block \<union> {s..<e}" by (rule ins(2))
  show "fl_ok full (bt_insert s \<lparr>block = (s, e)\<rparr> fl)"
    using gap ins bt by (simp add: free_gap_def fl_ok_def bt.invar_insert)
  show "fl_coalesced (bt_insert s \<lparr>block = (s, e)\<rparr> fl)"
    using co se(1) ends e by (rule fl_coalesced_insert)
qed

lemma free_gap_extend:
  assumes gap: "free_gap full fl s e" and n: "bt_get fl e = Some n"
  shows "free_gap full (bt_remove e fl) s (snd (block n))"
    "bt_get (bt_remove e fl) (snd (block n)) = None"
    "ivl_points (bt_get (bt_remove e fl)) block \<union> {s..<snd (block n)} =
      ivl_points (bt_get fl) block \<union> {s..<e}"
proof -
  from gap have bt: "bt_ok fl" and iv: "ivl_ok (bt_get fl) block" and co: "fl_coalesced fl"
    and full: "ivl_points (bt_get fl) block \<subseteq> range_set full" "{s..<e} \<subseteq> range_set full"
    and se: "s < e" "ivl_points (bt_get fl) block \<inter> {s..<e} = {}"
    and ends: "\<And>j u. bt_get fl j = Some u \<Longrightarrow> snd (block u) \<noteq> s"
    by (auto simp: free_gap_def fl_ok_def)
  note k = ivl_okD [OF iv n]
  note rem = bti.remove_ok [OF bt iv n]
  have split: "{s..<snd (block n)} = {s..<e} \<union> {e..<snd (block n)}" using se k by auto
  have old: "{e..<snd (block n)} \<subseteq> ivl_points (bt_get fl) block"
    using n k by (auto intro: ivl_pointsI)
  show "ivl_points (bt_get (bt_remove e fl)) block \<union> {s..<snd (block n)} =
      ivl_points (bt_get fl) block \<union> {s..<e}"
    unfolding rem(2) split using old by auto
  show "bt_get (bt_remove e fl) (snd (block n)) = None"
    using co n by (cases "bt_get fl (snd (block n))") (auto simp: fl_coalesced_def bt_get_remove)
  have "fl_ok full (bt_remove e fl)"
    using rem full bt by (auto simp: fl_ok_def bt.invar_remove)
  moreover have "fl_coalesced (bt_remove e fl)" using co by (rule fl_coalesced_remove)
  moreover have "{s..<snd (block n)} \<subseteq> range_set full" using split old full by blast
  moreover have "snd (block u) \<noteq> s" if "bt_get (bt_remove e fl) j = Some u" for j u
    using that ends by (auto simp: bt_get_remove split: if_splits)
  moreover have "ivl_points (bt_get (bt_remove e fl)) block \<inter> {s..<snd (block n)} = {}"
    unfolding rem(2) split using se(2) by blast
  ultimately show "free_gap full (bt_remove e fl) s (snd (block n))"
    using se(1) k by (simp add: free_gap_def)
qed

lemma free_next_block:
  assumes gap: "free_gap full fl s e"
  shows "case bt_after (bt_insert s \<lparr>block = (s, e)\<rparr> fl) s of
      [] \<Rightarrow> bt_get fl e = None
    | (k, n) # _ \<Rightarrow> bt_get fl k = Some n \<and> fst (block n) = k \<and> k \<noteq> s \<and>
        (k \<noteq> e \<longrightarrow> bt_get fl e = None)"
proof -
  let ?fl = "bt_insert s \<lparr>block = (s, e)\<rparr> fl"
  from gap have bt: "bt_ok fl" and iv: "ivl_ok (bt_get fl) block"
    and se: "s < e" "ivl_points (bt_get fl) block \<inter> {s..<e} = {}"
    by (auto simp: free_gap_def fl_ok_def)
  have mem: "(j, v) \<in> set (bt_after ?fl s) \<longleftrightarrow> s < j \<and> bt_get fl j = Some v" for j v
    using bt.after_set [OF bt_ok_insert [OF bt]] by (auto simp: bt_get_insert)
  have sorted: "sorted_wrt (<) (map fst (bt_after ?fl s))"
    by (rule bt.after_sorted [OF bt_ok_insert [OF bt]])
  show ?thesis
  proof (cases "bt_after ?fl s")
    case Nil
    with mem [of e] se(1) show ?thesis by (cases "bt_get fl e") auto
  next
    case (Cons kn rest)
    obtain k n where kn: "kn = (k, n)" by fastforce
    with mem [of k n] Cons have k: "s < k" "bt_get fl k = Some n" by auto
    note i = ivl_okD [OF iv k(2)]
    have "k \<in> ivl_points (bt_get fl) block" using k i by (auto intro: ivl_pointsI)
    with se k have "e \<le> k" by (metis IntI atLeastLessThan_iff emptyE less_imp_le not_le)
    have "bt_get fl e = None" if "k \<noteq> e"
    proof (cases "bt_get fl e")
      case (Some v)
      with mem [of e v] se(1) Cons kn that have "(e, v) \<in> set rest" by auto
      with sorted Cons kn have "k < e" by auto
      with \<open>e \<le> k\<close> show ?thesis by simp
    qed
    with Cons kn k i show ?thesis by simp
  qed
qed

text \<open>\<open>free\<close> of a non-empty range inside the full range, none of which is free, makes
  exactly that range free again, merges it with both neighbours (the invariant says that no
  two free blocks touch) and does not panic.\<close>

lemma range_free_correct:
  assumes inv: "range_inv a" and init: "freelist a \<noteq> None"
    and r: "\<not> range_is_empty r" "range_set r \<subseteq> range_set (fullrange a)"
      "range_set r \<inter> free_set a = {}"
  shows "\<exists>a'. range_free a r = Inr a' \<and> range_inv a' \<and> free_set a' = free_set a \<union> range_set r \<and>
    fullrange a' = fullrange a \<and> freelist a' \<noteq> None"
proof -
  from init obtain fl where fl: "freelist a = Some fl" by blast
  with inv have ok: "fl_ok (fullrange a) fl" and co: "fl_coalesced fl" by (auto simp: range_inv_def)
  have fs: "free_set a = ivl_points (bt_get fl) block" using fl by (simp add: free_set_def)
  define step where "step = (case bt_prev_lt fl (fst r) of
        Some (prev_va, prev_node) \<Rightarrow>
          if snd (block prev_node) = fst r
          then ((fst (block prev_node), snd r), bt_remove prev_va fl) else (r, fl)
      | None \<Rightarrow> (r, fl))"
  obtain s e fl1 where step_eq: "step = ((s, e), fl1)" by (metis prod.exhaust)
  from free_merge_prev [OF ok co, of r "(s, e)" fl1] r step_eq fs
  have gap: "free_gap (fullrange a) fl1 s e"
    and pts: "ivl_points (bt_get fl1) block \<union> {s..<e} = free_set a \<union> range_set r"
    by (auto simp: range_is_empty_def step_def)
  let ?fl2 = "bt_insert s \<lparr>block = (s, e)\<rparr> fl1"
  note next_ = free_next_block [OF gap]
  have keep: ?thesis if "bt_get fl1 e = None" "range_free a r = Inr (a\<lparr>freelist := Some ?fl2\<rparr>)"
    using free_gap_insert [OF gap that(1)] that(2) range_inv_freelist [OF inv] pts by simp
  show ?thesis
  proof (cases "bt_after ?fl2 s")
    case Nil
    with next_ fl step_eq show ?thesis
      by (intro keep) (simp_all add: range_free_def step_def [symmetric])
  next
    case (Cons kn rest)
    obtain k n where kn: "kn = (k, n)" by fastforce
    with next_ Cons have k: "bt_get fl1 k = Some n" "fst (block n) = k" "k \<noteq> s"
      "k \<noteq> e \<Longrightarrow> bt_get fl1 e = None" by auto
    show ?thesis
    proof (cases "k = e")
      case False
      with k kn Cons fl step_eq show ?thesis
        by (intro keep) (simp_all add: range_free_def step_def [symmetric])
    next
      case True
      note ext = free_gap_extend [OF gap k(1) [unfolded True]]
      have "range_free a r = Inr (a\<lparr>freelist := Some
          (bt_insert s \<lparr>block = (s, snd (block n))\<rparr> (bt_remove e ?fl2))\<rparr>)"
        using k kn Cons fl step_eq True
        by (simp add: range_free_def step_def [symmetric] bt_get_remove bt_get_insert)
      then show ?thesis
        using free_gap_insert [OF ext(1,2)] ext(3) pts range_inv_freelist [OF inv] k(3) True
        by (simp add: bt_insert_remove_insert)
    qed
  qed
qed

section \<open>Histories of an allocator\<close>

text \<open>
  What a sequence of calls does: \<open>live\<close> is the list of ranges handed out and not given back.
  A client frees only ranges it holds, as \<open>KVirtArea\<close> does in its destructor.
\<close>

inductive ra_reachable :: "urange \<Rightarrow> range_allocator \<Rightarrow> urange list \<Rightarrow> bool" for full where
  ra_new: "ra_reachable full (range_allocator_new full) []"
| ra_alloc: "ra_reachable full a live \<Longrightarrow> range_alloc a sz = Inr (Inr r, a') \<Longrightarrow> 0 < sz \<Longrightarrow>
    ra_reachable full a' (r # live)"
| ra_alloc_fail: "ra_reachable full a live \<Longrightarrow> range_alloc a sz = Inr (Inl e, a') \<Longrightarrow>
    ra_reachable full a' live"
| ra_specific: "ra_reachable full a live \<Longrightarrow> range_alloc_specific a r = (Inr (), a') \<Longrightarrow>
    ra_reachable full a' (r # live)"
| ra_specific_fail: "ra_reachable full a live \<Longrightarrow> range_alloc_specific a r = (Inl e, a') \<Longrightarrow>
    ra_reachable full a' live"
| ra_free: "ra_reachable full a (ls @ r # live) \<Longrightarrow> range_free a r = Inr a' \<Longrightarrow>
    ra_reachable full a' (ls @ live)"

definition live_set :: "urange list \<Rightarrow> nat set" where
  "live_set live = (\<Union>r\<in>set live. range_set r)"

definition live_ok :: "urange list \<Rightarrow> bool" where
  "live_ok live \<longleftrightarrow> (\<forall>r\<in>set live. \<not> range_is_empty r) \<and>
     sorted_wrt (\<lambda>r r'. range_set r \<inter> range_set r' = {}) live"

lemma live_set_simps [simp]:
  "live_set [] = {}" "live_set (r # live) = range_set r \<union> live_set live"
  "live_set (xs @ ys) = live_set xs \<union> live_set ys"
  by (auto simp: live_set_def)

lemma live_ok_Nil [simp]: "live_ok []"
  by (simp add: live_ok_def)

lemma live_ok_Cons [simp]:
  "live_ok (r # live) \<longleftrightarrow>
    \<not> range_is_empty r \<and> range_set r \<inter> live_set live = {} \<and> live_ok live"
  by (auto simp: live_ok_def live_set_def)

lemma live_ok_append [simp]:
  "live_ok (xs @ ys) \<longleftrightarrow> live_ok xs \<and> live_ok ys \<and> live_set xs \<inter> live_set ys = {}"
  by (auto simp: live_ok_def live_set_def sorted_wrt_append)

lemma guard_fullrange [simp]: "fullrange (a\<lparr>freelist := f\<rparr>) = fullrange a"
  by simp

lemma range_alloc_frame:
  "range_alloc a sz = Inr (res, a') \<Longrightarrow> fullrange a' = fullrange a \<and> freelist a' \<noteq> None"
  by (auto simp: range_alloc_def Let_def rbind_def usub_def
      split: option.splits if_splits sum.splits prod.splits)

lemma range_alloc_specific_frame:
  "range_alloc_specific a r = (res, a') \<Longrightarrow>
    fullrange a' = fullrange a \<and> (freelist a \<noteq> None \<or> res = Inr () \<longrightarrow> freelist a' \<noteq> None)"
  by (auto simp: range_alloc_specific_def Let_def split: option.splits if_splits)

lemma ra_reachable_inv:
  assumes "ra_reachable full a live" "\<not> range_is_empty full"
  shows "range_inv a \<and> fullrange a = full \<and> live_ok live \<and> free_set a \<inter> live_set live = {} \<and>
    free_set a \<union> live_set live = range_set full \<and> (live \<noteq> [] \<longrightarrow> freelist a \<noteq> None)"
  using assms
proof (induction rule: ra_reachable.induct)
  case ra_new
  then show ?case
    by (auto simp: range_allocator_new_def range_inv_def free_set_def range_is_empty_def)
next
  case (ra_alloc a live sz r a')
  then have IH: "range_inv a" "fullrange a = full" "live_ok live" "free_set a \<inter> live_set live = {}"
    "free_set a \<union> live_set live = range_set full" by auto
  from range_alloc_correct [OF IH(1), of sz] ra_alloc.hyps(2)
  have res: "range_inv a'" "snd r = fst r + sz" "range_set r \<subseteq> free_set a"
    "free_set a' = free_set a - range_set r" by auto
  moreover have "\<not> range_is_empty r" using res(2) ra_alloc.hyps(3) by (simp add: range_is_empty_def)
  ultimately show ?case using IH range_alloc_frame [OF ra_alloc.hyps(2)] by auto
next
  case (ra_alloc_fail a live sz e a')
  then show ?case
    using range_alloc_correct [of a sz] range_alloc_frame [OF ra_alloc_fail.hyps(2)] by auto
next
  case (ra_specific a live r a')
  then have IH: "range_inv a" "fullrange a = full" "live_ok live" "free_set a \<inter> live_set live = {}"
    "free_set a \<union> live_set live = range_set full" by auto
  note spec = range_alloc_specific_correct [OF IH(1) ra_specific.hyps(2), simplified]
  then show ?case using IH range_alloc_specific_frame [OF ra_specific.hyps(2)] by auto
next
  case (ra_specific_fail a live r e a')
  then show ?case
    using range_alloc_specific_correct [OF _ ra_specific_fail.hyps(2)]
      range_alloc_specific_frame [OF ra_specific_fail.hyps(2)] by auto
next
  case (ra_free a ls r live a')
  then have IH: "range_inv a" "fullrange a = full" "live_ok (ls @ r # live)"
    "free_set a \<inter> live_set (ls @ r # live) = {}" "freelist a \<noteq> None"
    "free_set a \<union> live_set (ls @ r # live) = range_set full" by auto
  with range_free_correct [OF IH(1,5), of r] ra_free.hyps(2)
  have "range_inv a'" "free_set a' = free_set a \<union> range_set r" "fullrange a' = fullrange a"
    "freelist a' \<noteq> None" by auto
  with IH show ?case by auto
qed

text \<open>C7. In every history of a range allocator the ranges handed out are non-empty, lie inside
  the full range and are pairwise disjoint, and the free list holds exactly the rest of the full
  range; giving back any live range succeeds without a panic.\<close>

theorem range_allocator_histories:
  assumes "ra_reachable full a live" and "\<not> range_is_empty full"
  shows "live_ok live \<and> live_set live \<subseteq> range_set full \<and>
    free_set a = range_set full - live_set live \<and>
    (\<forall>r. r \<in> set live \<longrightarrow> (\<exists>a'. range_free a r = Inr a'))"
proof -
  note inv = ra_reachable_inv [OF assms]
  have "\<exists>a'. range_free a r = Inr a'" if r: "r \<in> set live" for r
  proof -
    from r have sub: "range_set r \<subseteq> live_set live" by (auto simp: live_set_def)
    from r inv have "\<not> range_is_empty r" "freelist a \<noteq> None" by (auto simp: live_ok_def)
    with sub inv range_free_correct [of a r] show ?thesis by blast
  qed
  with inv show ?thesis by blast
qed

theorem range_allocator_histories_witness:
  "\<exists>a. ra_reachable (1, 9) a [(3, 4), (7, 9)] \<and> live_ok [(3, 4), (7, 9)] \<and>
    free_set a = range_set (1, 9) - live_set [(3, 4), (7, 9)] \<and>
    (\<exists>a'. range_free a (7, 9) = Inr a')"
proof -
  define a1 where "a1 = snd (projr (range_alloc (range_allocator_new (1, 9)) 2))"
  define a2 where "a2 = snd (range_alloc_specific a1 (3, 4))"
  have "range_alloc (range_allocator_new (1, 9)) 2 = Inr (Inr (7, 9), a1)"
    unfolding a1_def by code_simp
  from ra_alloc [OF ra_new this] have r1: "ra_reachable (1, 9) a1 [(7, 9)]" by simp
  have "range_alloc_specific a1 (3, 4) = (Inr (), a2)"
    unfolding a1_def a2_def by code_simp
  from ra_specific [OF r1 this]
  have "ra_reachable (1, 9) a2 [(3, 4), (7, 9)]" .
  with range_allocator_histories [OF this] show ?thesis
    by (intro exI [of _ a2]) (simp add: range_is_empty_def)
qed

text \<open>C18. First-fit \<open>alloc\<close> in any reachable state returns (it does not panic). A success is a
  range of the requested size none of which is live; a failure means that the part of the full
  range that is not live has no run of the requested size.\<close>

theorem range_alloc_complete:
  assumes "ra_reachable full a live" "\<not> range_is_empty full" "0 < sz"
  shows "\<exists>res a'. range_alloc a sz = Inr (res, a') \<and>
    (case res of
       Inr r \<Rightarrow> snd r = fst r + sz \<and> range_set r \<subseteq> range_set full - live_set live
     | Inl _ \<Rightarrow> (\<forall>s. \<not> {s..<s + sz} \<subseteq> range_set full - live_set live))"
proof -
  note inv = ra_reachable_inv [OF assms(1,2)]
  then have "free_set a = range_set full - live_set live" by blast
  moreover from range_alloc_correct [of a sz] inv obtain res a'
    where "range_alloc a sz = Inr (res, a')"
      "case res of
         Inl _ \<Rightarrow> free_set a' = free_set a \<and> (\<forall>s. 0 < sz \<longrightarrow> \<not> {s..<s + sz} \<subseteq> free_set a)
       | Inr r \<Rightarrow> snd r = fst r + sz \<and> range_set r \<subseteq> free_set a \<and>
           free_set a' = free_set a - range_set r" by blast
  ultimately show ?thesis
    using assms(3) by (cases res) simp_all
qed

theorem range_alloc_complete_witness:
  "\<exists>res a'. range_alloc (range_allocator_new (1, 9)) 9 = Inr (res, a') \<and>
    (case res of
       Inr r \<Rightarrow> snd r = fst r + 9 \<and> range_set r \<subseteq> range_set (1, 9) - live_set []
     | Inl _ \<Rightarrow> (\<forall>s. \<not> {s..<s + 9} \<subseteq> range_set (1, 9) - live_set []))"
  using range_alloc_complete [OF ra_new [of "(1, 9)"], of "9"]
  by (simp add: range_is_empty_def)

text \<open>\<open>alloc_specific\<close> in any reachable state succeeds exactly when the range is not empty,
  lies inside the full range and meets no live range.\<close>

theorem range_alloc_specific_exact:
  assumes "ra_reachable full a live" "\<not> range_is_empty full"
  shows "fst (range_alloc_specific a r) = Inr () \<longleftrightarrow>
    \<not> range_is_empty r \<and> range_set r \<subseteq> range_set full \<and> range_set r \<inter> live_set live = {}"
proof -
  note inv = ra_reachable_inv [OF assms]
  from inv have "free_set a = range_set full - live_set live" by blast
  with range_alloc_specific_correct [of a r] inv show ?thesis
    by (cases "range_alloc_specific a r") auto
qed

theorem range_alloc_specific_exact_witness:
  "fst (range_alloc_specific (range_allocator_new (1, 9)) (1, 2)) = Inr () \<longleftrightarrow>
    \<not> range_is_empty (1, 2) \<and> range_set (1, 2) \<subseteq> range_set (1, 9) \<and>
    range_set (1, 2) \<inter> live_set [] = {}"
  by (rule range_alloc_specific_exact [OF ra_new]) (simp add: range_is_empty_def)

end
