(* ===== verification/Interval_Set.thy ===== *)
theory Interval_Set
  imports Btree_Map
begin

text \<open>
  The interval set of a VMAR, \<open>kernel/src/vm/vmar/interval_set.rs\<close>: a \<open>BTreeMap\<close> from the start
  of an interval to the item. The method \<open>range\<close> of the trait \<open>Interval\<close> is the parameter
  \<open>rng\<close>. A cursor of the map is the pair of the entries before and after its gap; the two
  iterators are state machines over a cursor, and \<open>iter_collect\<close> and \<open>drain_collect\<close> run them
  as a \<open>for\<close> loop does.
\<close>

record ('k, 'v) interval_set =
  btree :: "('k, 'v) btree"

type_synonym ('k, 'v) cursor = "('k, 'v) btree \<times> ('k, 'v) btree"

record ('k, 'v) interval_iter =
  cursor :: "('k, 'v) cursor"
  iter_range :: "'k \<times> 'k"
  peeked_prev :: bool

record ('k, 'v) interval_drain =
  drain_cursor :: "('k, 'v) cursor"
  drain_range :: "'k \<times> 'k"
  drained_prev :: bool

section \<open>Cursors\<close>

definition lower_bound_excluded :: "('k::linorder, 'v) btree \<Rightarrow> 'k \<Rightarrow> ('k, 'v) cursor" where
  "lower_bound_excluded m k = (filter (\<lambda>e. fst e \<le> k) m, bt_after m k)"

definition peek_prev :: "('k, 'v) cursor \<Rightarrow> ('k \<times> 'v) option" where
  "peek_prev c = last_entry (fst c)"

fun peek_next :: "('k, 'v) cursor \<Rightarrow> ('k \<times> 'v) option" where
  "peek_next (before, []) = None"
| "peek_next (before, e # ahead) = Some e"

fun cursor_next :: "('k, 'v) cursor \<Rightarrow> ('k \<times> 'v) option \<times> ('k, 'v) cursor" where
  "cursor_next (before, []) = (None, (before, []))"
| "cursor_next (before, e # ahead) = (Some e, (before @ [e], ahead))"

definition remove_prev :: "('k, 'v) cursor \<Rightarrow> ('k, 'v) cursor" where
  "remove_prev c = (butlast (fst c), snd c)"

definition remove_next :: "('k, 'v) cursor \<Rightarrow> ('k, 'v) cursor" where
  "remove_next c = (fst c, tl (snd c))"

lemma last_entry_Nil [simp]: "last_entry [] = None"
  by simp

section \<open>Operations\<close>

definition interval_set_new :: "('k, 'v) interval_set" where
  "interval_set_new = \<lparr>btree = []\<rparr>"

definition is_insert ::
  "('v \<Rightarrow> 'k \<times> 'k) \<Rightarrow> ('k::linorder, 'v) interval_set \<Rightarrow> 'v \<Rightarrow> ('k, 'v) interval_set" where
  "is_insert rng s item = s\<lparr>btree := bt_insert (fst (rng item)) item (btree s)\<rparr>"

definition is_remove ::
  "('k::linorder, 'v) interval_set \<Rightarrow> 'k \<Rightarrow> 'v option \<times> ('k, 'v) interval_set" where
  "is_remove s key = (bt_get (btree s) key, s\<lparr>btree := bt_remove key (btree s)\<rparr>)"

definition is_iter :: "('k, 'v) interval_set \<Rightarrow> 'v list" where
  "is_iter s = map snd (btree s)"

definition find_one ::
  "('v \<Rightarrow> 'k \<times> 'k) \<Rightarrow> ('k::linorder, 'v) interval_set \<Rightarrow> 'k \<Rightarrow> 'v option" where
  "find_one rng s point =
     (case peek_prev (lower_bound_excluded (btree s) point) of
        Some (_, v) \<Rightarrow> if snd (rng v) > point then Some v else None
      | None \<Rightarrow> None)"

definition find_range ::
  "('k::linorder, 'v) interval_set \<Rightarrow> 'k \<times> 'k \<Rightarrow> ('k, 'v) interval_iter" where
  "find_range s r =
     \<lparr>cursor = lower_bound_excluded (btree s) (fst r), iter_range = r, peeked_prev = False\<rparr>"

definition find_prev :: "('k::linorder, 'v) interval_set \<Rightarrow> 'k \<Rightarrow> 'v option" where
  "find_prev s point = map_option snd (bt_prev_lt (btree s) point)"

definition find_next :: "('k::linorder, 'v) interval_set \<Rightarrow> 'k \<Rightarrow> 'v option" where
  "find_next s point = map_option snd (peek_next (lower_bound_excluded (btree s) point))"

definition take_one ::
  "('v \<Rightarrow> 'k \<times> 'k) \<Rightarrow> ('k::linorder, 'v) interval_set \<Rightarrow> 'k \<Rightarrow>
    'v option \<times> ('k, 'v) interval_set" where
  "take_one rng s point =
     (let c = lower_bound_excluded (btree s) point in
      case peek_prev c of
        Some (_, v) \<Rightarrow>
          if snd (rng v) > point
          then (Some v, let c' = remove_prev c in s\<lparr>btree := fst c' @ snd c'\<rparr>)
          else (None, s)
      | None \<Rightarrow>
          (case peek_next c of
             Some (_, v) \<Rightarrow>
               if fst (rng v) \<le> point
               then (Some v, let c' = remove_next c in s\<lparr>btree := fst c' @ snd c'\<rparr>)
               else (None, s)
           | None \<Rightarrow> (None, s)))"

definition take_range ::
  "('k::linorder, 'v) interval_set \<Rightarrow> 'k \<times> 'k \<Rightarrow> ('k, 'v) interval_drain" where
  "take_range s r =
     \<lparr>drain_cursor = lower_bound_excluded (btree s) (fst r), drain_range = r,
      drained_prev = False\<rparr>"

definition is_clear :: "('k, 'v) interval_set \<Rightarrow> ('k, 'v) interval_set" where
  "is_clear s = s\<lparr>btree := []\<rparr>"

text \<open>The part of \<open>next\<close> after the check of the previous item.\<close>

definition iter_ahead ::
  "('v \<Rightarrow> 'k::linorder \<times> 'k) \<Rightarrow> ('k, 'v) interval_iter \<Rightarrow> 'v option \<times> ('k, 'v) interval_iter" where
  "iter_ahead rng it =
     (case cursor_next (cursor it) of
        (Some (_, v), c) \<Rightarrow>
          (if fst (rng v) \<ge> snd (iter_range it) then None else Some v, it\<lparr>cursor := c\<rparr>)
      | (None, c) \<Rightarrow> (None, it\<lparr>cursor := c\<rparr>))"

definition iter_next ::
  "('v \<Rightarrow> 'k::linorder \<times> 'k) \<Rightarrow> ('k, 'v) interval_iter \<Rightarrow> 'v option \<times> ('k, 'v) interval_iter" where
  "iter_next rng it =
     (if \<not> peeked_prev it then
        let it1 = it\<lparr>peeked_prev := True\<rparr> in
        case peek_prev (cursor it) of
          Some (_, v) \<Rightarrow>
            if snd (rng v) > fst (iter_range it) then (Some v, it1) else iter_ahead rng it1
        | None \<Rightarrow> iter_ahead rng it1
      else iter_ahead rng it)"

definition drain_ahead ::
  "('v \<Rightarrow> 'k::linorder \<times> 'k) \<Rightarrow> ('k, 'v) interval_drain \<Rightarrow> 'v option \<times> ('k, 'v) interval_drain" where
  "drain_ahead rng dr =
     (case peek_next (drain_cursor dr) of
        Some (_, v) \<Rightarrow>
          if fst (rng v) \<ge> snd (drain_range dr) then (None, dr)
          else (Some v, dr\<lparr>drain_cursor := remove_next (drain_cursor dr)\<rparr>)
      | None \<Rightarrow> (None, dr))"

definition drain_next ::
  "('v \<Rightarrow> 'k::linorder \<times> 'k) \<Rightarrow> ('k, 'v) interval_drain \<Rightarrow> 'v option \<times> ('k, 'v) interval_drain" where
  "drain_next rng dr =
     (if \<not> drained_prev dr then
        let dr1 = dr\<lparr>drained_prev := True\<rparr> in
        case peek_prev (drain_cursor dr) of
          Some (_, v) \<Rightarrow>
            if snd (rng v) > fst (drain_range dr)
            then (Some v, dr1\<lparr>drain_cursor := remove_prev (drain_cursor dr)\<rparr>)
            else drain_ahead rng dr1
        | None \<Rightarrow> drain_ahead rng dr1
      else drain_ahead rng dr)"

section \<open>Running the iterators\<close>

fun iter_left :: "('k, 'v) interval_iter \<Rightarrow> nat" where
  "iter_left it = length (snd (cursor it)) + (if peeked_prev it then 0 else 1)"

lemma iter_ahead_left:
  "iter_ahead rng it = (Some v, it') \<Longrightarrow>
    length (snd (cursor it')) < length (snd (cursor it)) \<and> peeked_prev it' = peeked_prev it"
  by (cases "cursor it" rule: cursor_next.cases) (auto simp: iter_ahead_def split: if_splits)

lemma iter_next_left: "iter_next rng it = (Some v, it') \<Longrightarrow> iter_left it' < iter_left it"
  by (auto simp: iter_next_def Let_def dest!: iter_ahead_left split: option.splits if_splits)

function iter_collect ::
  "('v \<Rightarrow> 'k::linorder \<times> 'k) \<Rightarrow> ('k, 'v) interval_iter \<Rightarrow> 'v list" where
  "iter_collect rng it =
     (case iter_next rng it of
        (Some v, it') \<Rightarrow> v # iter_collect rng it'
      | (None, it') \<Rightarrow> [])"
  by pat_completeness auto

termination iter_collect
  by (relation "measure (\<lambda>(rng, it). iter_left it)") (auto dest!: iter_next_left [OF sym])

fun drain_left :: "('k, 'v) interval_drain \<Rightarrow> nat" where
  "drain_left dr = length (snd (drain_cursor dr)) + (if drained_prev dr then 0 else 1)"

lemma drain_ahead_left:
  "drain_ahead rng dr = (Some v, dr') \<Longrightarrow>
    length (snd (drain_cursor dr')) < length (snd (drain_cursor dr)) \<and>
    drained_prev dr' = drained_prev dr"
  by (cases "drain_cursor dr" rule: peek_next.cases)
    (auto simp: drain_ahead_def remove_next_def split: if_splits)

lemma drain_next_left: "drain_next rng dr = (Some v, dr') \<Longrightarrow> drain_left dr' < drain_left dr"
  by (auto simp: drain_next_def Let_def remove_prev_def dest!: drain_ahead_left
      split: option.splits if_splits)

function drain_collect ::
  "('v \<Rightarrow> 'k::linorder \<times> 'k) \<Rightarrow> ('k, 'v) interval_drain \<Rightarrow> 'v list \<times> ('k, 'v) interval_set" where
  "drain_collect rng dr =
     (case drain_next rng dr of
        (Some v, dr') \<Rightarrow> (case drain_collect rng dr' of (vs, s) \<Rightarrow> (v # vs, s))
      | (None, dr') \<Rightarrow> ([], \<lparr>btree = fst (drain_cursor dr') @ snd (drain_cursor dr')\<rparr>))"
  by pat_completeness auto

termination drain_collect
  by (relation "measure (\<lambda>(rng, dr). drain_left dr)") (auto dest!: drain_next_left [OF sym])

declare iter_collect.simps [simp del] drain_collect.simps [simp del]

section \<open>Invariant\<close>

definition is_ok :: "('v \<Rightarrow> 'k::linorder \<times> 'k) \<Rightarrow> ('k, 'v) interval_set \<Rightarrow> bool" where
  "is_ok rng s \<longleftrightarrow> bt_ok (btree s) \<and> ivl_ok (bt_get (btree s)) rng"

definition is_points :: "('v \<Rightarrow> 'k::linorder \<times> 'k) \<Rightarrow> ('k, 'v) interval_set \<Rightarrow> 'k set" where
  "is_points rng s = ivl_points (bt_get (btree s)) rng"

definition meets :: "('v \<Rightarrow> 'k::linorder \<times> 'k) \<Rightarrow> 'k \<times> 'k \<Rightarrow> 'v \<Rightarrow> bool" where
  "meets rng r v \<longleftrightarrow> fst (rng v) < snd r \<and> fst r < snd (rng v)"

text \<open>The invariant seen on the list of entries.\<close>

definition ivl_list :: "('v \<Rightarrow> 'k::linorder \<times> 'k) \<Rightarrow> ('k, 'v) btree \<Rightarrow> bool" where
  "ivl_list rng m \<longleftrightarrow> sorted_wrt (\<lambda>e d. snd (rng (snd e)) \<le> fst d) m \<and>
     (\<forall>e\<in>set m. fst (rng (snd e)) = fst e \<and> fst e < snd (rng (snd e)))"

lemma ivl_list_of_ok:
  assumes "bt_ok m" "ivl_ok (bt_get m) rng"
  shows "ivl_list rng m"
proof -
  have "bt_get m (fst e) = Some (snd e)" if "e \<in> set m" for e
    using that assms(1) by (simp add: bt_get_eq)
  with assms ivl_okD [OF assms(2)] ivl_ok_gap [OF assms(2)] show ?thesis
    unfolding ivl_list_def bt_ok_def sorted_wrt_map
    by (blast intro: sorted_wrt_mono_rel [of m "\<lambda>e d. fst e < fst d"])
qed

lemma ivl_list_append:
  "ivl_list rng (m @ m') \<longleftrightarrow> ivl_list rng m \<and> ivl_list rng m' \<and>
    (\<forall>e\<in>set m. \<forall>d\<in>set m'. snd (rng (snd e)) \<le> fst d)"
  by (auto simp: ivl_list_def sorted_wrt_append)

lemma split_at:
  assumes "bt_ok m"
  shows "filter (\<lambda>e. fst e \<le> k) m @ bt_after m k = m"
  using assms unfolding bt_after_def bt_ok_def
proof (induction m)
  case (Cons e m)
  show ?case
  proof (cases "fst e \<le> k")
    case True
    with Cons show ?thesis by (simp add: not_less)
  next
    case False
    with Cons.prems have "filter (\<lambda>e. fst e \<le> k) m = []" by (auto simp: filter_empty_conv)
    moreover from False Cons.prems have "filter (\<lambda>e. k < fst e) m = m" by (auto simp: filter_id_conv)
    ultimately show ?thesis using False by simp
  qed
qed simp

lemma filter_takeWhile:
  "sorted_wrt (\<lambda>e d. P d \<longrightarrow> P e) xs \<Longrightarrow> filter P xs = takeWhile P xs \<and>
    filter (\<lambda>e. \<not> P e) xs = dropWhile P xs"
  by (induction xs) (auto simp: filter_empty_conv filter_id_conv)

text \<open>Of the entries that start at or before a point, only the last can reach past it.\<close>

lemma reach_past:
  assumes "ivl_list rng m" "\<forall>e\<in>set m. fst e \<le> p"
  shows "filter (\<lambda>e. p < snd (rng (snd e))) m =
      (case last_entry m of Some e \<Rightarrow> if p < snd (rng (snd e)) then [e] else [] | None \<Rightarrow> []) \<and>
    (m \<noteq> [] \<longrightarrow> p < snd (rng (snd (last m))) \<longrightarrow>
      filter (\<lambda>e. \<not> p < snd (rng (snd e))) m = butlast m)"
proof (cases m rule: rev_cases)
  case (snoc m' e)
  with assms have "\<forall>d\<in>set m'. \<not> p < snd (rng (snd d))"
    by (fastforce simp: ivl_list_append)
  then show ?thesis
    using snoc by (simp add: filter_empty_conv filter_id_conv last_entry_def)
qed (simp add: last_entry_def)

section \<open>Searching for a point\<close>

text \<open>On a valid interval set \<open>find_one\<close> returns an item exactly when that item is in the
  set and its range contains the point.\<close>

theorem find_one_correct:
  assumes "is_ok rng s"
  shows "find_one rng s p = Some v \<longleftrightarrow> v \<in> set (is_iter s) \<and> fst (rng v) \<le> p \<and> p < snd (rng v)"
proof -
  from assms have bt: "bt_ok (btree s)" and iv: "ivl_ok (bt_get (btree s)) rng"
    by (auto simp: is_ok_def)
  have "find_one rng s p = Some v \<longleftrightarrow> (\<exists>k. bt_prev_le (btree s) p = Some (k, v) \<and> p < snd (rng v))"
    by (auto simp: find_one_def peek_prev_def lower_bound_excluded_def bt_prev_le_def
        split: option.splits)
  also have "\<dots> \<longleftrightarrow> (\<exists>k. bt_get (btree s) k = Some v \<and> k \<le> p \<and> p < snd (rng v))"
    by (rule bti.prev_le_contains [OF bt iv])
  also have "\<dots> \<longleftrightarrow> v \<in> set (is_iter s) \<and> fst (rng v) \<le> p \<and> p < snd (rng v)"
    using ivl_okD [OF iv] by (force simp: is_iter_def bt_get_eq [OF bt])
  finally show ?thesis .
qed

theorem find_one_correct_witness:
  "is_ok id \<lparr>btree = [(2::nat, (2, 5)), (5, (5, 6)), (8, (8, 9))]\<rparr> \<and>
   find_one id \<lparr>btree = [(2::nat, (2, 5)), (5, (5, 6)), (8, (8, 9))]\<rparr> 4 = Some (2, 5)"
proof -
  let ?s = "\<lparr>btree = [(2::nat, (2::nat, 5::nat)), (5, (5, 6)), (8, (8, 9))]\<rparr>"
  have ok: "is_ok id ?s"
    by (auto simp: is_ok_def bt_ok_def bt_get_def ivl_ok_def split: if_splits)
  with find_one_correct [OF ok, of 4 "(2, 5)"] show ?thesis by (simp add: is_iter_def)
qed

section \<open>Searching for a range\<close>

lemma iter_collect_ahead:
  "peeked_prev it \<Longrightarrow> iter_collect rng it =
    map snd (takeWhile (\<lambda>e. fst (rng (snd e)) < snd (iter_range it)) (snd (cursor it)))"
proof (induction "snd (cursor it)" arbitrary: it)
  case Nil
  then show ?case
    by (cases "cursor it") (simp add: iter_collect.simps iter_next_def iter_ahead_def)
next
  case (Cons e ahead)
  then obtain before where c: "cursor it = (before, e # ahead)" by (cases "cursor it") auto
  with Cons.prems Cons.hyps(1) [of "it\<lparr>cursor := (before @ [e], ahead)\<rparr>"] show ?case
    by (subst iter_collect.simps) (auto simp: iter_next_def iter_ahead_def not_le split: prod.splits)
qed

lemma drain_collect_ahead:
  "drained_prev dr \<Longrightarrow> drain_collect rng dr =
    (map snd (takeWhile (\<lambda>e. fst (rng (snd e)) < snd (drain_range dr)) (snd (drain_cursor dr))),
     \<lparr>btree = fst (drain_cursor dr) @
       dropWhile (\<lambda>e. fst (rng (snd e)) < snd (drain_range dr)) (snd (drain_cursor dr))\<rparr>)"
proof (induction "snd (drain_cursor dr)" arbitrary: dr)
  case Nil
  then show ?case
    by (cases "drain_cursor dr") (simp add: drain_collect.simps drain_next_def drain_ahead_def)
next
  case (Cons e ahead)
  then obtain before where c: "drain_cursor dr = (before, e # ahead)" by (cases "drain_cursor dr") auto
  with Cons.prems Cons.hyps(1) [of "dr\<lparr>drain_cursor := (before, ahead)\<rparr>"] show ?case
    by (subst drain_collect.simps)
      (auto simp: drain_next_def drain_ahead_def remove_next_def not_le split: prod.splits)
qed

lemma iter_collect_find:
  "iter_collect rng (find_range s r) =
    (case peek_prev (lower_bound_excluded (btree s) (fst r)) of
       Some (_, v) \<Rightarrow> if snd (rng v) > fst r then [v] else []
     | None \<Rightarrow> []) @
    map snd (takeWhile (\<lambda>e. fst (rng (snd e)) < snd r) (bt_after (btree s) (fst r)))"
proof -
  let ?it = "(find_range s r)\<lparr>peeked_prev := True\<rparr>"
  have ahead: "iter_collect rng ?it =
      (case iter_ahead rng ?it of (Some v, it') \<Rightarrow> v # iter_collect rng it' | (None, it') \<Rightarrow> [])"
    by (subst iter_collect.simps) (simp add: iter_next_def)
  have "iter_collect rng (find_range s r) =
      (case peek_prev (cursor (find_range s r)) of
         Some (_, v) \<Rightarrow> if snd (rng v) > fst r then [v] else [] | None \<Rightarrow> []) @ iter_collect rng ?it"
    unfolding ahead
    by (subst iter_collect.simps)
      (auto simp: iter_next_def find_range_def ahead [unfolded find_range_def, simplified]
        split: option.splits)
  then show ?thesis
    by (simp add: iter_collect_ahead find_range_def lower_bound_excluded_def)
qed

lemma drain_collect_take:
  "drain_collect rng (take_range s r) =
    (let before = filter (\<lambda>e. fst e \<le> fst r) (btree s);
         ahead = bt_after (btree s) (fst r);
         hit = (case last_entry before of Some (_, v) \<Rightarrow> snd (rng v) > fst r | None \<Rightarrow> False)
     in ((if hit then [snd (last before)] else []) @
           map snd (takeWhile (\<lambda>e. fst (rng (snd e)) < snd r) ahead),
         \<lparr>btree = (if hit then butlast before else before) @
           dropWhile (\<lambda>e. fst (rng (snd e)) < snd r) ahead\<rparr>))"
proof -
  have ahead: "drained_prev dr \<Longrightarrow> (case drain_ahead rng dr of
      (Some v, dr') \<Rightarrow> (case drain_collect rng dr' of (vs, s) \<Rightarrow> (v # vs, s))
    | (None, dr') \<Rightarrow> ([], \<lparr>btree = fst (drain_cursor dr') @ snd (drain_cursor dr')\<rparr>)) =
      drain_collect rng dr" for dr
    by (subst (2) drain_collect.simps) (simp add: drain_next_def)
  show ?thesis
    by (subst drain_collect.simps)
      (auto simp: drain_next_def take_range_def peek_prev_def lower_bound_excluded_def Let_def
        ahead drain_collect_ahead remove_prev_def last_entry_def split: option.splits prod.splits)
qed

text \<open>The two halves of the entries around \<open>fst r\<close>, and which of them meet \<open>r\<close>.\<close>

lemma meets_split:
  fixes rng :: "'v \<Rightarrow> 'k::linorder \<times> 'k"
  assumes ok: "is_ok rng s" and r: "fst r < snd r"
  defines "before \<equiv> filter (\<lambda>e. fst e \<le> fst r) (btree s)"
    and "ahead \<equiv> bt_after (btree s) (fst r)"
  shows "btree s = before @ ahead" "ivl_list rng before" "\<forall>e\<in>set before. fst e \<le> fst r"
    "filter (\<lambda>e. meets rng r (snd e)) before = filter (\<lambda>e. fst r < snd (rng (snd e))) before"
    "filter (\<lambda>e. \<not> meets rng r (snd e)) before = filter (\<lambda>e. \<not> fst r < snd (rng (snd e))) before"
    "filter (\<lambda>e. meets rng r (snd e)) ahead = takeWhile (\<lambda>e. fst (rng (snd e)) < snd r) ahead"
    "filter (\<lambda>e. \<not> meets rng r (snd e)) ahead = dropWhile (\<lambda>e. fst (rng (snd e)) < snd r) ahead"
proof -
  from ok have bt: "bt_ok (btree s)" and lst: "ivl_list rng (btree s)"
    by (auto simp: is_ok_def ivl_list_of_ok)
  show eq: "btree s = before @ ahead" by (simp add: before_def ahead_def split_at [OF bt])
  with lst have l: "ivl_list rng before" "ivl_list rng ahead" by (simp_all add: ivl_list_append)
  then show "ivl_list rng before" by simp
  show "\<forall>e\<in>set before. fst e \<le> fst r" by (simp add: before_def)
  have b: "meets rng r (snd e) \<longleftrightarrow> fst r < snd (rng (snd e))" if "e \<in> set before" for e
  proof -
    from that l(1) have "fst (rng (snd e)) = fst e" by (simp add: ivl_list_def)
    moreover from that have "fst e \<le> fst r" by (simp add: before_def)
    ultimately show ?thesis using r by (auto simp: meets_def)
  qed
  then show "filter (\<lambda>e. meets rng r (snd e)) before = filter (\<lambda>e. fst r < snd (rng (snd e))) before"
    "filter (\<lambda>e. \<not> meets rng r (snd e)) before = filter (\<lambda>e. \<not> fst r < snd (rng (snd e))) before"
    by (auto intro: filter_cong)
  have a: "meets rng r (snd e) \<longleftrightarrow> fst (rng (snd e)) < snd r" if "e \<in> set ahead" for e
  proof -
    from that l(2) have "fst (rng (snd e)) = fst e" "fst e < snd (rng (snd e))"
      by (simp_all add: ivl_list_def)
    moreover from that have "fst r < fst e" by (simp add: ahead_def bt_after_def)
    ultimately show ?thesis by (auto simp: meets_def)
  qed
  have "sorted_wrt (\<lambda>e d. fst (rng (snd d)) < snd r \<longrightarrow> fst (rng (snd e)) < snd r) ahead"
  proof (rule sorted_wrt_mono_rel [of ahead "\<lambda>e d. snd (rng (snd e)) \<le> fst d"])
    fix e d assume "e \<in> set ahead" "d \<in> set ahead" "snd (rng (snd e)) \<le> fst d"
    with l(2) show "fst (rng (snd d)) < snd r \<longrightarrow> fst (rng (snd e)) < snd r"
      unfolding ivl_list_def by (metis less_le_trans less_trans)
  qed (use l(2) in \<open>simp add: ivl_list_def\<close>)
  from filter_takeWhile [OF this] a
  show "filter (\<lambda>e. meets rng r (snd e)) ahead = takeWhile (\<lambda>e. fst (rng (snd e)) < snd r) ahead"
    "filter (\<lambda>e. \<not> meets rng r (snd e)) ahead = dropWhile (\<lambda>e. fst (rng (snd e)) < snd r) ahead"
    by (metis (mono_tags, lifting) filter_cong)+
qed

text \<open>C16. Iterating over \<open>find(range)\<close> of a non-empty range yields exactly the items whose range
  intersects it, each once and in ascending order; \<open>take(range)\<close> yields the same items and
  leaves exactly the others in the set.\<close>

theorem find_take_correct:
  assumes ok: "is_ok rng s" and r: "fst r < snd r"
  shows "iter_collect rng (find_range s r) = filter (meets rng r) (is_iter s) \<and>
    drain_collect rng (take_range s r) =
      (filter (meets rng r) (is_iter s), \<lparr>btree = filter (\<lambda>e. \<not> meets rng r (snd e)) (btree s)\<rparr>)"
proof -
  note m = meets_split [OF ok r]
  have items: "filter (meets rng r) (is_iter s) = map snd (filter (\<lambda>e. meets rng r (snd e)) (btree s))"
    by (simp add: is_iter_def filter_map comp_def)
  define before where "before = filter (\<lambda>e. fst e \<le> fst r) (btree s)"
  define ahead where "ahead = bt_after (btree s) (fst r)"
  note m = m [folded before_def ahead_def]
  note past = reach_past [OF m(2,3)]
  have split: "filter (\<lambda>e. meets rng r (snd e)) (btree s) =
      filter (\<lambda>e. fst r < snd (rng (snd e))) before @ takeWhile (\<lambda>e. fst (rng (snd e)) < snd r) ahead"
    "filter (\<lambda>e. \<not> meets rng r (snd e)) (btree s) =
      filter (\<lambda>e. \<not> fst r < snd (rng (snd e))) before @ dropWhile (\<lambda>e. fst (rng (snd e)) < snd r) ahead"
    by (simp_all only: m(1) filter_append m(4-7))
  note run = iter_collect_find [of rng s r] drain_collect_take [of rng s r]
  show ?thesis
  proof (cases "last_entry before")
    case None
    with past show ?thesis
      unfolding run items split peek_prev_def lower_bound_excluded_def fst_conv
        before_def [symmetric] ahead_def [symmetric] by simp
  next
    case (Some e)
    then have e: "before \<noteq> []" "e = last before" by (auto simp: last_entry_def split: if_splits)
    show ?thesis
    proof (cases "fst r < snd (rng (snd e))")
      case True
      with past Some e show ?thesis
        unfolding run items split peek_prev_def lower_bound_excluded_def fst_conv
          before_def [symmetric] ahead_def [symmetric] by (auto split: prod.splits)
    next
      case False
      with past Some have "filter (\<lambda>e. fst r < snd (rng (snd e))) before = []" by simp
      moreover from this have "filter (\<lambda>e. \<not> fst r < snd (rng (snd e))) before = before"
        by (simp add: filter_empty_conv filter_id_conv)
      ultimately show ?thesis
        using Some False unfolding run items split peek_prev_def lower_bound_excluded_def fst_conv
          before_def [symmetric] ahead_def [symmetric] by (auto split: prod.splits)
    qed
  qed
qed

theorem find_take_correct_witness:
  "iter_collect id (find_range \<lparr>btree = [(2::nat, (2, 5)), (5, (5, 6)), (8, (8, 9))]\<rparr> (3, 6)) =
     [(2, 5), (5, 6)] \<and>
   drain_collect id (take_range \<lparr>btree = [(2::nat, (2, 5)), (5, (5, 6)), (8, (8, 9))]\<rparr> (3, 6)) =
     ([(2, 5), (5, 6)], \<lparr>btree = [(8, (8, 9))]\<rparr>)"
proof -
  let ?s = "\<lparr>btree = [(2::nat, (2::nat, 5::nat)), (5, (5, 6)), (8, (8, 9))]\<rparr>"
  have ok: "is_ok id ?s"
    by (auto simp: is_ok_def bt_ok_def bt_get_def ivl_ok_def split: if_splits)
  from find_take_correct [OF ok, of "(3, 6)"] show ?thesis by (simp add: is_iter_def meets_def)
qed

section \<open>Updates\<close>

lemma is_ok_new: "is_ok rng interval_set_new" "is_points rng interval_set_new = {}"
  by (auto simp: is_ok_def is_points_def interval_set_new_def bt_ok_def bt_get_def ivl_ok_def
      ivl_points_def)

lemma is_ok_clear: "is_ok rng (is_clear s)" "is_points rng (is_clear s) = {}"
  using is_ok_new [of rng] by (simp_all add: is_clear_def interval_set_new_def is_ok_def is_points_def)

text \<open>C17. The interval set stays valid under its updates: \<open>insert\<close> of a non-empty interval that
  meets no item adds exactly its points, and \<open>remove\<close> by start returns the item with that start,
  if there is one, and takes exactly its points out.\<close>

theorem interval_set_updates:
  fixes rng :: "'v \<Rightarrow> 'k::linorder \<times> 'k"
  assumes ok: "is_ok rng s"
  shows "(fst (rng v) < snd (rng v) \<and> is_points rng s \<inter> {fst (rng v)..<snd (rng v)} = {} \<longrightarrow>
      is_ok rng (is_insert rng s v) \<and>
      is_points rng (is_insert rng s v) = is_points rng s \<union> {fst (rng v)..<snd (rng v)} \<and>
      set (is_iter (is_insert rng s v)) = insert v (set (is_iter s))) \<and>
    is_ok rng (snd (is_remove s k)) \<and>
    (case is_remove s k of
       (None, s') \<Rightarrow> (\<forall>u\<in>set (is_iter s). fst (rng u) \<noteq> k) \<and> s' = s
     | (Some u, s') \<Rightarrow> u \<in> set (is_iter s) \<and> fst (rng u) = k \<and>
         is_points rng s' = is_points rng s - {k..<snd (rng u)})"
    (is "?ins \<and> ?ok \<and> ?rem")
proof -
  from ok have bt: "bt_ok (btree s)" and iv: "ivl_ok (bt_get (btree s)) rng"
    by (auto simp: is_ok_def)
  have ?ins
  proof (intro impI conjI)
    assume v: "fst (rng v) < snd (rng v) \<and> is_points rng s \<inter> {fst (rng v)..<snd (rng v)} = {}"
    note ins = bti.insert_ok [OF bt iv refl, of v]
    from v ins show "is_ok rng (is_insert rng s v)"
      "is_points rng (is_insert rng s v) = is_points rng s \<union> {fst (rng v)..<snd (rng v)}"
      using bt_ok_insert [OF bt] by (auto simp: is_ok_def is_points_def is_insert_def)
    have "bt_get (btree s) (fst (rng v)) = None"
    proof (rule ccontr)
      assume "bt_get (btree s) (fst (rng v)) \<noteq> None"
      then obtain u where u: "bt_get (btree s) (fst (rng v)) = Some u" by blast
      from ivl_pointsI [where g = "bt_get (btree s)", OF u, of rng "fst (rng v)"] ivl_okD [OF iv u]
      have "fst (rng v) \<in> is_points rng s" by (simp add: is_points_def)
      with v show False by auto
    qed
    then have "fst e \<noteq> fst (rng v)" if "e \<in> set (btree s)" for e
      using that by (metis bt_get_None imageI)
    then show "set (is_iter (is_insert rng s v)) = insert v (set (is_iter s))"
      by (force simp: is_iter_def is_insert_def bt_insert_def image_iff)
  qed
  moreover have ?ok
    using bt.invar_remove [OF bt] ivl_ok_remove [OF iv]
    by (simp add: is_remove_def is_ok_def bt_get_remove)
  moreover have ?rem
  proof (cases "bt_get (btree s) k")
    case None
    then have "bt_remove k (btree s) = btree s"
      by (auto simp: bt_remove_def bt_get_None filter_id_conv)
    moreover have "\<forall>u\<in>set (is_iter s). fst (rng u) \<noteq> k"
    proof
      fix u assume "u \<in> set (is_iter s)"
      then obtain j where j: "bt_get (btree s) j = Some u"
        by (auto simp: is_iter_def bt_get_eq [OF bt])
      with None ivl_okD(1) [OF iv j] show "fst (rng u) \<noteq> k" by auto
    qed
    ultimately show ?thesis using None by (simp add: is_remove_def)
  next
    case (Some u)
    from Some have "u \<in> set (is_iter s)" by (force simp: is_iter_def bt_get_eq [OF bt])
    with Some ivl_okD [OF iv Some] ivl_points_remove [OF iv Some] show ?thesis
      by (simp add: is_remove_def is_points_def bt_get_remove)
  qed
  ultimately show ?thesis by blast
qed

theorem interval_set_updates_witness:
  "is_ok id (is_insert id \<lparr>btree = [(2::nat, (2, 5)), (8, (8, 9))]\<rparr> (5, 7)) \<and>
   is_ok id (snd (is_remove \<lparr>btree = [(2::nat, (2::nat, 5::nat)), (8, (8, 9))]\<rparr> 8))"
proof -
  let ?s = "\<lparr>btree = [(2::nat, (2::nat, 5::nat)), (8, (8, 9))]\<rparr>"
  have ok: "is_ok id ?s"
    by (auto simp: is_ok_def bt_ok_def bt_get_def ivl_ok_def split: if_splits)
  moreover have "is_points id ?s \<inter> {5..<7} = {}"
    by (auto simp: is_points_def ivl_points_def bt_get_def split: if_splits)
  ultimately show ?thesis
    using interval_set_updates [OF ok, of "(5, 7)" 8] by simp
qed

lemma take_one_find_one:
  assumes "is_ok rng s"
  shows "fst (take_one rng s p) = find_one rng s p"
proof -
  have "fst e > p" if "peek_next (lower_bound_excluded (btree s) p) = Some e" for e
    using that by (cases "bt_after (btree s) p")
      (auto simp: lower_bound_excluded_def bt_after_def filter_eq_Cons_iff)
  moreover have "fst (rng (snd e)) = fst e"
    if "peek_next (lower_bound_excluded (btree s) p) = Some e" for e
  proof -
    from that have "e \<in> set (bt_after (btree s) p)"
      by (cases "bt_after (btree s) p") (auto simp: lower_bound_excluded_def)
    then have "e \<in> set (btree s)" by (simp add: bt_after_def)
    with assms ivl_list_of_ok [of "btree s" rng] show ?thesis by (simp add: is_ok_def ivl_list_def)
  qed
  ultimately have "peek_next (lower_bound_excluded (btree s) p) = Some (k, v) \<Longrightarrow> fst (rng v) > p" for k v
    by fastforce
  then show ?thesis
    by (fastforce simp: take_one_def find_one_def Let_def split: option.splits)
qed

end
