(* ===== verification/Id_Alloc.thy ===== *)
theory Id_Alloc
  imports Prelude
begin

text \<open>
  The id allocator, \<open>osxtd/libs/id-alloc/src/lib.rs\<close>, over a bit vector of the third-party crate
  \<open>bitvec\<close>. The crate is the parameter \<open>ops\<close>: a record of the operations the allocator calls.
  The locale \<open>bitvec\<close> states their documented behaviour, with the default bit order (bit \<open>i\<close> of
  the vector is bit \<open>i mod 8\<close> of byte \<open>i div 8\<close>); the locale \<open>id_allocator\<close> is the contract the
  clients of the allocator use, and every provider of \<open>bitvec\<close> gives it.

  Indexing and \<open>set\<close> out of bounds panic, and so does a failed \<open>debug_assert!\<close>.
\<close>

record 'b bitvec_ops =
  bv_with_capacity :: "nat \<Rightarrow> 'b"
  bv_from_slice :: "8 word list \<Rightarrow> 'b"
  bv_len :: "'b \<Rightarrow> nat"
  bv_get :: "'b \<Rightarrow> nat \<Rightarrow> bool"
  bv_set :: "'b \<Rightarrow> nat \<Rightarrow> bool \<Rightarrow> 'b"
  bv_resize :: "'b \<Rightarrow> nat \<Rightarrow> bool \<Rightarrow> 'b"
  bv_truncate :: "'b \<Rightarrow> nat \<Rightarrow> 'b"
  bv_as_raw_slice :: "'b \<Rightarrow> 8 word list"

definition bytes_bit :: "8 word list \<Rightarrow> nat \<Rightarrow> bool" where
  "bytes_bit bs i = bit (bs ! (i div 8)) (i mod 8)"

definition div_ceil :: "nat \<Rightarrow> nat \<Rightarrow> nat" where
  "div_ceil a b = a div b + (if a mod b = 0 then 0 else 1)"

locale bitvec =
  fixes ops :: "'b bitvec_ops"
  assumes with_capacity_len [simp]: "bv_len ops (bv_with_capacity ops c) = 0"
    and from_slice_len [simp]: "bv_len ops (bv_from_slice ops bs) = 8 * length bs"
    and from_slice_get: "i < 8 * length bs \<Longrightarrow> bv_get ops (bv_from_slice ops bs) i = bytes_bit bs i"
    and set_len [simp]: "bv_len ops (bv_set ops b i v) = bv_len ops b"
    and set_get: "i < bv_len ops b \<Longrightarrow> j < bv_len ops b \<Longrightarrow>
      bv_get ops (bv_set ops b i v) j = (if j = i then v else bv_get ops b j)"
    and resize_len [simp]: "bv_len ops (bv_resize ops b n v) = n"
    and resize_get: "i < n \<Longrightarrow>
      bv_get ops (bv_resize ops b n v) i = (if i < bv_len ops b then bv_get ops b i else v)"
    and truncate_len [simp]: "bv_len ops (bv_truncate ops b n) = min n (bv_len ops b)"
    and truncate_get: "i < min n (bv_len ops b) \<Longrightarrow>
      bv_get ops (bv_truncate ops b n) i = bv_get ops b i"
    and raw_len: "length (bv_as_raw_slice ops b) = div_ceil (bv_len ops b) 8"
    and raw_bit: "i < bv_len ops b \<Longrightarrow> bytes_bit (bv_as_raw_slice ops b) i = bv_get ops b i"

section \<open>The allocator\<close>

record 'b id_alloc =
  bitset :: 'b
  first_available_id :: nat

text \<open>\<open>(lo..bitset.len()).find(|&i| !bitset[i]).map_or(bitset.len(), |i| i)\<close>\<close>

definition next_available :: "'b bitvec_ops \<Rightarrow> 'b \<Rightarrow> nat \<Rightarrow> nat" where
  "next_available ops b lo =
     (case find (\<lambda>i. \<not> bv_get ops b i) [lo..<bv_len ops b] of
        None \<Rightarrow> bv_len ops b
      | Some i \<Rightarrow> i)"

definition with_capacity :: "'b bitvec_ops \<Rightarrow> nat \<Rightarrow> 'b id_alloc" where
  "with_capacity ops capacity =
     \<lparr>bitset = bv_resize ops (bv_with_capacity ops capacity) capacity False,
      first_available_id = 0\<rparr>"

definition from_bytes_with_capacity ::
  "'b bitvec_ops \<Rightarrow> 8 word list \<Rightarrow> nat \<Rightarrow> 'b id_alloc" where
  "from_bytes_with_capacity ops bytes capacity =
     (let b = (if capacity > length bytes * 8
               then bv_resize ops (bv_from_slice ops bytes) capacity False
               else bv_truncate ops (bv_from_slice ops (take (div_ceil capacity 8) bytes)) capacity)
      in \<lparr>bitset = b, first_available_id = next_available ops b 0\<rparr>)"

definition is_allocated :: "'b bitvec_ops \<Rightarrow> 'b id_alloc \<Rightarrow> nat \<Rightarrow> bool result" where
  "is_allocated ops a id' =
     (if id' < bv_len ops (bitset a) then Inr (bv_get ops (bitset a) id') else Inl Panic)"

definition set_bit_checked :: "'b bitvec_ops \<Rightarrow> 'b id_alloc \<Rightarrow> nat \<Rightarrow> bool \<Rightarrow> 'b id_alloc result" where
  "set_bit_checked ops a id' v =
     (if id' < bv_len ops (bitset a) then Inr (a\<lparr>bitset := bv_set ops (bitset a) id' v\<rparr>) else Inl Panic)"

definition id_alloc_alloc :: "'b bitvec_ops \<Rightarrow> 'b id_alloc \<Rightarrow> (nat option \<times> 'b id_alloc) result" where
  "id_alloc_alloc ops a =
     (if first_available_id a < bv_len ops (bitset a) then
        let id' = first_available_id a in
        rbind (set_bit_checked ops a id' True) (\<lambda>a1.
          Inr (Some id', a1\<lparr>first_available_id := next_available ops (bitset a1) (id' + 1)\<rparr>))
      else Inr (None, a))"

text \<open>The scan of \<open>alloc_consecutive\<close>, on the bounds of \<open>curr_range\<close>.\<close>

function scan_consecutive :: "'b bitvec_ops \<Rightarrow> 'b \<Rightarrow> nat \<Rightarrow> nat \<Rightarrow> nat \<Rightarrow> urange" where
  "scan_consecutive ops b n s e =
     (if e - s < n \<and> e < bv_len ops b then
        if \<not> bv_get ops b e then scan_consecutive ops b n s (e + 1)
        else scan_consecutive ops b n (e + 1) (e + 1)
      else (s, e))"
  by pat_completeness auto

termination scan_consecutive
  by (relation "measure (\<lambda>(ops, b, n, s, e). bv_len ops b - e)") auto

declare scan_consecutive.simps [simp del]

primrec set_all :: "'b bitvec_ops \<Rightarrow> nat list \<Rightarrow> 'b id_alloc \<Rightarrow> 'b id_alloc result" where
  "set_all ops [] a = Inr a"
| "set_all ops (id' # ids) a = rbind (set_bit_checked ops a id' True) (set_all ops ids)"

definition alloc_consecutive ::
  "'b bitvec_ops \<Rightarrow> 'b id_alloc \<Rightarrow> nat \<Rightarrow> (urange option \<times> 'b id_alloc) result" where
  "alloc_consecutive ops a n =
     (if n = 0 then Inr (None, a)
      else
        let (s, e) = scan_consecutive ops (bitset a) n
                       (first_available_id a) (first_available_id a + 1)
        in if e - s < n then Inr (None, a)
           else rbind (set_all ops [s..<e] a) (\<lambda>a1.
             rbind (is_allocated ops a1 (first_available_id a1)) (\<lambda>taken.
               Inr (Some (s, e),
                 if taken
                 then a1\<lparr>first_available_id := next_available ops (bitset a1) e\<rparr>
                 else a1))))"

primrec clear_all :: "'b bitvec_ops \<Rightarrow> nat list \<Rightarrow> 'b id_alloc \<Rightarrow> 'b id_alloc result" where
  "clear_all ops [] a = Inr a"
| "clear_all ops (id' # ids) a =
     rbind (is_allocated ops a id') (\<lambda>taken.
       rbind (rassert taken) (\<lambda>_.
         rbind (set_bit_checked ops a id' False) (clear_all ops ids)))"

definition free_consecutive :: "'b bitvec_ops \<Rightarrow> 'b id_alloc \<Rightarrow> urange \<Rightarrow> 'b id_alloc result" where
  "free_consecutive ops a r =
     (if range_is_empty r then Inr a
      else rbind (clear_all ops [fst r..<snd r] a) (\<lambda>a1.
        Inr (if fst r < first_available_id a1
             then a1\<lparr>first_available_id := fst r\<rparr> else a1)))"

definition id_alloc_free :: "'b bitvec_ops \<Rightarrow> 'b id_alloc \<Rightarrow> nat \<Rightarrow> 'b id_alloc result" where
  "id_alloc_free ops a id' =
     rbind (is_allocated ops a id') (\<lambda>taken.
       rbind (rassert taken) (\<lambda>_.
         rbind (set_bit_checked ops a id' False) (\<lambda>a1.
           Inr (if id' < first_available_id a1
                then a1\<lparr>first_available_id := id'\<rparr> else a1))))"

definition alloc_specific :: "'b bitvec_ops \<Rightarrow> 'b id_alloc \<Rightarrow> nat \<Rightarrow> (nat option \<times> 'b id_alloc) result" where
  "alloc_specific ops a id' =
     rbind (is_allocated ops a id') (\<lambda>taken.
       if taken then Inr (None, a)
       else rbind (set_bit_checked ops a id' True) (\<lambda>a1.
         Inr (Some id',
           if id' = first_available_id a1
           then a1\<lparr>first_available_id := next_available ops (bitset a1) (id' + 1)\<rparr>
           else a1)))"

definition as_bytes :: "'b bitvec_ops \<Rightarrow> 'b id_alloc \<Rightarrow> 8 word list" where
  "as_bytes ops a = bv_as_raw_slice ops (bitset a)"

section \<open>Allocated ids and the invariant\<close>

definition id_capacity :: "'b bitvec_ops \<Rightarrow> 'b id_alloc \<Rightarrow> nat" where
  "id_capacity ops a = bv_len ops (bitset a)"

definition allocated_ids :: "'b bitvec_ops \<Rightarrow> 'b id_alloc \<Rightarrow> nat set" where
  "allocated_ids ops a = {i. i < id_capacity ops a \<and> bv_get ops (bitset a) i}"

text \<open>\<open>first_available_id\<close> is the least id that is not allocated, or the capacity.\<close>

definition ida_ok :: "'b bitvec_ops \<Rightarrow> 'b id_alloc \<Rightarrow> bool" where
  "ida_ok ops a \<longleftrightarrow> first_available_id a \<le> id_capacity ops a \<and>
     {..<first_available_id a} \<subseteq> allocated_ids ops a \<and>
     first_available_id a \<notin> allocated_ids ops a"

section \<open>The contract of an id allocator\<close>

locale id_allocator =
  fixes alloc :: "'s \<Rightarrow> (nat option \<times> 's) result"
    and free :: "'s \<Rightarrow> nat \<Rightarrow> 's result"
    and ids :: "'s \<Rightarrow> nat set"
    and cap :: "'s \<Rightarrow> nat"
    and invar :: "'s \<Rightarrow> bool"
  assumes ids_bounded: "ids s \<subseteq> {..<cap s}"
    and alloc_full: "invar s \<Longrightarrow> ids s = {..<cap s} \<Longrightarrow> alloc s = Inr (None, s)"
    and alloc_least: "invar s \<Longrightarrow> ids s \<noteq> {..<cap s} \<Longrightarrow>
      \<exists>i s'. alloc s = Inr (Some i, s') \<and> invar s' \<and> cap s' = cap s \<and> i < cap s \<and> i \<notin> ids s \<and>
        {..<i} \<subseteq> ids s \<and> ids s' = insert i (ids s)"
    and free_allocated: "invar s \<Longrightarrow> i \<in> ids s \<Longrightarrow>
      \<exists>s'. free s i = Inr s' \<and> invar s' \<and> cap s' = cap s \<and> ids s' = ids s - {i}"
begin

lemma alloc_returns:
  assumes "invar s"
  obtains r s' where "alloc s = Inr (r, s')" "invar s'" "cap s' = cap s"
    "ids s' = ids s \<union> set_option r" "r = None \<longleftrightarrow> ids s = {..<cap s}"
    "\<And>i. r = Some i \<Longrightarrow> i < cap s \<and> i \<notin> ids s \<and> {..<i} \<subseteq> ids s"
proof (cases "ids s = {..<cap s}")
  case True
  with that [of None s] alloc_full assms show thesis by simp
next
  case False
  from alloc_least [OF assms False] that False show thesis by force
qed

lemma alloc_fresh:
  assumes "invar s" "alloc s = Inr (Some i, s')"
  shows "i \<notin> ids s" "i < cap s" "ids s' = insert i (ids s)" "invar s'" "cap s' = cap s"
  using alloc_returns [OF assms(1)] assms(2) by (metis (no_types, lifting) Inr_inject Un_insert_right
      boolean_algebra.disj_zero_right option.set(2) prod.inject)+

lemma alloc_free_restores:
  assumes "invar s" "alloc s = Inr (Some i, s')"
  shows "\<exists>s''. free s' i = Inr s'' \<and> ids s'' = ids s \<and> invar s''"
proof -
  note f = alloc_fresh [OF assms]
  from free_allocated [OF f(4), of i] f(1,3) show ?thesis by auto
qed

end

section \<open>Proofs over a bit vector\<close>

lemma next_available_bounds:
  assumes "lo \<le> bv_len ops b"
  shows "lo \<le> next_available ops b lo" "next_available ops b lo \<le> bv_len ops b"
    "lo \<le> i \<Longrightarrow> i < next_available ops b lo \<Longrightarrow> bv_get ops b i"
    "next_available ops b lo < bv_len ops b \<Longrightarrow> \<not> bv_get ops b (next_available ops b lo)"
  using assms unfolding next_available_def
  by (auto split: option.splits simp: find_upt_Some find_upt_None)

lemma allocated_ids_bounded: "allocated_ids ops a \<subseteq> {..<id_capacity ops a}"
  by (auto simp: allocated_ids_def)

lemma first_available_frame [simp]:
  "id_capacity ops (a\<lparr>first_available_id := x\<rparr>) = id_capacity ops a"
  "allocated_ids ops (a\<lparr>first_available_id := x\<rparr>) = allocated_ids ops a"
  by (simp_all add: id_capacity_def allocated_ids_def)

lemma is_allocated_eq:
  "i < id_capacity ops a \<Longrightarrow> is_allocated ops a i = Inr (i \<in> allocated_ids ops a)"
  by (simp add: is_allocated_def id_capacity_def allocated_ids_def)

lemma ida_ok_full:
  assumes "ida_ok ops a"
  shows "allocated_ids ops a = {..<id_capacity ops a} \<longleftrightarrow>
    first_available_id a = id_capacity ops a"
  using assms by (auto simp: ida_ok_def allocated_ids_def)

context bitvec
begin

lemma set_bit_ids:
  assumes "set_bit_checked ops a i v = Inr a'"
  shows "allocated_ids ops a' = (if v then insert i (allocated_ids ops a) else allocated_ids ops a - {i})"
    "id_capacity ops a' = id_capacity ops a" "first_available_id a' = first_available_id a"
    "i < id_capacity ops a"
  using assms
  by (auto simp: set_bit_checked_def allocated_ids_def id_capacity_def set_get split: if_splits)

lemma set_bit_ok: "i < id_capacity ops a \<Longrightarrow> \<exists>a'. set_bit_checked ops a i v = Inr a'"
  by (simp add: set_bit_checked_def id_capacity_def)

text \<open>Moving \<open>first_available_id\<close> forward over allocated ids restores the invariant.\<close>

lemma ida_ok_advance:
  assumes "{..<lo} \<subseteq> allocated_ids ops a" "lo \<le> id_capacity ops a"
  shows "ida_ok ops (a\<lparr>first_available_id := next_available ops (bitset a) lo\<rparr>)"
proof -
  note n = next_available_bounds [of lo ops "bitset a", folded id_capacity_def, OF assms(2)]
  have "i \<in> allocated_ids ops a" if "i < next_available ops (bitset a) lo" for i
    using that n(2,3) assms(1) by (cases "i < lo") (auto simp: allocated_ids_def)
  with n show ?thesis
    by (auto simp: ida_ok_def allocated_ids_def id_capacity_def)
qed

lemma alloc_ok:
  assumes ok: "ida_ok ops a" and room: "first_available_id a < id_capacity ops a"
  shows "\<exists>a'. id_alloc_alloc ops a = Inr (Some (first_available_id a), a') \<and> ida_ok ops a' \<and>
    id_capacity ops a' = id_capacity ops a \<and>
    allocated_ids ops a' = insert (first_available_id a) (allocated_ids ops a)"
proof -
  let ?i = "first_available_id a"
  from set_bit_ok [OF room] obtain a1 where a1: "set_bit_checked ops a ?i True = Inr a1" by blast
  note s = set_bit_ids [OF a1]
  have "{..<?i + 1} \<subseteq> allocated_ids ops a1"
    using ok s(1) by (auto simp: ida_ok_def less_Suc_eq)
  from ida_ok_advance [OF this] s(1,2) room a1 show ?thesis
    by (simp add: id_alloc_alloc_def Let_def flip: id_capacity_def)
qed

lemma alloc_specific_ok:
  assumes ok: "ida_ok ops a" and i: "i < id_capacity ops a"
  shows "\<exists>a'. alloc_specific ops a i =
      Inr (if i \<in> allocated_ids ops a then None else Some i, a') \<and> ida_ok ops a' \<and>
    id_capacity ops a' = id_capacity ops a \<and> allocated_ids ops a' = insert i (allocated_ids ops a)"
proof (cases "i \<in> allocated_ids ops a")
  case True
  with ok i show ?thesis
    by (auto simp: alloc_specific_def is_allocated_def id_capacity_def allocated_ids_def)
next
  case False
  from set_bit_ok [OF i] obtain a1 where a1: "set_bit_checked ops a i True = Inr a1" by blast
  note s = set_bit_ids [OF a1]
  let ?a = "if i = first_available_id a1
    then a1\<lparr>first_available_id := next_available ops (bitset a1) (i + 1)\<rparr> else a1"
  have "alloc_specific ops a i = Inr (Some i, ?a)"
    using i False a1 by (simp add: alloc_specific_def is_allocated_def id_capacity_def allocated_ids_def)
  moreover have "ida_ok ops ?a"
  proof (cases "i = first_available_id a1")
    case True
    with ok s have "{..<i + 1} \<subseteq> allocated_ids ops a1" by (auto simp: ida_ok_def less_Suc_eq)
    from ida_ok_advance [OF this] i s True show ?thesis by simp
  next
    case False
    with ok s show ?thesis by (auto simp: ida_ok_def)
  qed
  moreover have "id_capacity ops ?a = id_capacity ops a"
    "allocated_ids ops ?a = insert i (allocated_ids ops a)"
    using s by auto
  ultimately show ?thesis using False by auto
qed

lemma set_all_ids:
  assumes "set xs \<subseteq> {..<id_capacity ops a}"
  shows "\<exists>a'. set_all ops xs a = Inr a' \<and> id_capacity ops a' = id_capacity ops a \<and>
    first_available_id a' = first_available_id a \<and>
    allocated_ids ops a' = allocated_ids ops a \<union> set xs"
  using assms
proof (induction xs arbitrary: a)
  case (Cons i xs)
  then obtain a1 where a1: "set_bit_checked ops a i True = Inr a1" using set_bit_ok by force
  note s = set_bit_ids [OF a1]
  from Cons.IH [of a1] Cons.prems s a1 show ?case by auto
qed simp

lemma clear_all_ids:
  assumes "set xs \<subseteq> allocated_ids ops a" "distinct xs"
  shows "\<exists>a'. clear_all ops xs a = Inr a' \<and> id_capacity ops a' = id_capacity ops a \<and>
    first_available_id a' = first_available_id a \<and>
    allocated_ids ops a' = allocated_ids ops a - set xs"
  using assms
proof (induction xs arbitrary: a)
  case (Cons i xs)
  then have i: "i < id_capacity ops a" "bv_get ops (bitset a) i" by (auto simp: allocated_ids_def)
  from set_bit_ok [OF i(1)] obtain a1 where a1: "set_bit_checked ops a i False = Inr a1" by blast
  note s = set_bit_ids [OF a1]
  from Cons.prems s have "set xs \<subseteq> allocated_ids ops a1" by auto
  from Cons.IH [OF this] Cons.prems s a1 i show ?case
    by (auto simp: is_allocated_def id_capacity_def)
qed simp

lemma free_consecutive_ok:
  assumes ok: "ida_ok ops a" and r: "range_set r \<subseteq> allocated_ids ops a"
  shows "\<exists>a'. free_consecutive ops a r = Inr a' \<and> ida_ok ops a' \<and>
    id_capacity ops a' = id_capacity ops a \<and> allocated_ids ops a' = allocated_ids ops a - range_set r"
proof (cases "range_is_empty r")
  case True
  with ok show ?thesis by (auto simp: free_consecutive_def range_is_empty_def range_set_def)
next
  case False
  from clear_all_ids [of "[fst r..<snd r]" a] r obtain a1 where
    a1: "clear_all ops [fst r..<snd r] a = Inr a1" "id_capacity ops a1 = id_capacity ops a"
      "first_available_id a1 = first_available_id a"
      "allocated_ids ops a1 = allocated_ids ops a - range_set r"
    by (auto simp: range_set_def)
  let ?a = "if fst r < first_available_id a1 then a1\<lparr>first_available_id := fst r\<rparr> else a1"
  have "fst r \<in> range_set r" using False by (auto simp: range_set_def range_is_empty_def)
  with r allocated_ids_bounded [of ops a] have "fst r < id_capacity ops a" by auto
  with ok a1 \<open>fst r \<in> range_set r\<close> have "ida_ok ops ?a" by (auto simp: ida_ok_def range_set_def)
  with False a1 show ?thesis by (auto simp: free_consecutive_def)
qed

lemma free_ok:
  assumes ok: "ida_ok ops a" and i: "i \<in> allocated_ids ops a"
  shows "\<exists>a'. id_alloc_free ops a i = Inr a' \<and> ida_ok ops a' \<and>
    id_capacity ops a' = id_capacity ops a \<and> allocated_ids ops a' = allocated_ids ops a - {i}"
proof -
  from i have lt: "i < id_capacity ops a" "bv_get ops (bitset a) i" by (auto simp: allocated_ids_def)
  from set_bit_ok [OF lt(1)] obtain a1 where a1: "set_bit_checked ops a i False = Inr a1" by blast
  note s = set_bit_ids [OF a1]
  let ?a = "if i < first_available_id a1 then a1\<lparr>first_available_id := i\<rparr> else a1"
  have "id_alloc_free ops a i = Inr ?a"
    using lt a1 by (simp add: id_alloc_free_def is_allocated_def id_capacity_def)
  moreover have "ida_ok ops ?a"
    using ok s lt(1) by (auto simp: ida_ok_def)
  moreover have "id_capacity ops ?a = id_capacity ops a" "allocated_ids ops ?a = allocated_ids ops a - {i}"
    using s by auto
  ultimately show ?thesis by blast
qed

end

sublocale bitvec \<subseteq> ida: id_allocator "id_alloc_alloc ops" "id_alloc_free ops" "allocated_ids ops"
  "id_capacity ops" "ida_ok ops"
proof
  fix a assume ok: "ida_ok ops a"
  show "id_alloc_alloc ops a = Inr (None, a)" if "allocated_ids ops a = {..<id_capacity ops a}"
    using that ida_ok_full [OF ok] by (simp add: id_alloc_alloc_def id_capacity_def)
  show "\<exists>i s'. id_alloc_alloc ops a = Inr (Some i, s') \<and> ida_ok ops s' \<and>
      id_capacity ops s' = id_capacity ops a \<and> i < id_capacity ops a \<and> i \<notin> allocated_ids ops a \<and>
      {..<i} \<subseteq> allocated_ids ops a \<and> allocated_ids ops s' = insert i (allocated_ids ops a)"
    if "allocated_ids ops a \<noteq> {..<id_capacity ops a}"
  proof -
    from that ok have "first_available_id a < id_capacity ops a"
      by (auto simp: ida_ok_full ida_ok_def)
    with alloc_ok [OF ok this] ok show ?thesis by (auto simp: ida_ok_def)
  qed
qed (use allocated_ids_bounded free_ok in blast)+

context bitvec
begin

lemmas ida_laws = ida.alloc_full ida.alloc_least ida.alloc_free_restores

end

section \<open>Consecutive ids\<close>

definition free_run :: "'b bitvec_ops \<Rightarrow> 'b id_alloc \<Rightarrow> nat \<Rightarrow> nat \<Rightarrow> bool" where
  "free_run ops a n t \<longleftrightarrow> {t..<t + n} \<subseteq> {..<id_capacity ops a} - allocated_ids ops a"

text \<open>The scan keeps all bits of \<open>curr_range\<close> clear and never skips the start of a free run.\<close>

lemma scan_consecutive_first_fit:
  assumes "scan_consecutive ops b n s e = (s', e')" "0 < n"
    and "s \<le> e" "e \<le> bv_len ops b" "e \<le> s + n" "\<forall>i. s \<le> i \<and> i < e \<longrightarrow> \<not> bv_get ops b i"
  shows "s \<le> s'" "s' \<le> e'" "e' \<le> bv_len ops b" "e' \<le> s' + n"
    "\<forall>i. s' \<le> i \<and> i < e' \<longrightarrow> \<not> bv_get ops b i"
    "e' < s' + n \<Longrightarrow> e' = bv_len ops b"
    "\<forall>t. s \<le> t \<and> t < s' \<longrightarrow> (\<exists>i. t \<le> i \<and> i < t + n \<and> i < bv_len ops b \<and> bv_get ops b i)"
proof -
  have "s \<le> s' \<and> s' \<le> e' \<and> e' \<le> bv_len ops b \<and> e' \<le> s' + n \<and>
    (\<forall>i. s' \<le> i \<and> i < e' \<longrightarrow> \<not> bv_get ops b i) \<and> (e' < s' + n \<longrightarrow> e' = bv_len ops b) \<and>
    (\<forall>t. s \<le> t \<and> t < s' \<longrightarrow> (\<exists>i. t \<le> i \<and> i < t + n \<and> i < bv_len ops b \<and> bv_get ops b i))"
    using assms
  proof (induction ops b n s e rule: scan_consecutive.induct)
    case (1 ops b n s e)
    show ?case
    proof (cases "e - s < n \<and> e < bv_len ops b")
      case False
      with "1.prems" show ?thesis by (auto simp: scan_consecutive.simps)
    next
      case more: True
      show ?thesis
      proof (cases "bv_get ops b e")
        case False
        with more "1.prems"(1) have "scan_consecutive ops b n s (e + 1) = (s', e')"
          by (subst (asm) scan_consecutive.simps) simp
        note run = "1.IH"(1) [OF more False this "1.prems"(2)]
        have "\<forall>i. s \<le> i \<and> i < e + 1 \<longrightarrow> \<not> bv_get ops b i"
          using "1.prems"(6) False by (auto simp: less_Suc_eq)
        with "1.prems"(3,4,5) more show ?thesis by (intro run) auto
      next
        case True
        with more "1.prems"(1) have "scan_consecutive ops b n (e + 1) (e + 1) = (s', e')"
          by (subst (asm) scan_consecutive.simps) simp
        note run = "1.IH"(2) [OF more _ this "1.prems"(2)]
        have IH: "e + 1 \<le> s' \<and> s' \<le> e' \<and> e' \<le> bv_len ops b \<and> e' \<le> s' + n \<and>
          (\<forall>i. s' \<le> i \<and> i < e' \<longrightarrow> \<not> bv_get ops b i) \<and> (e' < s' + n \<longrightarrow> e' = bv_len ops b) \<and>
          (\<forall>t. e + 1 \<le> t \<and> t < s' \<longrightarrow> (\<exists>i. t \<le> i \<and> i < t + n \<and> i < bv_len ops b \<and> bv_get ops b i))"
          using True more by (intro run) auto
        have "\<exists>i. t \<le> i \<and> i < t + n \<and> i < bv_len ops b \<and> bv_get ops b i"
          if "s \<le> t" "t < s'" for t
        proof (cases "e + 1 \<le> t")
          case False
          with that more True "1.prems"(3) show ?thesis by (intro exI [of _ e]) auto
        qed (use IH that in blast)
        with IH "1.prems"(3) show ?thesis by auto
      qed
    qed
  qed
  then show "s \<le> s'" "s' \<le> e'" "e' \<le> bv_len ops b" "e' \<le> s' + n"
    "\<forall>i. s' \<le> i \<and> i < e' \<longrightarrow> \<not> bv_get ops b i" "e' < s' + n \<Longrightarrow> e' = bv_len ops b"
    "\<forall>t. s \<le> t \<and> t < s' \<longrightarrow> (\<exists>i. t \<le> i \<and> i < t + n \<and> i < bv_len ops b \<and> bv_get ops b i)"
    by blast+
qed

lemma not_free_run:
  assumes "i \<in> allocated_ids ops a \<or> i \<ge> id_capacity ops a" "t \<le> i" "i < t + n"
  shows "\<not> free_run ops a n t"
  using assms by (auto simp: free_run_def subset_iff intro!: exI [of _ i])

context bitvec
begin

lemma alloc_consecutive_full:
  assumes ok: "ida_ok ops a" and full: "first_available_id a = id_capacity ops a"
  shows "alloc_consecutive ops a n = (if n = 1 then Inl Panic else Inr (None, a))"
proof -
  let ?l = "id_capacity ops a"
  have "scan_consecutive ops (bitset a) m ?l (?l + 1) = (?l, ?l + 1)" for m
    by (subst scan_consecutive.simps) (simp add: id_capacity_def)
  with full show ?thesis
    by (simp add: alloc_consecutive_def set_bit_checked_def id_capacity_def)
qed

lemma alloc_consecutive_room:
  assumes ok: "ida_ok ops a" and room: "first_available_id a < id_capacity ops a" and n: "0 < n"
  shows "\<exists>res a'. alloc_consecutive ops a n = Inr (res, a') \<and> ida_ok ops a' \<and>
    id_capacity ops a' = id_capacity ops a \<and>
    (case res of
       None \<Rightarrow> a' = a \<and> (\<forall>t. \<not> free_run ops a n t)
     | Some (s, e) \<Rightarrow> e = s + n \<and> free_run ops a n s \<and> (\<forall>t < s. \<not> free_run ops a n t) \<and>
         allocated_ids ops a' = allocated_ids ops a \<union> {s..<e})"
proof -
  let ?f = "first_available_id a"
  obtain s e where scan: "scan_consecutive ops (bitset a) n ?f (?f + 1) = (s, e)" by fastforce
  from ok room have "\<forall>i. ?f \<le> i \<and> i < ?f + 1 \<longrightarrow> \<not> bv_get ops (bitset a) i"
    by (auto simp: ida_ok_def allocated_ids_def less_Suc_eq)
  note sc = scan_consecutive_first_fit [OF scan n _ _ _ this, folded id_capacity_def]
  from sc room n have s: "?f \<le> s" "s \<le> e" "e \<le> id_capacity ops a" "e \<le> s + n"
    "e < s + n \<Longrightarrow> e = id_capacity ops a" by simp_all
  have before: "\<not> free_run ops a n t" if "t < s" for t
  proof (cases "?f \<le> t")
    case True
    with sc(7) room n that obtain i where
      "t \<le> i" "i < t + n" "i < id_capacity ops a" "bv_get ops (bitset a) i" by auto
    then show ?thesis by (intro not_free_run [of i]) (simp_all add: allocated_ids_def)
  next
    case False
    with ok have "t \<in> allocated_ids ops a" by (auto simp: ida_ok_def)
    with n show ?thesis by (intro not_free_run [of t]) auto
  qed
  show ?thesis
  proof (cases "e - s < n")
    case True
    with s have e: "e = id_capacity ops a" by auto
    have "\<not> free_run ops a n t" for t
    proof (cases "t < s")
      case False
      with True e show ?thesis
        by (intro not_free_run [of "t + n - 1"]) (use n in auto)
    qed (rule before)
    moreover have "alloc_consecutive ops a n = Inr (None, a)"
      using scan True n by (simp add: alloc_consecutive_def)
    ultimately show ?thesis using ok by simp
  next
    case False
    with s have e: "e = s + n" by simp
    have free: "{s..<e} \<inter> allocated_ids ops a = {}" using sc(5) room n by (auto simp: allocated_ids_def)
    then have run: "free_run ops a n s" using e s(3) by (auto simp: free_run_def)
    from s(3) have "set [s..<e] \<subseteq> {..<id_capacity ops a}" by auto
    from set_all_ids [OF this] obtain a1 where
      a1: "set_all ops [s..<e] a = Inr a1" "id_capacity ops a1 = id_capacity ops a"
        "first_available_id a1 = ?f" "allocated_ids ops a1 = allocated_ids ops a \<union> {s..<e}" by auto
    let ?a = "if ?f \<in> allocated_ids ops a1
      then a1\<lparr>first_available_id := next_available ops (bitset a1) e\<rparr> else a1"
    have "alloc_consecutive ops a n = Inr (Some (s, e), ?a)"
      using scan False n a1(1,2,3) room by (simp add: alloc_consecutive_def is_allocated_eq)
    moreover have "ida_ok ops ?a"
    proof (cases "?f \<in> allocated_ids ops a1")
      case True
      with ok a1(4) s have "s = ?f" by (auto simp: ida_ok_def)
      with ok a1(4) have "{..<e} \<subseteq> allocated_ids ops a1" by (auto simp: ida_ok_def)
      from ida_ok_advance [OF this] True a1(2) s(3) show ?thesis by simp
    next
      case False
      with ok a1 show ?thesis by (auto simp: ida_ok_def)
    qed
    moreover have "id_capacity ops ?a = id_capacity ops a"
      "allocated_ids ops ?a = allocated_ids ops a \<union> {s..<e}" using a1 by simp_all
    ultimately show ?thesis using e run before by auto
  qed
qed

lemma div_ceil_8: "i < c \<Longrightarrow> i < 8 * div_ceil c 8" "c \<le> l * 8 \<Longrightarrow> div_ceil c 8 \<le> l"
  by (auto simp: div_ceil_def) presburger+

lemma from_bytes_ids:
  "id_capacity ops (from_bytes_with_capacity ops bs c) = c"
  "allocated_ids ops (from_bytes_with_capacity ops bs c) =
    {i. i < c \<and> i < 8 * length bs \<and> bytes_bit bs i}"
proof -
  have cap: "id_capacity ops (from_bytes_with_capacity ops bs c) = c"
    using div_ceil_8(2) [of c "length bs"] div_ceil_8(1) [of _ c]
    by (auto simp: from_bytes_with_capacity_def id_capacity_def Let_def min_def not_less
        intro: le_antisym leI)
  then show "id_capacity ops (from_bytes_with_capacity ops bs c) = c" .
  have "bv_get ops (bitset (from_bytes_with_capacity ops bs c)) i \<longleftrightarrow>
      i < 8 * length bs \<and> bytes_bit bs i" if "i < c" for i
  proof (cases "c > length bs * 8")
    case True
    with that show ?thesis by (auto simp: from_bytes_with_capacity_def Let_def resize_get from_slice_get)
  next
    case False
    then have le: "div_ceil c 8 \<le> length bs" using div_ceil_8(2) by simp
    with that div_ceil_8(1) [OF that] have "i < 8 * length (take (div_ceil c 8) bs)" by simp
    moreover from this le have "bytes_bit (take (div_ceil c 8) bs) i = bytes_bit bs i"
      by (simp add: bytes_bit_def less_mult_imp_div_less mult.commute)
    ultimately show ?thesis
      using False that by (simp add: from_bytes_with_capacity_def Let_def truncate_get from_slice_get)
  qed
  with cap show "allocated_ids ops (from_bytes_with_capacity ops bs c) =
      {i. i < c \<and> i < 8 * length bs \<and> bytes_bit bs i}"
    by (auto simp: allocated_ids_def)
qed

lemma from_bytes_ok: "ida_ok ops (from_bytes_with_capacity ops bs c)"
  using ida_ok_advance [of 0 "from_bytes_with_capacity ops bs c"]
  by (simp add: from_bytes_with_capacity_def Let_def id_capacity_def allocated_ids_def)

lemma as_bytes_bit: "i < id_capacity ops a \<Longrightarrow>
    i < 8 * length (as_bytes ops a) \<and> bytes_bit (as_bytes ops a) i = (i \<in> allocated_ids ops a)"
  by (simp add: as_bytes_def raw_len raw_bit allocated_ids_def id_capacity_def div_ceil_8)

lemma with_capacity_ok:
  "ida_ok ops (with_capacity ops c)" "id_capacity ops (with_capacity ops c) = c"
  "allocated_ids ops (with_capacity ops c) = {}"
  by (auto simp: with_capacity_def ida_ok_def id_capacity_def allocated_ids_def resize_get)

end

section \<open>A provider of the bit vector\<close>

text \<open>Lists of bits satisfy the laws of \<open>bitvec\<close>; the witnesses below run on them.\<close>

definition byte_of_bits :: "bool list \<Rightarrow> nat \<Rightarrow> 8 word" where
  "byte_of_bits b k =
     horner_sum of_bool 2 (map (\<lambda>j. 8 * k + j < length b \<and> b ! (8 * k + j)) [0..<8])"

definition list_bitvec :: "bool list bitvec_ops" where
  "list_bitvec = \<lparr>bv_with_capacity = \<lambda>_. [],
     bv_from_slice = \<lambda>bs. map (bytes_bit bs) [0..<8 * length bs],
     bv_len = length, bv_get = nth, bv_set = list_update,
     bv_resize = \<lambda>b n v. take n b @ replicate (n - length b) v,
     bv_truncate = \<lambda>b n. take n b,
     bv_as_raw_slice = \<lambda>b. map (byte_of_bits b) [0..<div_ceil (length b) 8]\<rparr>"

lemma byte_of_bits_bit:
  assumes "i < length b"
  shows "bit (byte_of_bits b (i div 8)) (i mod 8) = b ! i"
proof -
  have "i mod 8 < 8" "8 * (i div 8) + i mod 8 = i" by simp_all
  with assms show ?thesis
    by (simp add: byte_of_bits_def bit_horner_sum_bit_word_iff del: upt_rec_numeral)
qed

interpretation bvl: bitvec list_bitvec
proof
  fix b :: "bool list" and i
  assume "i < bv_len list_bitvec b"
  then have i: "i < length b" by (simp add: list_bitvec_def)
  then have "i div 8 < div_ceil (length b) 8"
    by (auto simp: div_ceil_def div_le_mono less_Suc_eq_le
        intro!: less_mult_imp_div_less)
  with byte_of_bits_bit [OF i]
  show "bytes_bit (bv_as_raw_slice list_bitvec b) i = bv_get list_bitvec b i"
    by (simp add: list_bitvec_def bytes_bit_def)
qed (auto simp: list_bitvec_def nth_append nth_list_update)

section \<open>Properties\<close>

text \<open>C28. \<open>alloc\<close> on a valid allocator never panics and hands out the least id that is not
  allocated; it returns \<open>None\<close>, changing nothing, exactly when every id below the capacity is
  allocated. Freeing the id again restores the set of allocated ids.\<close>

theorem id_alloc_alloc_correct:
  assumes "bitvec ops" and "ida_ok ops a"
  shows "\<exists>res a'. id_alloc_alloc ops a = Inr (res, a') \<and> ida_ok ops a' \<and>
    id_capacity ops a' = id_capacity ops a \<and>
    (case res of
       None \<Rightarrow> a' = a \<and> allocated_ids ops a = {..<id_capacity ops a}
     | Some i \<Rightarrow> i < id_capacity ops a \<and> i \<notin> allocated_ids ops a \<and> {..<i} \<subseteq> allocated_ids ops a \<and>
         allocated_ids ops a' = insert i (allocated_ids ops a) \<and>
         (\<exists>a''. id_alloc_free ops a' i = Inr a'' \<and> ida_ok ops a'' \<and>
            allocated_ids ops a'' = allocated_ids ops a))"
proof (cases "allocated_ids ops a = {..<id_capacity ops a}")
  case True
  with bitvec.ida_laws(1) [OF assms] assms(2) show ?thesis by simp
next
  case False
  from bitvec.ida_laws(2) [OF assms False] obtain i a' where
    a': "id_alloc_alloc ops a = Inr (Some i, a')" "ida_ok ops a'"
      "id_capacity ops a' = id_capacity ops a" "i < id_capacity ops a" "i \<notin> allocated_ids ops a"
      "{..<i} \<subseteq> allocated_ids ops a" "allocated_ids ops a' = insert i (allocated_ids ops a)"
    by blast
  with bitvec.ida_laws(3) [OF assms a'(1)] show ?thesis by auto
qed

theorem id_alloc_alloc_correct_witness:
  "ida_ok list_bitvec (with_capacity list_bitvec 2) \<and>
   (\<exists>res a'. id_alloc_alloc list_bitvec (with_capacity list_bitvec 2) = Inr (res, a') \<and>
      ida_ok list_bitvec a')"
  using id_alloc_alloc_correct [OF bvl.bitvec_axioms bvl.with_capacity_ok(1)] bvl.with_capacity_ok(1)
  by blast

text \<open>C29. \<open>alloc_consecutive\<close> is first fit: it allocates the lowest run of \<open>n\<close> ids of which none
  is allocated, and returns \<open>None\<close>, changing nothing, when there is no such run. The one
  exception is a request for a single id when all ids are allocated: it panics on the bit
  behind the end of the bitmap.\<close>

theorem alloc_consecutive_correct:
  assumes "bitvec ops" and ok: "ida_ok ops a" and n: "0 < n"
  shows "if n = 1 \<and> allocated_ids ops a = {..<id_capacity ops a}
    then alloc_consecutive ops a n = Inl Panic
    else (\<exists>res a'. alloc_consecutive ops a n = Inr (res, a') \<and> ida_ok ops a' \<and>
      (case res of
         None \<Rightarrow> a' = a \<and> (\<forall>t. \<not> free_run ops a n t)
       | Some (s, e) \<Rightarrow> e = s + n \<and> free_run ops a n s \<and> (\<forall>t < s. \<not> free_run ops a n t) \<and>
           allocated_ids ops a' = allocated_ids ops a \<union> {s..<e}))"
proof (cases "first_available_id a = id_capacity ops a")
  case True
  have "\<not> free_run ops a n t" for t
    using n True ok by (intro not_free_run [of t]) (auto simp: ida_ok_def)
  with bitvec.alloc_consecutive_full [OF assms(1) ok True, of n] ida_ok_full [OF ok] True ok show ?thesis
    by auto
next
  case False
  with ok have room: "first_available_id a < id_capacity ops a" by (auto simp: ida_ok_def)
  then have "\<not> (n = 1 \<and> allocated_ids ops a = {..<id_capacity ops a})"
    using ida_ok_full [OF ok] by simp
  with bitvec.alloc_consecutive_room [OF assms(1) ok room n] show ?thesis
    by (simp only: if_False) blast
qed

theorem alloc_consecutive_correct_witness:
  "ida_ok list_bitvec \<lparr>bitset = [True, True], first_available_id = 2\<rparr> \<and>
   alloc_consecutive list_bitvec \<lparr>bitset = [True, True], first_available_id = 2\<rparr> 1 = Inl Panic"
proof -
  let ?a = "\<lparr>bitset = [True, True], first_available_id = 2\<rparr>"
  have ok: "ida_ok list_bitvec ?a" and "allocated_ids list_bitvec ?a = {..<id_capacity list_bitvec ?a}"
    by (auto simp: ida_ok_def allocated_ids_def id_capacity_def list_bitvec_def less_Suc_eq
        numeral_2_eq_2)
  with alloc_consecutive_correct [OF bvl.bitvec_axioms ok, of 1] show ?thesis by simp
qed

text \<open>\<open>alloc_specific\<close> of an id below the capacity allocates it, reporting \<open>None\<close> if it was
  allocated already, and panics out of bounds; \<open>free_consecutive\<close> of allocated ids releases
  exactly those.\<close>

theorem alloc_specific_free_consecutive:
  assumes "bitvec ops" and ok: "ida_ok ops a"
  shows "(if i < id_capacity ops a
      then (\<exists>a'. alloc_specific ops a i =
          Inr (if i \<in> allocated_ids ops a then None else Some i, a') \<and> ida_ok ops a' \<and>
        allocated_ids ops a' = insert i (allocated_ids ops a))
      else alloc_specific ops a i = Inl Panic) \<and>
    (range_set r \<subseteq> allocated_ids ops a \<longrightarrow>
      (\<exists>a'. free_consecutive ops a r = Inr a' \<and> ida_ok ops a' \<and>
        allocated_ids ops a' = allocated_ids ops a - range_set r))"
proof (intro conjI impI)
  show "if i < id_capacity ops a
      then (\<exists>a'. alloc_specific ops a i =
          Inr (if i \<in> allocated_ids ops a then None else Some i, a') \<and> ida_ok ops a' \<and>
        allocated_ids ops a' = insert i (allocated_ids ops a))
      else alloc_specific ops a i = Inl Panic"
    using bitvec.alloc_specific_ok [OF assms, of i]
    by (auto simp: alloc_specific_def is_allocated_def id_capacity_def)
qed (use bitvec.free_consecutive_ok [OF assms] in blast)

theorem alloc_specific_free_consecutive_witness:
  "\<exists>a'. free_consecutive list_bitvec \<lparr>bitset = [True, True, False], first_available_id = 2\<rparr> (0, 2) =
     Inr a' \<and> ida_ok list_bitvec a' \<and> allocated_ids list_bitvec a' = {}"
proof -
  let ?a = "\<lparr>bitset = [True, True, False], first_available_id = 2\<rparr>"
  have ok: "ida_ok list_bitvec ?a" and ids: "allocated_ids list_bitvec ?a = {0..<2}"
    by (auto simp: ida_ok_def allocated_ids_def id_capacity_def list_bitvec_def less_Suc_eq
        numeral_2_eq_2)
  from alloc_specific_free_consecutive [OF bvl.bitvec_axioms ok, of 0 "(0, 2)"] ids show ?thesis
    by simp
qed

text \<open>Writing an allocator out with \<open>as_bytes\<close> and reading it back with
  \<open>from_bytes_with_capacity\<close> gives a valid allocator with the same capacity, the same allocated
  ids and the same \<open>first_available_id\<close>.\<close>

theorem id_alloc_bytes_roundtrip:
  assumes "bitvec ops" and ok: "ida_ok ops a"
  defines "a' \<equiv> from_bytes_with_capacity ops (as_bytes ops a) (id_capacity ops a)"
  shows "ida_ok ops a' \<and> id_capacity ops a' = id_capacity ops a \<and>
    allocated_ids ops a' = allocated_ids ops a \<and> first_available_id a' = first_available_id a"
proof -
  have ok': "ida_ok ops a'" unfolding a'_def by (rule bitvec.from_bytes_ok [OF assms(1)])
  have ids: "id_capacity ops a' = id_capacity ops a" "allocated_ids ops a' = allocated_ids ops a"
    unfolding a'_def bitvec.from_bytes_ids [OF assms(1)]
    using bitvec.as_bytes_bit [OF assms(1)] allocated_ids_bounded [of ops a] by blast+
  from ok ok' ids have "first_available_id a' = first_available_id a"
    by (metis ida_ok_def lessThan_iff linorder_neqE_nat subsetD)
  with ok' ids show ?thesis by simp
qed

theorem id_alloc_bytes_roundtrip_witness:
  "allocated_ids list_bitvec
     (from_bytes_with_capacity list_bitvec (as_bytes list_bitvec (with_capacity list_bitvec 11))
       (id_capacity list_bitvec (with_capacity list_bitvec 11))) = {}"
  using id_alloc_bytes_roundtrip [OF bvl.bitvec_axioms bvl.with_capacity_ok(1), of 11]
  by (simp add: bvl.with_capacity_ok(3))

end
