(* ===== verification/Memory_Region.thy ===== *)
theory Memory_Region
  imports Align
begin

text \<open>
  The memory map of the boot phase, \<open>osxtd/src/boot/memory_region.rs\<close>: regions with a type, a
  fixed-size array of them, and \<open>into_non_overlapping\<close>, which turns the overlapping regions of
  the boot loader into a tiling of the physical address space in which every address has the
  most restrictive type of the (page-aligned) regions that contain it.
\<close>

datatype memory_region_type =
    BadMemory | Unknown | NonVolatileSleep | Reserved | Kernel | Module | Framebuffer
  | Reclaimable | Usable

fun discriminant :: "memory_region_type \<Rightarrow> nat" where
  "discriminant BadMemory = 0"
| "discriminant Unknown = 1"
| "discriminant NonVolatileSleep = 2"
| "discriminant Reserved = 3"
| "discriminant Kernel = 4"
| "discriminant Module = 5"
| "discriminant Framebuffer = 6"
| "discriminant Reclaimable = 7"
| "discriminant Usable = 8"

lemma discriminant_inj: "discriminant s = discriminant t \<Longrightarrow> s = t"
  by (cases s; cases t; simp)

instantiation memory_region_type :: linorder
begin

definition less_eq_memory_region_type :: "memory_region_type \<Rightarrow> memory_region_type \<Rightarrow> bool" where
  "s \<le> t \<longleftrightarrow> discriminant s \<le> discriminant t"

definition less_memory_region_type :: "memory_region_type \<Rightarrow> memory_region_type \<Rightarrow> bool" where
  "s < t \<longleftrightarrow> discriminant s < discriminant t"

instance
  by standard (auto simp: less_eq_memory_region_type_def less_memory_region_type_def
      intro: discriminant_inj)

end

record memory_region =
  base :: nat
  len :: nat
  region_typ :: memory_region_type

section \<open>Regions\<close>

definition region_new :: "nat \<Rightarrow> nat \<Rightarrow> memory_region_type \<Rightarrow> memory_region" where
  "region_new b l t = \<lparr>base = b, len = l, region_typ = t\<rparr>"

definition region_bad :: memory_region where
  "region_bad = \<lparr>base = 0, len = 0, region_typ = BadMemory\<rparr>"

text \<open>\<open>framebuffer\<close> takes the address, width, height and bits per pixel of the boot loader's
  argument; \<open>module\<close> takes the address and length of the slice and the bounds of the linear
  mapping, which depend on the architecture.\<close>

definition region_framebuffer :: "nat \<Rightarrow> nat \<Rightarrow> nat \<Rightarrow> nat \<Rightarrow> memory_region result" where
  "region_framebuffer address width height bpp =
     rbind (umul width height) (\<lambda>pixels. rbind (umul pixels bpp) (\<lambda>bits.
       Inr \<lparr>base = address, len = bits div 8 + (if bits mod 8 = 0 then 0 else 1),
            region_typ = Framebuffer\<rparr>))"

definition region_module :: "urange \<Rightarrow> nat \<Rightarrow> nat \<Rightarrow> memory_region result" where
  "region_module linear_mapping vaddr bytes_len =
     rbind (rassert (fst linear_mapping \<le> vaddr \<and> vaddr < snd linear_mapping)) (\<lambda>_.
       Inr \<lparr>base = vaddr - fst linear_mapping, len = bytes_len, region_typ = Reclaimable\<rparr>)"

definition region_end :: "memory_region \<Rightarrow> nat result" where
  "region_end r = uadd (base r) (len r)"

definition region_is_empty :: "memory_region \<Rightarrow> bool" where
  "region_is_empty r \<longleftrightarrow> len r = 0"

definition as_aligned :: "memory_region \<Rightarrow> memory_region result" where
  "as_aligned r =
     rbind
       (case region_typ r of
          Usable \<Rightarrow>
            rbind (nat_align_up (base r) PAGE_SIZE) (\<lambda>b.
              rbind (region_end r) (\<lambda>e. rbind (nat_align_down e PAGE_SIZE) (\<lambda>e'. Inr (b, e'))))
        | _ \<Rightarrow>
            rbind (nat_align_down (base r) PAGE_SIZE) (\<lambda>b.
              rbind (region_end r) (\<lambda>e. rbind (nat_align_up e PAGE_SIZE) (\<lambda>e'. Inr (b, e')))))
       (\<lambda>(b, e). rbind (usub e b) (\<lambda>l. Inr \<lparr>base = b, len = l, region_typ = region_typ r\<rparr>))"

section \<open>Arrays of regions\<close>

record memory_region_array =
  regions :: "memory_region list"
  region_count :: nat

definition array_new :: "nat \<Rightarrow> memory_region_array" where
  "array_new LEN = \<lparr>regions = replicate LEN region_bad, region_count = 0\<rparr>"

definition array_deref :: "memory_region_array \<Rightarrow> memory_region list" where
  "array_deref a = take (region_count a) (regions a)"

definition array_push :: "memory_region_array \<Rightarrow> memory_region \<Rightarrow> string + memory_region_array" where
  "array_push a r =
     (if region_count a < length (regions a)
      then Inr (a\<lparr>regions := (regions a)[region_count a := r], region_count := region_count a + 1\<rparr>)
      else Inl ''MemoryRegionArray is full'')"

text \<open>\<open>(region.base()..region.end()).contains(&p)\<close>; the regions are aligned ones by now, whose
  \<open>end()\<close> is the end computed by \<open>as_aligned\<close> and does not overflow.\<close>

definition region_contains :: "nat \<Rightarrow> memory_region \<Rightarrow> bool" where
  "region_contains p r \<longleftrightarrow> base r \<le> p \<and> p < base r + len r"

definition restrictive_type :: "memory_region list \<Rightarrow> nat \<Rightarrow> memory_region_type" where
  "restrictive_type rs p =
     (case iter_min (map region_typ (filter (region_contains p) rs)) of
        None \<Rightarrow> Unknown
      | Some t \<Rightarrow> t)"

definition right_boundary :: "memory_region list \<Rightarrow> nat \<Rightarrow> nat option" where
  "right_boundary rs p =
     iter_min (List.map_filter
       (\<lambda>r. if base r > p then Some (base r)
            else if base r + len r > p then Some (base r + len r)
            else None) rs)"

lemma right_boundary_gt: "right_boundary rs p = Some right \<Longrightarrow> p < right"
  by (auto simp: right_boundary_def iter_min_Some map_filter_def split: if_splits)

text \<open>The \<open>while\<close> loop, on \<open>cur_right\<close> and the result so far.\<close>

function cover_loop ::
  "memory_region list \<Rightarrow> nat \<Rightarrow> nat \<Rightarrow> memory_region_array \<Rightarrow> memory_region_array result" where
  "cover_loop rs max_addr cur_right res =
     (if cur_right < max_addr then
        case right_boundary rs cur_right of
          None \<Rightarrow> Inl Panic
        | Some right \<Rightarrow>
            (case array_push res
                    (region_new cur_right (right - cur_right) (restrictive_type rs cur_right)) of
               Inl _ \<Rightarrow> Inl Panic
             | Inr res' \<Rightarrow> cover_loop rs max_addr right res')
      else Inr res)"
  by pat_completeness auto

termination cover_loop
  by (relation "measure (\<lambda>(rs, max_addr, cur_right, res). max_addr - cur_right)")
    (auto dest: right_boundary_gt)

declare cover_loop.simps [simp del]

text \<open>One iteration of the merge loop, in place on the array and \<open>merged_count\<close>.\<close>

definition merge_step :: "memory_region list \<times> nat \<Rightarrow> nat \<Rightarrow> memory_region list \<times> nat" where
  "merge_step st i =
     (let (regs, merged_count) = st; prev = regs ! (merged_count - 1) in
      if region_typ (regs ! i) = region_typ prev
      then (regs[merged_count - 1 := region_new (base prev) (len prev + len (regs ! i)) (region_typ prev)],
            merged_count)
      else (regs[merged_count := regs ! i], merged_count + 1))"

definition merge_loop :: "memory_region_array \<Rightarrow> memory_region_array" where
  "merge_loop a =
     (let (regs, merged_count) = fold (\<lambda>i st. merge_step st i) [1..<region_count a] (regions a, 1)
      in a\<lparr>regions := regs, region_count := merged_count\<rparr>)"

definition into_non_overlapping :: "memory_region_array \<Rightarrow> memory_region_array result" where
  "into_non_overlapping a =
     rbind (rmap region_end (array_deref a)) (\<lambda>ends.
     rbind (nat_align_down (case iter_max ends of None \<Rightarrow> 0 | Some e \<Rightarrow> e) PAGE_SIZE) (\<lambda>max_addr.
     rbind (rmap as_aligned (regions a)) (\<lambda>aligned.
     rbind (cover_loop (take (region_count a) aligned) max_addr 0
              (array_new (length (regions a)))) (\<lambda>res.
       Inr (merge_loop res)))))"

section \<open>Alignment of regions\<close>

text \<open>A region that the boot loader may pass: it ends at least a page below the end of the
  address space, and a usable one contains a page boundary.\<close>

definition region_ok :: "memory_region \<Rightarrow> bool" where
  "region_ok r \<longleftrightarrow> base r + len r + PAGE_SIZE \<le> 2 ^ 64 \<and>
     (region_typ r = Usable \<longrightarrow>
        (base r + (PAGE_SIZE - 1)) div PAGE_SIZE \<le> (base r + len r) div PAGE_SIZE)"

definition aligned_region :: "memory_region \<Rightarrow> memory_region" where
  "aligned_region r =
     (let up = (\<lambda>x. (x + (PAGE_SIZE - 1)) div PAGE_SIZE * PAGE_SIZE);
          down = (\<lambda>x. x div PAGE_SIZE * PAGE_SIZE);
          b = (if region_typ r = Usable then up (base r) else down (base r));
          e = (if region_typ r = Usable then down (base r + len r) else up (base r + len r))
      in \<lparr>base = b, len = e - b, region_typ = region_typ r\<rparr>)"

lemma as_aligned_ok:
  assumes "region_ok r"
  shows "as_aligned r = Inr (aligned_region r)"
proof -
  have fits: "base r + len r < 2 ^ 64" "base r < 2 ^ 64"
    "base r + (PAGE_SIZE - 1) < 2 ^ 64" "base r + len r + (PAGE_SIZE - 1) < 2 ^ 64"
    using assms by (auto simp: region_ok_def PAGE_SIZE_def)
  note al = nat_align_up_page [OF fits(1)] nat_align_up_page [OF fits(2)]
    nat_align_down_page [OF fits(1)] nat_align_down_page [OF fits(2)]
  show ?thesis
  proof (cases "region_typ r = Usable")
    case True
    with assms have "(base r + (PAGE_SIZE - 1)) div PAGE_SIZE * PAGE_SIZE
        \<le> (base r + len r) div PAGE_SIZE * PAGE_SIZE"
      by (intro mult_le_mono1) (simp add: region_ok_def)
    with True fits al show ?thesis
      by (simp add: as_aligned_def region_end_def aligned_region_def Let_def)
  next
    case False
    have "base r div PAGE_SIZE * PAGE_SIZE
        \<le> (base r + len r + (PAGE_SIZE - 1)) div PAGE_SIZE * PAGE_SIZE"
      by (intro mult_le_mono1 div_le_mono) simp
    with False fits al show ?thesis
      by (cases "region_typ r") (simp_all add: as_aligned_def region_end_def aligned_region_def Let_def)
  qed
qed

lemma aligned_region_typ [simp]: "region_typ (aligned_region r) = region_typ r"
  by (simp add: aligned_region_def Let_def)

lemma aligned_region_bounds:
  assumes "region_ok r"
  shows "PAGE_SIZE dvd base (aligned_region r)"
    "PAGE_SIZE dvd base (aligned_region r) + len (aligned_region r)"
    "(base r + len r) div PAGE_SIZE * PAGE_SIZE \<le> base (aligned_region r) + len (aligned_region r)"
proof -
  have "base r div PAGE_SIZE * PAGE_SIZE
      \<le> (base r + len r + (PAGE_SIZE - 1)) div PAGE_SIZE * PAGE_SIZE"
    by (intro mult_le_mono1 div_le_mono) simp
  moreover have "(base r + len r) div PAGE_SIZE * PAGE_SIZE
      \<le> (base r + len r + (PAGE_SIZE - 1)) div PAGE_SIZE * PAGE_SIZE"
    by (intro mult_le_mono1 div_le_mono) simp
  moreover have "region_typ r = Usable \<Longrightarrow> (base r + (PAGE_SIZE - 1)) div PAGE_SIZE * PAGE_SIZE
      \<le> (base r + len r) div PAGE_SIZE * PAGE_SIZE"
    using assms by (intro mult_le_mono1) (simp add: region_ok_def)
  ultimately show "PAGE_SIZE dvd base (aligned_region r)"
    "PAGE_SIZE dvd base (aligned_region r) + len (aligned_region r)"
    "(base r + len r) div PAGE_SIZE * PAGE_SIZE \<le> base (aligned_region r) + len (aligned_region r)"
    by (auto simp: aligned_region_def Let_def)
qed

section \<open>The covering loop\<close>

text \<open>\<open>tiles lo rs hi\<close>: the regions of \<open>rs\<close> are not empty and follow each other from \<open>lo\<close> to
  \<open>hi\<close> without a gap.\<close>

fun tiles :: "nat \<Rightarrow> memory_region list \<Rightarrow> nat \<Rightarrow> bool" where
  "tiles lo [] hi \<longleftrightarrow> lo = hi"
| "tiles lo (r # rs) hi \<longleftrightarrow> base r = lo \<and> 0 < len r \<and> tiles (lo + len r) rs hi"

lemma tiles_snoc: "tiles lo (rs @ [r]) hi \<longleftrightarrow>
    tiles lo rs (base r) \<and> 0 < len r \<and> hi = base r + len r"
  by (induction rs arbitrary: lo) auto

definition types_exact :: "memory_region list \<Rightarrow> memory_region list \<Rightarrow> bool" where
  "types_exact rs out \<longleftrightarrow>
     (\<forall>r\<in>set out. \<forall>p. region_contains p r \<longrightarrow> region_typ r = restrictive_type rs p)"

definition boundaries :: "memory_region list \<Rightarrow> nat set" where
  "boundaries rs = base ` set rs \<union> (\<lambda>r. base r + len r) ` set rs"

lemma right_boundary_Some:
  assumes "right_boundary rs p = Some right"
  shows "right \<in> boundaries rs"
    "r \<in> set rs \<Longrightarrow> base r > p \<Longrightarrow> right \<le> base r"
    "r \<in> set rs \<Longrightarrow> base r \<le> p \<Longrightarrow> base r + len r > p \<Longrightarrow> right \<le> base r + len r"
proof -
  show "right \<in> boundaries rs"
    using assms by (auto simp: right_boundary_def iter_min_Some map_filter_def boundaries_def
        split: if_splits)
  show "right \<le> base r" if "r \<in> set rs" "base r > p"
    using assms that by (auto simp: right_boundary_def iter_min_Some map_filter_def)
  show "right \<le> base r + len r" if "r \<in> set rs" "base r \<le> p" "base r + len r > p"
    using assms that unfolding right_boundary_def iter_min_Some map_filter_def
    by (auto dest!: bspec [where x = "base r + len r"] simp: image_iff intro!: bexI [of _ r])
qed

lemma right_boundary_exists:
  assumes "r \<in> set rs" "p < base r + len r"
  obtains right where "right_boundary rs p = Some right"
proof (cases "right_boundary rs p")
  case None
  with assms show thesis
    by (auto simp: right_boundary_def map_filter_def filter_empty_conv split: if_splits)
qed (use that in blast)

text \<open>No boundary lies strictly between \<open>p\<close> and the next one, so the type is constant there.\<close>

lemma restrictive_type_constant:
  assumes right: "right_boundary rs p = Some right" and q: "p \<le> q" "q < right"
  shows "restrictive_type rs q = restrictive_type rs p"
proof -
  have "region_contains q r \<longleftrightarrow> region_contains p r" if "r \<in> set rs" for r
    using right_boundary_Some(2,3) [OF right that] q by (fastforce simp: region_contains_def)
  then have "filter (region_contains q) rs = filter (region_contains p) rs"
    by (intro filter_cong) auto
  then show ?thesis by (simp add: restrictive_type_def)
qed

lemma array_push_ok:
  assumes "region_count a < length (regions a)"
  shows "\<exists>a'. array_push a r = Inr a' \<and> array_deref a' = array_deref a @ [r] \<and>
    length (regions a') = length (regions a) \<and> region_count a' = region_count a + 1"
  using assms by (simp add: array_push_def array_deref_def take_Suc_conv_app_nth)

lemma types_exact_snoc:
  "types_exact rs (out @ [r]) \<longleftrightarrow> types_exact rs out \<and>
    (\<forall>p. region_contains p r \<longrightarrow> region_typ r = restrictive_type rs p)"
  by (auto simp: types_exact_def)

lemma cover_loop_correct:
  assumes "tiles 0 (array_deref res) cur" "types_exact rs (array_deref res)"
    and "\<exists>r\<in>set rs. max_addr \<le> base r + len r"
    and "region_count res + card {b \<in> boundaries rs. cur < b} \<le> length (regions res)"
    and "cur = 0 \<or> cur \<in> boundaries rs"
  shows "\<exists>res' hi. cover_loop rs max_addr cur res = Inr res' \<and> tiles 0 (array_deref res') hi \<and>
    max_addr \<le> hi \<and> (hi = 0 \<or> hi \<in> boundaries rs) \<and> types_exact rs (array_deref res') \<and>
    (\<forall>r\<in>set (array_deref res'). r \<in> set (array_deref res) \<or>
      (base r = 0 \<or> base r \<in> boundaries rs) \<and> base r + len r \<in> boundaries rs) \<and>
    length (regions res') = length (regions res) \<and> region_count res' \<le> length (regions res')"
  using assms
proof (induction rs max_addr cur res rule: cover_loop.induct)
  case (1 rs max_addr cur res)
  show ?case
  proof (cases "cur < max_addr")
    case False
    with "1.prems" show ?thesis
      by (subst cover_loop.simps) (auto intro!: exI [of _ cur])
  next
    case True
    with "1.prems"(3) obtain r where "r \<in> set rs" "cur < base r + len r"
      using less_le_trans by blast
    then obtain right where right: "right_boundary rs cur = Some right"
      by (rule right_boundary_exists)
    note gt = right_boundary_gt [OF right] and mem = right_boundary_Some(1) [OF right]
    let ?B = "\<lambda>c. {b \<in> boundaries rs. c < b}"
    have fin: "finite (?B c)" for c by (simp add: boundaries_def)
    have "?B right \<subset> ?B cur" using gt mem by auto
    from psubset_card_mono [OF fin this] have card: "card (?B right) < card (?B cur)" .
    let ?r = "region_new cur (right - cur) (restrictive_type rs cur)"
    from card "1.prems"(4) have "region_count res < length (regions res)" by simp
    from array_push_ok [OF this, of ?r] obtain res1 where
      res1: "array_push res ?r = Inr res1" "array_deref res1 = array_deref res @ [?r]"
        "length (regions res1) = length (regions res)" "region_count res1 = region_count res + 1"
      by blast
    have t: "tiles 0 (array_deref res1) right"
      using "1.prems"(1) gt res1(2) by (simp add: tiles_snoc region_new_def)
    have "region_typ ?r = restrictive_type rs p" if "region_contains p ?r" for p
      using that gt restrictive_type_constant [OF right, of p]
      by (simp add: region_new_def region_contains_def)
    with "1.prems"(2) have x: "types_exact rs (array_deref res1)"
      unfolding res1(2) types_exact_snoc by blast
    have c: "region_count res1 + card (?B right) \<le> length (regions res1)"
      using card "1.prems"(4) res1(3,4) by simp
    from "1.IH" [OF True right res1(1) t x "1.prems"(3) c disjI2 [OF mem]] obtain res' hi where
      IH: "cover_loop rs max_addr right res1 = Inr res'" "tiles 0 (array_deref res') hi"
        "max_addr \<le> hi" "hi = 0 \<or> hi \<in> boundaries rs" "types_exact rs (array_deref res')"
        "\<forall>r\<in>set (array_deref res'). r \<in> set (array_deref res1) \<or>
          (base r = 0 \<or> base r \<in> boundaries rs) \<and> base r + len r \<in> boundaries rs"
        "length (regions res') = length (regions res1)" "region_count res' \<le> length (regions res')"
      by blast
    have "cover_loop rs max_addr cur res = Inr res'"
      using True right res1(1) IH(1) by (subst cover_loop.simps) simp
    moreover have "\<forall>r\<in>set (array_deref res'). r \<in> set (array_deref res) \<or>
        (base r = 0 \<or> base r \<in> boundaries rs) \<and> base r + len r \<in> boundaries rs"
    proof
      fix r assume "r \<in> set (array_deref res')"
      with IH(6) res1(2) show "r \<in> set (array_deref res) \<or>
        (base r = 0 \<or> base r \<in> boundaries rs) \<and> base r + len r \<in> boundaries rs"
        using "1.prems"(5) mem gt by (auto simp: region_new_def)
    qed
    ultimately show ?thesis using IH res1(3) by auto
  qed
qed

section \<open>The merge loop\<close>

definition merge_into :: "memory_region list \<Rightarrow> memory_region \<Rightarrow> memory_region list" where
  "merge_into out r =
     (let prev = last out in
      if region_typ r = region_typ prev
      then butlast out @ [region_new (base prev) (len prev + len r) (region_typ prev)]
      else out @ [r])"

text \<open>The in-place loop keeps the merged prefix in the first \<open>merged_count\<close> slots and has not
  touched the slots it still has to read.\<close>

lemma merge_loop_inplace:
  assumes "1 \<le> n" "n \<le> length rs"
  shows "\<exists>regs m. fold (\<lambda>i st. merge_step st i) [1..<n] (rs, 1) = (regs, m) \<and> 1 \<le> m \<and> m \<le> n \<and>
    length regs = length rs \<and> drop n regs = drop n rs \<and>
    take m regs = foldl merge_into [rs ! 0] (drop 1 (take n rs))"
  using assms
proof (induction n rule: nat_induct_at_least)
  case base
  then show ?case by (cases rs) auto
next
  case (Suc n)
  then obtain regs m where IH: "fold (\<lambda>i st. merge_step st i) [1..<n] (rs, 1) = (regs, m)"
    "1 \<le> m" "m \<le> n" "length regs = length rs" "drop n regs = drop n rs"
    "take m regs = foldl merge_into [rs ! 0] (drop 1 (take n rs))" by auto
  from Suc IH(4) have n: "n < length rs" "n < length regs" by simp_all
  then have rn: "regs ! n = rs ! n"
    using IH(5) by (metis hd_drop_conv_nth)
  have prev: "last (take m regs) = regs ! (m - 1)" "butlast (take m regs) = take (m - 1) regs"
    using IH(2,3) n(2) by (cases m; simp add: take_Suc_conv_app_nth)+
  have dropn: "drop (Suc n) regs = drop (Suc n) rs"
    using IH(5) by (metis drop_Suc tl_drop)
  have "drop 1 (take (Suc n) rs) = drop 1 (take n rs) @ [rs ! n]"
    using n(1) Suc(1) by (simp add: take_Suc_conv_app_nth)
  then have target: "foldl merge_into [rs ! 0] (drop 1 (take (Suc n) rs)) =
      merge_into (take m regs) (rs ! n)" by (simp add: IH(6))
  have step: "fold (\<lambda>i st. merge_step st i) [1..<Suc n] (rs, 1) = merge_step (regs, m) n"
    using Suc(1) IH(1) by simp
  show ?case
  proof (cases "region_typ (rs ! n) = region_typ (regs ! (m - 1))")
    case True
    let ?r = "region_new (base (regs ! (m - 1))) (len (regs ! (m - 1)) + len (rs ! n))
      (region_typ (regs ! (m - 1)))"
    have "merge_step (regs, m) n = (regs[m - 1 := ?r], m)"
      using True rn by (simp add: merge_step_def Let_def)
    moreover have "take m (regs[m - 1 := ?r]) = take (m - 1) regs @ [?r]"
      using IH(2,3) n(2) by (cases m) (simp_all add: take_Suc_conv_app_nth)
    moreover have "merge_into (take m regs) (rs ! n) = take (m - 1) regs @ [?r]"
      using True prev by (simp add: merge_into_def Let_def)
    ultimately show ?thesis
      using step target IH(2,3,4) dropn by (simp add: drop_update_cancel)
  next
    case False
    have "merge_step (regs, m) n = (regs[m := rs ! n], m + 1)"
      using False rn by (simp add: merge_step_def Let_def)
    moreover have "take (m + 1) (regs[m := rs ! n]) = take m regs @ [rs ! n]"
      using IH(3) n(2) by (simp add: take_Suc_conv_app_nth)
    moreover have "merge_into (take m regs) (rs ! n) = take m regs @ [rs ! n]"
      using False prev by (simp add: merge_into_def Let_def)
    ultimately show ?thesis
      using step target IH(2,3,4) dropn by (simp add: drop_update_cancel)
  qed
qed

text \<open>What merging keeps: the tiling, the types, the alignment.\<close>

definition page_aligned :: "memory_region \<Rightarrow> bool" where
  "page_aligned r \<longleftrightarrow> PAGE_SIZE dvd base r \<and> PAGE_SIZE dvd base r + len r"

definition merged_ok :: "memory_region list \<Rightarrow> memory_region list \<Rightarrow> nat \<Rightarrow> bool" where
  "merged_ok rs out hi \<longleftrightarrow> out \<noteq> [] \<and> tiles 0 out hi \<and> types_exact rs out \<and>
     distinct_adj (map region_typ out) \<and> (\<forall>r\<in>set out. page_aligned r)"

lemma merge_into_ok:
  assumes out: "merged_ok rs out (base r)" and r: "0 < len r" "page_aligned r"
    "\<forall>p. region_contains p r \<longrightarrow> region_typ r = restrictive_type rs p"
  shows "merged_ok rs (merge_into out r) (base r + len r)"
proof -
  from out obtain out' prev where o: "out = out' @ [prev]"
    by (metis merged_ok_def rev_exhaust)
  from out have t: "tiles 0 out' (base prev)" "0 < len prev" "base r = base prev + len prev"
    and x: "types_exact rs out'"
      "\<forall>p. region_contains p prev \<longrightarrow> region_typ prev = restrictive_type rs p"
    and d: "distinct_adj (map region_typ (out' @ [prev]))"
    and pg: "\<forall>r\<in>set out'. page_aligned r" "page_aligned prev"
    by (auto simp: merged_ok_def o tiles_snoc types_exact_snoc)
  show ?thesis
  proof (cases "region_typ r = region_typ prev")
    case True
    let ?r = "region_new (base prev) (len prev + len r) (region_typ prev)"
    have "region_typ prev = restrictive_type rs p" if "region_contains p ?r" for p
      using that x(2) r(3) t(3) True
      by (cases "p < base r") (auto simp: region_contains_def region_new_def)
    then have "types_exact rs (out' @ [?r])"
      unfolding types_exact_snoc using x(1) by (simp add: region_new_def)
    moreover have "tiles 0 (out' @ [?r]) (base r + len r)"
      using t by (simp add: tiles_snoc region_new_def)
    moreover have "page_aligned ?r"
      using pg(2) r(2) t(3) by (simp add: page_aligned_def region_new_def add.assoc)
    moreover have "merge_into out r = out' @ [?r]" using True by (simp add: merge_into_def o Let_def)
    ultimately show ?thesis
      using d pg(1) by (auto simp: merged_ok_def region_new_def distinct_adj_append_iff)
  next
    case False
    then have "merge_into out r = out @ [r]" by (simp add: merge_into_def o Let_def)
    moreover from o have "last out = prev" by simp
    ultimately show ?thesis
      using False out r
      by (auto simp: merged_ok_def tiles_snoc types_exact_snoc distinct_adj_append_iff last_map)
  qed
qed

lemma merge_fold_ok:
  assumes "merged_ok rs out lo" "tiles lo todo hi" "types_exact rs todo"
    "\<forall>r\<in>set todo. page_aligned r"
  shows "merged_ok rs (foldl merge_into out todo) hi"
  using assms
proof (induction todo arbitrary: out lo)
  case (Cons r todo)
  from Cons.prems have "merged_ok rs out (base r)" "0 < len r" "page_aligned r"
    "\<forall>p. region_contains p r \<longrightarrow> region_typ r = restrictive_type rs p"
    by (auto simp: types_exact_def)
  from merge_into_ok [OF this] Cons.IH [of "merge_into out r" "base r + len r"] Cons.prems
  show ?case by (auto simp: types_exact_def)
qed simp

lemma merge_loop_ok:
  assumes out: "array_deref a = r # out" and le: "region_count a \<le> length (regions a)"
    and ok: "tiles 0 (r # out) hi" "types_exact rs (r # out)" "\<forall>r\<in>set (r # out). page_aligned r"
  shows "merged_ok rs (array_deref (merge_loop a)) hi"
proof -
  from out have n: "1 \<le> region_count a" "regions a ! 0 = r" "drop 1 (take (region_count a) (regions a)) = out"
    by (cases "region_count a"; cases "regions a"; auto simp: array_deref_def)+
  from merge_loop_inplace [OF n(1) le] n(2,3) obtain regs m where
    "fold (\<lambda>i st. merge_step st i) [1..<region_count a] (regions a, 1) = (regs, m)"
    "take m regs = foldl merge_into [r] out" by auto
  then have "array_deref (merge_loop a) = foldl merge_into [r] out"
    by (simp add: merge_loop_def array_deref_def)
  moreover have "merged_ok rs [r] (base r + len r)"
    using ok by (auto simp: merged_ok_def types_exact_def)
  ultimately show ?thesis
    using merge_fold_ok [of rs "[r]" "base r + len r" out hi] ok by (auto simp: types_exact_def)
qed

section \<open>The whole operation\<close>

definition array_ok :: "memory_region_array \<Rightarrow> bool" where
  "array_ok a \<longleftrightarrow> region_count a \<le> length (regions a) \<and> (\<forall>r\<in>set (regions a). region_ok r)"

definition max_end :: "memory_region_array \<Rightarrow> nat" where
  "max_end a = (case iter_max (map (\<lambda>r. base r + len r) (array_deref a)) of None \<Rightarrow> 0 | Some e \<Rightarrow> e)"

lemma region_end_ok: "region_ok r \<Longrightarrow> region_end r = Inr (base r + len r)"
  by (auto simp: region_ok_def region_end_def PAGE_SIZE_def)

lemma into_non_overlapping_eq:
  assumes ok: "array_ok a"
  shows "into_non_overlapping a =
    rbind (cover_loop (map aligned_region (array_deref a)) (max_end a div PAGE_SIZE * PAGE_SIZE) 0
      (array_new (length (regions a)))) (\<lambda>res. Inr (merge_loop res))"
proof -
  have sub: "set (array_deref a) \<subseteq> set (regions a)" by (auto simp: array_deref_def dest: in_set_takeD)
  with ok have ends: "rmap region_end (array_deref a) = Inr (map (\<lambda>r. base r + len r) (array_deref a))"
    by (intro rmap_ok) (auto simp: array_ok_def region_end_ok)
  have "max_end a < 2 ^ 64"
  proof (cases "iter_max (map (\<lambda>r. base r + len r) (array_deref a))")
    case (Some e)
    then obtain r where r: "r \<in> set (array_deref a)" "e = base r + len r"
      by (auto simp: iter_max_Some)
    with sub ok have "region_ok r" by (auto simp: array_ok_def)
    with Some r(2) show ?thesis by (simp add: max_end_def region_ok_def PAGE_SIZE_def)
  qed (simp add: max_end_def)
  then have down: "nat_align_down (max_end a) PAGE_SIZE = Inr (max_end a div PAGE_SIZE * PAGE_SIZE)"
    by (rule nat_align_down_page)
  have "rmap as_aligned (regions a) = Inr (map aligned_region (regions a))"
    using ok by (intro rmap_ok) (auto simp: array_ok_def as_aligned_ok)
  with ends down show ?thesis
    by (simp add: into_non_overlapping_def max_end_def array_deref_def take_map)
qed

lemma card_boundaries: "card (boundaries rs) \<le> 2 * length rs"
proof -
  have "card (boundaries rs) \<le> card (base ` set rs) + card ((\<lambda>r. base r + len r) ` set rs)"
    by (simp add: boundaries_def card_Un_le)
  also have "\<dots> \<le> card (set rs) + card (set rs)"
    by (intro add_mono card_image_le) simp_all
  finally show ?thesis using card_length [of rs] by simp
qed

lemma array_new_simps [simp]:
  "array_deref (array_new n) = []" "length (regions (array_new n)) = n" "region_count (array_new n) = 0"
  by (simp_all add: array_new_def array_deref_def)



text \<open>C30. \<open>as_aligned\<close> of a region that ends at least a page below the end of the address space
  shrinks a usable region to the pages it contains and grows any other to the pages it
  touches; a usable region that contains no page boundary makes the length underflow, which
  panics.\<close>

theorem as_aligned_exact:
  assumes "base r + len r + PAGE_SIZE \<le> 2 ^ 64"
  shows "as_aligned r =
    (if region_typ r = Usable \<and>
        (base r + len r) div PAGE_SIZE < (base r + (PAGE_SIZE - 1)) div PAGE_SIZE
     then Inl Panic else Inr (aligned_region r))"
proof (cases "region_typ r = Usable \<and>
    (base r + len r) div PAGE_SIZE < (base r + (PAGE_SIZE - 1)) div PAGE_SIZE")
  case True
  have fits: "base r + len r < 2 ^ 64" "base r < 2 ^ 64" "base r + (PAGE_SIZE - 1) < 2 ^ 64"
    using assms by (auto simp: PAGE_SIZE_def)
  from True have "(base r + len r) div PAGE_SIZE * PAGE_SIZE
      < (base r + (PAGE_SIZE - 1)) div PAGE_SIZE * PAGE_SIZE"
    by (intro mult_less_mono1) (auto simp: PAGE_SIZE_def)
  with True fits nat_align_up_page [OF fits(2)] nat_align_down_page [OF fits(1)] show ?thesis
    by (simp add: as_aligned_def region_end_def usub_def)
next
  case False
  then have "region_ok r" using assms by (auto simp: region_ok_def)
  with False show ?thesis by (simp add: as_aligned_ok)
qed

theorem as_aligned_exact_witness:
  "as_aligned \<lparr>base = 10, len = 20, region_typ = Usable\<rparr> = Inl Panic"
  using as_aligned_exact [of "\<lparr>base = 10, len = 20, region_typ = Usable\<rparr>"]
  by (simp add: PAGE_SIZE_def)

end
