(* ===== verification/Buddy_Chunk.thy ===== *)
theory Buddy_Chunk
  imports Align
begin

text \<open>
  Buddy chunks of the physical frame allocator, \<open>osxdk/deps/frame-allocator/src/chunk.rs\<close>. A chunk
  of order \<open>o\<close> is a run of \<open>2 ^ o\<close> frames aligned to its size. A free chunk owns the metadata
  slot of its head frame, which stores the order; \<open>frame_meta\<close> is the table of these slots.
  Orders are below 52, so \<open>(1 << order) * PAGE_SIZE\<close> does not overflow.
\<close>

definition size_of_order :: "nat \<Rightarrow> nat" where
  "size_of_order order = 2 ^ order * PAGE_SIZE"

text \<open>\<open>usize::next_power_of_two\<close>, \<open>trailing_zeros\<close> and \<open>leading_zeros\<close>.\<close>

fun trailing_zeros_pos :: "nat \<Rightarrow> nat" where
  "trailing_zeros_pos n = (if n = 0 \<or> odd n then 0 else 1 + trailing_zeros_pos (n div 2))"

declare trailing_zeros_pos.simps [simp del]

definition trailing_zeros :: "nat \<Rightarrow> nat" where
  "trailing_zeros n = (if n = 0 then 64 else trailing_zeros_pos n)"

fun bit_length :: "nat \<Rightarrow> nat" where
  "bit_length n = (if n = 0 then 0 else 1 + bit_length (n div 2))"

declare bit_length.simps [simp del]

definition leading_zeros :: "nat \<Rightarrow> nat" where
  "leading_zeros n = 64 - bit_length n"

definition next_power_of_two :: "nat \<Rightarrow> nat" where
  "next_power_of_two n = (if n \<le> 1 then 1 else 2 ^ bit_length (n - 1))"

definition greater_order_of :: "nat \<Rightarrow> nat" where
  "greater_order_of sz = trailing_zeros (next_power_of_two (sz div PAGE_SIZE))"

text \<open>\<open>usize::BITS - size.leading_zeros() - 1\<close> underflows for a size below one page.\<close>

definition lesser_order_of :: "nat \<Rightarrow> nat result" where
  "lesser_order_of sz =
     rbind (usub 64 (leading_zeros (sz div PAGE_SIZE))) (\<lambda>n. usub n 1)"

definition max_order_from :: "nat \<Rightarrow> nat result" where
  "max_order_from addr = usub (trailing_zeros addr) (trailing_zeros PAGE_SIZE)"

text \<open>\<open>split_to_chunks\<close> run to its end: the list the iterator yields.\<close>

function split_chunks :: "nat \<Rightarrow> nat \<Rightarrow> (nat \<times> nat) list result" where
  "split_chunks addr sz =
     (if sz = 0 then Inr []
      else rbind (max_order_from addr) (\<lambda>mo. rbind (lesser_order_of sz) (\<lambda>lo.
        let order = min mo lo; chunk_size = size_of_order order in
        rbind (usub sz chunk_size) (\<lambda>rest.
          rbind (split_chunks (addr + chunk_size) rest) (\<lambda>cs. Inr ((addr, order) # cs))))))"
  by pat_completeness auto

termination split_chunks
  by (relation "measure snd") (auto simp: usub_def size_of_order_def PAGE_SIZE_def split: if_splits)

declare split_chunks.simps [simp del]

definition split_to_chunks :: "nat \<Rightarrow> nat \<Rightarrow> (nat \<times> nat) list result" where
  "split_to_chunks addr sz =
     rbind (rassert (addr mod PAGE_SIZE = 0)) (\<lambda>_.
       rbind (rassert (sz mod PAGE_SIZE = 0)) (\<lambda>_. split_chunks addr sz))"

definition split_to_order :: "nat \<Rightarrow> nat \<Rightarrow> nat \<Rightarrow> nat list result" where
  "split_to_order addr order split_order =
     rbind (rassert (addr mod size_of_order order = 0)) (\<lambda>_.
       rbind (usub order split_order) (\<lambda>d.
         Inr (map (\<lambda>i. addr + size_of_order split_order * i) [0..<2 ^ d])))"

section \<open>Free chunks\<close>

text \<open>The state of a frame's metadata slot: unused, the head of a free chunk, or in use by
  somebody else. A \<open>FreeChunk\<close> is the address of its head frame.\<close>

datatype frame_state = Unused | FreeHead nat | InUse

type_synonym frame_meta = "nat \<Rightarrow> frame_state"

definition chunk_order :: "frame_meta \<Rightarrow> nat \<Rightarrow> nat" where
  "chunk_order m addr = (case m addr of FreeHead order \<Rightarrow> order | _ \<Rightarrow> 0)"

definition unique_from_unused :: "frame_meta \<Rightarrow> nat \<Rightarrow> nat \<Rightarrow> frame_meta result" where
  "unique_from_unused m addr order =
     (if m addr = Unused then Inr (m(addr := FreeHead order)) else Inl Panic)"

definition reset_as_unused :: "frame_meta \<Rightarrow> nat \<Rightarrow> frame_meta" where
  "reset_as_unused m addr = m(addr := Unused)"

definition from_unused :: "frame_meta \<Rightarrow> nat \<Rightarrow> nat \<Rightarrow> frame_meta result" where
  "from_unused m addr order =
     rbind (rassert (addr mod size_of_order order = 0)) (\<lambda>_.
       rbind (unique_from_unused m addr order) (\<lambda>m1.
         rbind (rassert (list_all (\<lambda>k. m1 (addr + k * PAGE_SIZE) = Unused) [1..<2 ^ order])) (\<lambda>_.
           Inr m1)))"

definition buddy :: "frame_meta \<Rightarrow> nat \<Rightarrow> nat" where
  "buddy m addr = addr XOR size_of_order (chunk_order m addr)"

definition split_free :: "frame_meta \<Rightarrow> nat \<Rightarrow> (nat \<times> nat \<times> frame_meta) result" where
  "split_free m addr =
     rbind (usub (chunk_order m addr) 1) (\<lambda>new_order.
       let right_child_addr = addr XOR size_of_order new_order in
       rbind (unique_from_unused (m(addr := FreeHead new_order)) right_child_addr new_order) (\<lambda>m1.
         Inr (addr, right_child_addr, m1)))"

definition merge_free :: "frame_meta \<Rightarrow> nat \<Rightarrow> nat \<Rightarrow> (nat \<times> frame_meta) result" where
  "merge_free m self_addr buddy_addr =
     (let (a, b) = (if self_addr > buddy_addr then (buddy_addr, self_addr) else (self_addr, buddy_addr));
          order = chunk_order m a;
          buddy_order = chunk_order m b;
          m1 = reset_as_unused m b
      in rbind (rassert (order = buddy_order)) (\<lambda>_.
           rbind (rassert (a XOR size_of_order order = b)) (\<lambda>_.
             Inr (a, m1(a := FreeHead (order + 1))))))"

section \<open>Orders\<close>

lemma size_of_order_pow: "size_of_order order = 2 ^ (order + 12)"
  by (simp add: size_of_order_def PAGE_SIZE_def power_add)

lemma size_of_order_pos [simp]: "0 < size_of_order order"
  by (simp add: size_of_order_pow)

lemma size_of_order_nonzero [simp]: "size_of_order order \<noteq> 0"
  by (simp add: size_of_order_pow)

lemma size_of_order_Suc: "size_of_order (Suc order) = 2 * size_of_order order"
  by (simp add: size_of_order_def)

lemma size_of_order_le: "i \<le> j \<Longrightarrow> size_of_order i \<le> size_of_order j"
  by (simp add: size_of_order_pow)

lemma size_of_order_dvd: "i \<le> j \<Longrightarrow> size_of_order i dvd size_of_order j"
  by (simp add: size_of_order_pow le_imp_power_dvd)

lemma page_dvd_size: "PAGE_SIZE dvd size_of_order order"
  by (simp add: size_of_order_def)

lemma bit_length_bounds: "0 < n \<Longrightarrow> 0 < bit_length n \<and> 2 ^ (bit_length n - 1) \<le> n \<and> n < 2 ^ bit_length n"
proof (induction n rule: bit_length.induct)
  case (1 n)
  show ?case
  proof (cases "n div 2 = 0")
    case True
    with "1.prems" have "n = 1" by auto
    then show ?thesis by (simp add: bit_length.simps)
  next
    case False
    with 1 have IH: "0 < bit_length (n div 2)" "2 ^ (bit_length (n div 2) - 1) \<le> n div 2"
      "n div 2 < 2 ^ bit_length (n div 2)" by auto
    then obtain l where l: "bit_length (n div 2) = Suc l" by (cases "bit_length (n div 2)") auto
    with "1.prems" have "bit_length n = Suc (Suc l)" by (simp add: bit_length.simps [of n])
    with IH l show ?thesis by auto
  qed
qed

lemma bit_length_unique:
  assumes "2 ^ k \<le> n" "n < 2 ^ Suc k"
  shows "bit_length n = Suc k"
proof -
  from assms(1) have n: "0 < n" by (cases n) auto
  note b = bit_length_bounds [OF n]
  from b assms(2) have "2 ^ (bit_length n - 1) < (2::nat) ^ Suc k" by linarith
  then have "bit_length n - 1 < Suc k" by (metis one_less_numeral_iff power_strict_increasing_iff semiring_norm(76))
  moreover from b assms(1) have "2 ^ k < (2::nat) ^ bit_length n" by linarith
  then have "k < bit_length n" by (metis one_less_numeral_iff power_strict_increasing_iff semiring_norm(76))
  ultimately show ?thesis using b by linarith
qed

lemma bit_length_le64: "n < 2 ^ 64 \<Longrightarrow> bit_length n \<le> 64"
proof (rule ccontr)
  assume n: "n < 2 ^ 64" "\<not> bit_length n \<le> 64"
  then have "0 < n" by (cases "n = 0") (auto simp: bit_length.simps)
  note b = bit_length_bounds [OF this]
  have "(2::nat) ^ 64 \<le> 2 ^ (bit_length n - 1)" using n(2) by (intro power_increasing) auto
  with n(1) b show False by linarith
qed

text \<open>\<open>lesser_order_of\<close> is the order of the largest chunk that fits into the size.\<close>

lemma lesser_order_of_spec:
  assumes "sz < 2 ^ 64" "PAGE_SIZE \<le> sz"
  shows "\<exists>lo. lesser_order_of sz = Inr lo \<and> size_of_order lo \<le> sz \<and> sz < size_of_order (lo + 1)"
proof -
  let ?n = "sz div PAGE_SIZE"
  have n: "0 < ?n" using assms(2) by (simp add: div_greater_zero_iff PAGE_SIZE_def)
  have "?n < 2 ^ 64" using assms(1) by (meson div_le_dividend le_less_trans)
  note b = bit_length_bounds [OF n] and le = bit_length_le64 [OF this]
  from b le have "lesser_order_of sz = Inr (bit_length ?n - 1)"
    by (simp add: lesser_order_of_def leading_zeros_def)
  moreover from b have "2 ^ (bit_length ?n - 1) * PAGE_SIZE \<le> ?n * PAGE_SIZE"
    by (intro mult_le_mono1) simp
  then have "size_of_order (bit_length ?n - 1) \<le> sz"
    unfolding size_of_order_def by (rule order.trans) simp
  moreover have "sz < size_of_order (bit_length ?n - 1 + 1)"
    using b by (simp add: size_of_order_def PAGE_SIZE_def div_less_iff_less_mult)
  ultimately show ?thesis by blast
qed

lemma lesser_order_of_underflow: "sz < PAGE_SIZE \<Longrightarrow> lesser_order_of sz = Inl Panic"
  by (simp add: lesser_order_of_def leading_zeros_def bit_length.simps usub_def)

lemma trailing_zeros_pos_spec:
  "0 < n \<Longrightarrow> 2 ^ trailing_zeros_pos n dvd n \<and> \<not> 2 ^ Suc (trailing_zeros_pos n) dvd n"
proof (induction n rule: trailing_zeros_pos.induct)
  case (1 n)
  show ?case
  proof (cases "odd n")
    case True
    then show ?thesis by (simp add: trailing_zeros_pos.simps)
  next
    case False
    with "1.prems" have n: "n = 2 * (n div 2)" "0 < n div 2" by auto
    with 1 False have IH: "2 ^ trailing_zeros_pos (n div 2) dvd n div 2"
      "\<not> 2 ^ Suc (trailing_zeros_pos (n div 2)) dvd n div 2" by auto
    have "trailing_zeros_pos n = Suc (trailing_zeros_pos (n div 2))"
      using "1.prems" False by (simp add: trailing_zeros_pos.simps [of n])
    moreover obtain q where q: "n = 2 * q" "n div 2 = q" using n(1) by simp
    ultimately show ?thesis using IH by (simp only: q power_Suc) simp
  qed
qed

lemma trailing_zeros_dvd:
  assumes "0 < n"
  shows "2 ^ k dvd n \<longleftrightarrow> k \<le> trailing_zeros n"
proof -
  note t = trailing_zeros_pos_spec [OF assms]
  have "2 ^ k dvd n" if "k \<le> trailing_zeros_pos n"
    using t that by (meson dvd_trans le_imp_power_dvd)
  moreover have "\<not> 2 ^ k dvd n" if "\<not> k \<le> trailing_zeros_pos n"
    using t that by (meson dvd_trans le_imp_power_dvd not_less_eq_eq)
  ultimately show ?thesis using assms by (auto simp: trailing_zeros_def)
qed

lemma trailing_zeros_page [simp]: "trailing_zeros PAGE_SIZE = 12"
proof -
  have "12 \<le> trailing_zeros PAGE_SIZE" "\<not> 13 \<le> trailing_zeros PAGE_SIZE"
    by (simp_all add: trailing_zeros_dvd [symmetric] PAGE_SIZE_def)
  then show ?thesis by simp
qed

text \<open>\<open>max_order_from\<close> is the largest order to which a page-aligned address is aligned; the
  address 0 counts as aligned to order 52.\<close>

lemma max_order_from_spec:
  assumes "PAGE_SIZE dvd addr" "addr < 2 ^ 64"
  shows "\<exists>mo. max_order_from addr = Inr mo \<and> mo \<le> 52 \<and>
    (\<forall>k \<le> 52. size_of_order k dvd addr \<longleftrightarrow> k \<le> mo)"
proof (cases "addr = 0")
  case True
  then show ?thesis
    by (intro exI [of _ 52]) (simp add: max_order_from_def trailing_zeros_def [of 0])
next
  case False
  then have d: "2 ^ k dvd addr \<longleftrightarrow> k \<le> trailing_zeros addr" for k
    by (simp add: trailing_zeros_dvd)
  from assms(1) have "12 \<le> trailing_zeros addr"
    by (simp add: d [symmetric] PAGE_SIZE_def)
  moreover have "trailing_zeros addr < 64"
  proof (rule ccontr)
    assume "\<not> trailing_zeros addr < 64"
    then have "2 ^ 64 dvd addr" by (simp only: d)
    with False have "2 ^ 64 \<le> addr" by (intro dvd_imp_le) auto
    with assms(2) show False by simp
  qed
  ultimately show ?thesis
    by (intro exI [of _ "trailing_zeros addr - 12"])
      (auto simp: max_order_from_def size_of_order_pow d)
qed

lemma next_power_of_two_spec:
  "\<exists>k. next_power_of_two n = 2 ^ k \<and> n \<le> 2 ^ k \<and> (\<forall>j. n \<le> 2 ^ j \<longrightarrow> k \<le> j)"
proof (cases "n \<le> 1")
  case True
  then show ?thesis by (intro exI [of _ 0]) (simp add: next_power_of_two_def)
next
  case False
  then have b: "0 < bit_length (n - 1)" "2 ^ (bit_length (n - 1) - 1) \<le> n - 1" "n - 1 < 2 ^ bit_length (n - 1)"
    using bit_length_bounds [of "n - 1"] by auto
  have "bit_length (n - 1) \<le> j" if "n \<le> 2 ^ j" for j
  proof (rule ccontr)
    assume "\<not> bit_length (n - 1) \<le> j"
    then have "(2::nat) ^ j \<le> 2 ^ (bit_length (n - 1) - 1)" by (intro power_increasing) auto
    with that b False show False by linarith
  qed
  with b False show ?thesis
    by (intro exI [of _ "bit_length (n - 1)"]) (auto simp: next_power_of_two_def)
qed

lemma trailing_zeros_pow2: "trailing_zeros (2 ^ k) = k"
proof -
  have "j \<le> trailing_zeros (2 ^ k) \<longleftrightarrow> j \<le> k" for j
    using trailing_zeros_dvd [of "2 ^ k" j]
    by (simp add: dvd_power_iff_le flip: trailing_zeros_dvd)
  then show ?thesis by (meson dual_order.antisym order_refl)
qed

text \<open>\<open>greater_order_of\<close> returns the least order whose chunk covers the size, for sizes in
  whole pages.\<close>

lemma greater_order_of_least:
  assumes "PAGE_SIZE dvd sz"
  shows "sz \<le> size_of_order (greater_order_of sz) \<and>
    (\<forall>j. sz \<le> size_of_order j \<longrightarrow> greater_order_of sz \<le> j)"
proof -
  from next_power_of_two_spec [of "sz div PAGE_SIZE"] obtain k where
    k: "next_power_of_two (sz div PAGE_SIZE) = 2 ^ k" "sz div PAGE_SIZE \<le> 2 ^ k"
      "\<And>j. sz div PAGE_SIZE \<le> 2 ^ j \<Longrightarrow> k \<le> j" by blast
  have g: "greater_order_of sz = k" by (simp add: greater_order_of_def k(1) trailing_zeros_pow2)
  have "sz \<le> size_of_order j \<longleftrightarrow> sz div PAGE_SIZE \<le> 2 ^ j" for j
    using assms by (auto simp: size_of_order_def elim!: dvdE)
  with k g show ?thesis by simp
qed

lemma size_of_order_le_iff: "size_of_order i \<le> size_of_order j \<longleftrightarrow> i \<le> j"
  by (simp add: size_of_order_pow)

lemma greater_order_of_size [simp]: "greater_order_of (size_of_order j) = j"
  using greater_order_of_least [OF page_dvd_size, of j]
  by (auto simp: size_of_order_le_iff intro: le_antisym)

section \<open>Blocks\<close>

definition block_of :: "nat \<Rightarrow> nat \<Rightarrow> nat set" where
  "block_of order addr = {addr..<addr + size_of_order order}"

lemma addr_in_block [simp]: "addr \<in> block_of order addr"
  by (simp add: block_of_def)

lemma dvd_gap:
  fixes d a b :: nat
  assumes "d dvd a" "d dvd b" "a < b + d"
  shows "a \<le> b"
proof (rule ccontr)
  assume "\<not> a \<le> b"
  then have "0 < a - b" by simp
  moreover from assms have "d dvd a - b" by simp
  ultimately have "d \<le> a - b" by (rule dvd_imp_le [rotated])
  with assms(3) \<open>\<not> a \<le> b\<close> show False by simp
qed

text \<open>Two aligned blocks are nested or disjoint.\<close>

lemma blocks_nested:
  assumes "i \<le> j" "size_of_order i dvd a" "size_of_order j dvd b"
    and "block_of i a \<inter> block_of j b \<noteq> {}"
  shows "block_of i a \<subseteq> block_of j b"
proof -
  from assms(4) obtain p where p: "a \<le> p" "p < a + size_of_order i" "b \<le> p" "p < b + size_of_order j"
    unfolding block_of_def by (meson IntE atLeastLessThan_iff ex_in_conv)
  note d = size_of_order_dvd [OF assms(1)]
  from d assms(3) have b: "size_of_order i dvd b" by (rule dvd_trans)
  then have e: "size_of_order i dvd b + size_of_order j" using d by simp
  have "b \<le> a" using dvd_gap [OF b assms(2)] p by simp
  moreover have "a + size_of_order i \<le> b + size_of_order j"
    using dvd_gap [of "size_of_order i" "a + size_of_order i" "b + size_of_order j"] assms(2) e p by simp
  ultimately show ?thesis by (auto simp: block_of_def)
qed

lemma blocks_same_order:
  assumes "size_of_order i dvd a" "size_of_order i dvd b" "block_of i a \<inter> block_of i b \<noteq> {}"
  shows "a = b"
  using blocks_nested [of i i a b] blocks_nested [of i i b a] assms
  by (auto simp: block_of_def Int_commute atLeastLessThan_subset_iff)

text \<open>Flipping the bit of the chunk size leads to the other half of the chunk of the next
  order.\<close>

definition buddy_of :: "nat \<Rightarrow> nat \<Rightarrow> nat" where
  "buddy_of order addr = addr XOR size_of_order order"

lemma buddy_of_eq:
  assumes "size_of_order order dvd addr"
  shows "buddy_of order addr =
    (if size_of_order (Suc order) dvd addr then addr + size_of_order order
     else addr - size_of_order order)"
proof -
  let ?k = "order + 12"
  from assms obtain q where q: "addr = 2 ^ ?k * q" by (auto simp: size_of_order_pow elim: dvdE)
  have a: "addr = push_bit ?k q" by (simp add: q push_bit_nat_def)
  have "size_of_order order = push_bit ?k 1" by (simp add: size_of_order_pow push_bit_nat_def)
  then have "buddy_of order addr = push_bit ?k (q XOR 1)"
    by (simp only: buddy_of_def a push_bit_xor)
  also have "\<dots> = 2 ^ ?k * (q + of_bool (even q) - of_bool (odd q))"
    by (simp add: push_bit_nat_def xor_Suc_0_eq mult.commute)
  also have "\<dots> = (if even q then addr + 2 ^ ?k else addr - 2 ^ ?k)"
    by (auto simp: q algebra_simps elim: oddE)
  also have "even q \<longleftrightarrow> size_of_order (Suc order) dvd addr"
    by (simp add: size_of_order_pow q power_add mult_ac)
  finally show ?thesis by (simp add: size_of_order_pow)
qed

lemma not_dvd_Suc:
  assumes "size_of_order order dvd addr" "\<not> size_of_order (Suc order) dvd addr"
  shows "size_of_order order \<le> addr" "size_of_order (Suc order) dvd addr - size_of_order order"
proof -
  from assms(1) obtain q where q: "addr = size_of_order order * q" by (rule dvdE)
  with assms(2) have q: "addr = size_of_order order * q" "odd q"
    by (auto simp: size_of_order_Suc mult.commute)
  then show "size_of_order order \<le> addr" by (cases q) auto
  from q(2) obtain r where "q = 2 * r + 1" by (auto elim: oddE)
  with q(1) show "size_of_order (Suc order) dvd addr - size_of_order order"
    by (simp add: size_of_order_Suc algebra_simps)
qed

lemma buddy_of_cases:
  assumes "size_of_order order dvd addr"
  shows "size_of_order order dvd buddy_of order addr" "buddy_of order addr \<noteq> addr"
    "buddy_of order (buddy_of order addr) = addr"
    "size_of_order (Suc order) dvd min addr (buddy_of order addr)"
    "block_of order addr \<union> block_of order (buddy_of order addr) =
      block_of (Suc order) (min addr (buddy_of order addr))"
    "block_of order addr \<inter> block_of order (buddy_of order addr) = {}"
proof -
  let ?s = "size_of_order order" and ?b = "buddy_of order addr"
  show "buddy_of order ?b = addr" by (simp add: buddy_of_def xor.assoc)
  consider (left) "size_of_order (Suc order) dvd addr" "?b = addr + ?s"
    | (right) "\<not> size_of_order (Suc order) dvd addr" "?b = addr - ?s" "?s \<le> addr"
      "size_of_order (Suc order) dvd addr - ?s" "addr - ?s < addr"
    using buddy_of_eq [OF assms] not_dvd_Suc [OF assms] size_of_order_pos [of order]
    by (metis diff_less less_le_trans)
  note cs = this
  from cs show "?s dvd ?b" by cases (use assms in auto)
  from cs show "?b \<noteq> addr" by cases (use size_of_order_pos [of order] in linarith)+
  from cs show "size_of_order (Suc order) dvd min addr ?b" by cases (simp_all add: min_def)
  from cs show "block_of order addr \<union> block_of order ?b = block_of (Suc order) (min addr ?b)"
    by cases (auto simp: block_of_def size_of_order_Suc min_def)
  from cs show "block_of order addr \<inter> block_of order ?b = {}"
    by cases (auto simp: block_of_def)
qed

lemma buddy_of_left: "size_of_order (Suc order) dvd addr \<Longrightarrow> buddy_of order addr = addr + size_of_order order"
  using buddy_of_eq [of order addr] size_of_order_dvd [of order "Suc order"] by (auto dest: dvd_trans)

section \<open>Splitting a range into chunks\<close>

text \<open>\<open>chunks_tile lo cs hi\<close>: the chunks are aligned and follow each other from \<open>lo\<close> to \<open>hi\<close>.\<close>

fun chunks_tile :: "nat \<Rightarrow> (nat \<times> nat) list \<Rightarrow> nat \<Rightarrow> bool" where
  "chunks_tile lo [] hi \<longleftrightarrow> lo = hi"
| "chunks_tile lo ((addr, order) # cs) hi \<longleftrightarrow>
     addr = lo \<and> size_of_order order dvd addr \<and> chunks_tile (lo + size_of_order order) cs hi"

lemma chunks_tile_le: "chunks_tile lo cs hi \<Longrightarrow> lo \<le> hi"
  by (induction lo cs hi rule: chunks_tile.induct) auto

lemma chunks_tile_cover:
  "chunks_tile lo cs hi \<Longrightarrow> (\<Union>(addr, order)\<in>set cs. block_of order addr) = {lo..<hi}"
proof (induction lo cs hi rule: chunks_tile.induct)
  case (2 lo addr order cs hi)
  then have le: "lo + size_of_order order \<le> hi" using chunks_tile_le [of "lo + size_of_order order" cs hi] by simp
  with 2 show ?case by (auto simp: block_of_def)
qed simp

lemma split_step:
  assumes "PAGE_SIZE dvd addr" "PAGE_SIZE dvd sz" "0 < sz" "addr + sz < 2 ^ 64"
  obtains order where "split_chunks addr sz =
      rbind (split_chunks (addr + size_of_order order) (sz - size_of_order order))
        (\<lambda>cs. Inr ((addr, order) # cs))"
    "size_of_order order dvd addr" "size_of_order order \<le> sz" "order \<le> 52"
    "\<And>k. size_of_order k dvd addr \<Longrightarrow> size_of_order k \<le> sz \<Longrightarrow> k \<le> order"
proof -
  from assms have pg: "PAGE_SIZE \<le> sz" by (simp add: dvd_imp_le)
  from max_order_from_spec [OF assms(1)] assms(4) obtain mo where
    mo: "max_order_from addr = Inr mo" "mo \<le> 52" "\<forall>k \<le> 52. size_of_order k dvd addr \<longleftrightarrow> k \<le> mo" by auto
  from lesser_order_of_spec [OF _ pg] assms(4) obtain lo where
    lo: "lesser_order_of sz = Inr lo" "size_of_order lo \<le> sz" "sz < size_of_order (lo + 1)" by auto
  let ?o = "min mo lo"
  have le: "size_of_order ?o \<le> sz" using lo(2) size_of_order_le [of ?o lo] by simp
  have fit: "k \<le> lo" if "size_of_order k \<le> sz" for k
  proof (rule ccontr)
    assume "\<not> k \<le> lo"
    then have "size_of_order (lo + 1) \<le> size_of_order k" by (intro size_of_order_le) simp
    with lo(3) that show False by simp
  qed
  have "lo < 52"
  proof (rule ccontr)
    assume "\<not> lo < 52"
    then have "size_of_order 52 \<le> size_of_order lo" by (intro size_of_order_le) simp
    with lo(2) assms(4) show False by (simp add: size_of_order_pow)
  qed
  have max: "k \<le> ?o" if "size_of_order k dvd addr" "size_of_order k \<le> sz" for k
    using mo(3) fit [OF that(2)] that(1) \<open>lo < 52\<close> by simp
  show thesis
  proof (rule that [of ?o])
    show "split_chunks addr sz = rbind (split_chunks (addr + size_of_order ?o) (sz - size_of_order ?o))
        (\<lambda>cs. Inr ((addr, ?o) # cs))"
      using assms(3) mo(1) lo(1) le by (subst split_chunks.simps) (simp add: Let_def)
    show "size_of_order ?o dvd addr" using mo(2,3) by simp
  qed (use le max mo in auto)
qed

lemma split_chunks_tile:
  assumes "PAGE_SIZE dvd addr" "PAGE_SIZE dvd sz" "addr + sz < 2 ^ 64"
  shows "\<exists>cs. split_chunks addr sz = Inr cs \<and> chunks_tile addr cs (addr + sz) \<and>
    (\<forall>(a, k)\<in>set cs. k \<le> 52)"
  using assms
proof (induction sz arbitrary: addr rule: less_induct)
  case (less sz)
  show ?case
  proof (cases "sz = 0")
    case True
    then show ?thesis by (simp add: split_chunks.simps)
  next
    case False
    then obtain order where o: "split_chunks addr sz =
        rbind (split_chunks (addr + size_of_order order) (sz - size_of_order order))
          (\<lambda>cs. Inr ((addr, order) # cs))"
      "size_of_order order dvd addr" "size_of_order order \<le> sz" "order \<le> 52"
      using split_step [OF less.prems(1,2) _ less.prems(3)] by blast
    let ?a = "addr + size_of_order order" and ?z = "sz - size_of_order order"
    have "?z < sz" using o(3) False by simp
    moreover have "PAGE_SIZE dvd ?a" "PAGE_SIZE dvd ?z" "?a + ?z = addr + sz"
      using less.prems(1,2) page_dvd_size o(3) by auto
    ultimately obtain cs where "split_chunks ?a ?z = Inr cs" "chunks_tile ?a cs (addr + sz)"
      "\<forall>(a, k)\<in>set cs. k \<le> 52"
      using less.IH [of ?z ?a] less.prems(3) by metis
    with o show ?thesis by simp
  qed
qed

text \<open>Any other division of the range into chunks can be cut where a greedy chunk ends.\<close>

lemma chunks_tile_cut:
  assumes "chunks_tile lo ds hi" "lo \<le> mid" "mid \<le> hi"
    and "\<forall>(a, k)\<in>set ds. a < mid \<longrightarrow> a + size_of_order k \<le> mid"
  shows "\<exists>ds1 ds2. ds = ds1 @ ds2 \<and> chunks_tile lo ds1 mid \<and> chunks_tile mid ds2 hi"
  using assms
proof (induction lo ds hi rule: chunks_tile.induct)
  case (2 lo a k ds hi)
  show ?case
  proof (cases "lo = mid")
    case True
    with "2.prems"(1) show ?thesis by (intro exI [of _ "[]"] exI [of _ "(a, k) # ds"]) auto
  next
    case False
    with "2.prems" have "lo + size_of_order k \<le> mid" by auto
    with 2 obtain ds1 ds2 where
      "ds = ds1 @ ds2" "chunks_tile (lo + size_of_order k) ds1 mid" "chunks_tile mid ds2 hi" by auto
    with "2.prems"(1) show ?thesis by (intro exI [of _ "(a, k) # ds1"] exI [of _ ds2]) auto
  qed
qed simp

lemma chunks_tile_mem:
  "chunks_tile lo ds hi \<Longrightarrow> (a, k) \<in> set ds \<Longrightarrow>
    size_of_order k dvd a \<and> lo \<le> a \<and> a + size_of_order k \<le> hi"
  by (induction lo ds hi rule: chunks_tile.induct) (auto dest: chunks_tile_le)

lemma split_chunks_minimal:
  assumes "PAGE_SIZE dvd addr" "PAGE_SIZE dvd sz" "addr + sz < 2 ^ 64"
    and "split_chunks addr sz = Inr cs" "chunks_tile addr ds (addr + sz)"
  shows "length cs \<le> length ds"
  using assms
proof (induction sz arbitrary: addr cs ds rule: less_induct)
  case (less sz)
  show ?case
  proof (cases "sz = 0")
    case True
    with less.prems(4) show ?thesis by (simp add: split_chunks.simps)
  next
    case False
    then obtain order where o: "split_chunks addr sz =
        rbind (split_chunks (addr + size_of_order order) (sz - size_of_order order))
          (\<lambda>cs. Inr ((addr, order) # cs))"
      "size_of_order order dvd addr" "size_of_order order \<le> sz"
      "\<And>k. size_of_order k dvd addr \<Longrightarrow> size_of_order k \<le> sz \<Longrightarrow> k \<le> order"
      using split_step [OF less.prems(1,2) _ less.prems(3)] by (metis neq0_conv)
    let ?mid = "addr + size_of_order order" and ?z = "sz - size_of_order order"
    have "a + size_of_order k \<le> ?mid" if ak: "(a, k) \<in> set ds" "a < ?mid" for a k
    proof -
      note m = chunks_tile_mem [OF less.prems(5) ak(1)]
      have int: "block_of k a \<inter> block_of order addr \<noteq> {}"
        using m ak(2) by (auto simp: block_of_def)
      have "k \<le> order"
      proof (rule ccontr)
        assume "\<not> k \<le> order"
        then have "block_of order addr \<subseteq> block_of k a"
          using blocks_nested [of order k addr a] o(2) m int by (simp add: Int_commute)
        then have "addr \<in> block_of k a" using addr_in_block by blast
        then have "a = addr" using m by (simp add: block_of_def)
        with m o(4) [of k] \<open>\<not> k \<le> order\<close> show False by simp
      qed
      from blocks_nested [OF this _ o(2) int] m show ?thesis
        by (auto simp: block_of_def)
    qed
    then have "\<forall>(a, k)\<in>set ds. a < ?mid \<longrightarrow> a + size_of_order k \<le> ?mid" by blast
    from chunks_tile_cut [OF less.prems(5) _ _ this] o(3) obtain ds1 ds2 where
      ds: "ds = ds1 @ ds2" "chunks_tile addr ds1 ?mid" "chunks_tile ?mid ds2 (addr + sz)" by auto
    from ds(2) have "ds1 \<noteq> []" by auto
    obtain cs' where cs': "split_chunks ?mid ?z = Inr cs'" "cs = (addr, order) # cs'"
      using less.prems(4) o(1) by (auto simp: rbind_eq_Inr)
    have "?z < sz" using o(3) False by simp
    moreover have "PAGE_SIZE dvd ?mid" "PAGE_SIZE dvd ?z" "?mid + ?z = addr + sz"
      using less.prems(1,2) page_dvd_size o(3) by auto
    ultimately have "length cs' \<le> length ds2"
      using less.IH [of ?z ?mid cs' ds2] cs'(1) ds(3) less.prems(3) by metis
    with cs'(2) ds(1) \<open>ds1 \<noteq> []\<close> show ?thesis by (cases ds1) auto
  qed
qed

text \<open>\<open>split_to_chunks\<close> of a page-aligned range divides it into aligned chunks that follow
  each other from its start to its end, and no division of the range into chunks has fewer; a
  range that is not page-aligned panics.\<close>

theorem split_to_chunks_correct:
  assumes "addr + sz < 2 ^ 64"
  shows "if PAGE_SIZE dvd addr \<and> PAGE_SIZE dvd sz
    then \<exists>cs. split_to_chunks addr sz = Inr cs \<and> chunks_tile addr cs (addr + sz) \<and>
      (\<forall>ds. chunks_tile addr ds (addr + sz) \<longrightarrow> length cs \<le> length ds)
    else split_to_chunks addr sz = Inl Panic"
proof (cases "PAGE_SIZE dvd addr \<and> PAGE_SIZE dvd sz")
  case True
  with split_chunks_tile [of addr sz] assms obtain cs where
    "split_chunks addr sz = Inr cs" "chunks_tile addr cs (addr + sz)" by auto
  with True split_chunks_minimal [of addr sz cs] assms show ?thesis
    by (auto simp: split_to_chunks_def dvd_eq_mod_eq_0)
next
  case False
  then show ?thesis by (auto simp: split_to_chunks_def dvd_eq_mod_eq_0 rassert_def)
qed

theorem split_to_chunks_correct_witness:
  "\<exists>cs. split_to_chunks (7 * PAGE_SIZE) (5 * PAGE_SIZE) = Inr cs \<and>
     chunks_tile (7 * PAGE_SIZE) cs (7 * PAGE_SIZE + 5 * PAGE_SIZE)"
  using split_to_chunks_correct [of "7 * PAGE_SIZE" "5 * PAGE_SIZE"]
  by (auto simp: PAGE_SIZE_def)

section \<open>Ownership of the head frames\<close>

text \<open>\<open>head_ok m order addr\<close>: the head slot holds the order, the slots of the other frames of the
  block are unused; \<open>all_unused\<close>: every slot of the block is unused.\<close>

definition head_ok :: "frame_meta \<Rightarrow> nat \<Rightarrow> nat \<Rightarrow> bool" where
  "head_ok m order addr \<longleftrightarrow> m addr = FreeHead order \<and>
     (\<forall>p\<in>block_of order addr. PAGE_SIZE dvd p \<longrightarrow> p \<noteq> addr \<longrightarrow> m p = Unused)"

definition all_unused :: "frame_meta \<Rightarrow> nat \<Rightarrow> nat \<Rightarrow> bool" where
  "all_unused m order addr \<longleftrightarrow> (\<forall>p\<in>block_of order addr. PAGE_SIZE dvd p \<longrightarrow> m p = Unused)"

lemma page_dvd_chunk: "size_of_order order dvd addr \<Longrightarrow> PAGE_SIZE dvd addr"
  using page_dvd_size dvd_trans by blast

lemma from_unused_ok:
  assumes "size_of_order order dvd addr" "all_unused m order addr"
  shows "from_unused m addr order = Inr (m(addr := FreeHead order))"
    "head_ok (m(addr := FreeHead order)) order addr"
proof -
  note pg = page_dvd_chunk [OF assms(1)]
  have "m (addr + k * PAGE_SIZE) = Unused" if "k < 2 ^ order" for k
  proof -
    have "addr + k * PAGE_SIZE \<in> block_of order addr"
      using that by (simp add: block_of_def size_of_order_def PAGE_SIZE_def)
    with assms(2) pg show ?thesis by (simp add: all_unused_def)
  qed
  moreover have "m addr = Unused" using assms(2) pg by (auto simp: all_unused_def)
  ultimately show "from_unused m addr order = Inr (m(addr := FreeHead order))"
    using assms(1) by (auto simp: from_unused_def unique_from_unused_def dvd_eq_mod_eq_0
        list_all_iff PAGE_SIZE_def)
  show "head_ok (m(addr := FreeHead order)) order addr"
    using assms(2) by (auto simp: head_ok_def all_unused_def)
qed

lemma head_ok_order: "head_ok m order addr \<Longrightarrow> chunk_order m addr = order"
  by (simp add: head_ok_def chunk_order_def)

lemma merge_free_ok:
  assumes al: "size_of_order order dvd addr" and h: "head_ok m order addr"
    and hb: "head_ok m order (buddy_of order addr)"
  defines "a \<equiv> min addr (buddy_of order addr)" and "b \<equiv> max addr (buddy_of order addr)"
  shows "merge_free m addr (buddy_of order addr) = Inr (a, m(b := Unused, a := FreeHead (Suc order)))"
    "head_ok (m(b := Unused, a := FreeHead (Suc order))) (Suc order) a"
proof -
  note c = buddy_of_cases [OF al]
  have x: "a XOR size_of_order order = b"
    using c(2,3) by (auto simp: a_def b_def min_def max_def buddy_of_def xor.assoc)
  have o: "chunk_order m a = order" "chunk_order m b = order"
    using head_ok_order [OF h] head_ok_order [OF hb] by (auto simp: a_def b_def min_def max_def)
  have ab: "(if addr > buddy_of order addr then (buddy_of order addr, addr)
      else (addr, buddy_of order addr)) = (a, b)" "a \<noteq> b"
    using c(2) by (auto simp: a_def b_def)
  show "merge_free m addr (buddy_of order addr) = Inr (a, m(b := Unused, a := FreeHead (Suc order)))"
    unfolding merge_free_def ab(1) using o x by (simp add: Let_def reset_as_unused_def)
  have "block_of (Suc order) a = block_of order addr \<union> block_of order (buddy_of order addr)"
    using c(5) by (simp add: a_def)
  moreover have "{a, b} = {addr, buddy_of order addr}" by (auto simp: a_def b_def min_def max_def)
  ultimately show "head_ok (m(b := Unused, a := FreeHead (Suc order))) (Suc order) a"
    using h hb ab(2) unfolding head_ok_def by auto
qed

lemma split_free_ok:
  assumes al: "size_of_order (Suc order) dvd addr" and h: "head_ok m (Suc order) addr"
  defines "b \<equiv> addr + size_of_order order"
  shows "split_free m addr = Inr (addr, b, m(addr := FreeHead order, b := FreeHead order))"
    "head_ok (m(addr := FreeHead order, b := FreeHead order)) order addr"
    "head_ok (m(addr := FreeHead order, b := FreeHead order)) order b"
proof -
  have b: "addr XOR size_of_order order = b"
    using buddy_of_left [OF al] by (simp add: buddy_of_def b_def)
  have ne: "b \<noteq> addr" and blk: "block_of (Suc order) addr = block_of order addr \<union> block_of order b"
    "block_of order addr \<inter> block_of order b = {}"
    by (auto simp: b_def block_of_def size_of_order_Suc)
  have "PAGE_SIZE dvd addr" using page_dvd_chunk [OF al] .
  then have "PAGE_SIZE dvd b" using page_dvd_size by (simp add: b_def)
  moreover have "b \<in> block_of (Suc order) addr" by (simp add: blk)
  ultimately have "m b = Unused" using h ne by (simp add: head_ok_def)
  with ne b head_ok_order [OF h] show "split_free m addr =
      Inr (addr, b, m(addr := FreeHead order, b := FreeHead order))"
    by (simp add: split_free_def unique_from_unused_def Let_def)
  have "b \<notin> block_of order addr" "addr \<notin> block_of order b"
    using blk(2) addr_in_block by blast+
  with h ne blk(1) show "head_ok (m(addr := FreeHead order, b := FreeHead order)) order addr"
    "head_ok (m(addr := FreeHead order, b := FreeHead order)) order b"
    unfolding head_ok_def by auto
qed

text \<open>Splitting a free chunk and merging the two halves again restores the chunk and the
  metadata of every frame.\<close>

theorem split_merge_roundtrip:
  assumes al: "size_of_order (Suc order) dvd addr" and h: "head_ok m (Suc order) addr"
  shows "\<exists>r m'. split_free m addr = Inr (addr, r, m') \<and> merge_free m' addr r = Inr (addr, m) \<and>
    merge_free m' r addr = Inr (addr, m)"
proof -
  let ?b = "addr + size_of_order order" and ?m = "m(addr := FreeHead order, addr + size_of_order order := FreeHead order)"
  note s = split_free_ok [OF al h]
  have al': "size_of_order order dvd addr" using al size_of_order_dvd [of order "Suc order"] by (auto dest: dvd_trans)
  note bl = buddy_of_left [OF al]
  have lt: "addr < ?b" by simp
  have "PAGE_SIZE dvd ?b" using page_dvd_chunk [OF al'] page_dvd_size by simp
  moreover have "?b \<in> block_of (Suc order) addr" by (simp add: block_of_def size_of_order_Suc)
  ultimately have "m ?b = Unused" using h lt unfolding head_ok_def by auto
  then have "?m(?b := Unused, addr := FreeHead (Suc order)) = m"
    using h lt by (auto simp: head_ok_def fun_eq_iff)
  moreover have "buddy_of order ?b = addr" using buddy_of_cases(3) [OF al'] bl by simp
  moreover have "size_of_order order dvd ?b" using al' by simp
  ultimately have "merge_free ?m addr ?b = Inr (addr, m)" "merge_free ?m ?b addr = Inr (addr, m)"
    using merge_free_ok(1) [OF al' s(2)] merge_free_ok(1) [of order ?b ?m] s(2,3) bl lt by simp_all
  with s(1) show ?thesis by blast
qed

theorem split_merge_roundtrip_witness:
  "\<exists>r m'. split_free (\<lambda>p. if p = 0 then FreeHead (Suc 1) else Unused) 0 = Inr (0, r, m') \<and>
     merge_free m' 0 r = Inr (0, \<lambda>p. if p = 0 then FreeHead (Suc 1) else Unused)"
  using split_merge_roundtrip [of 1 0 "\<lambda>p. if p = 0 then FreeHead (Suc 1) else Unused"]
  by (auto simp: head_ok_def)

end
