(* ===== verification/Buddy_Set.thy ===== *)
theory Buddy_Set
  imports Buddy_Chunk
begin

text \<open>
  The free lists of the buddy allocator, \<open>osxdk/deps/frame-allocator/src/set.rs\<close>: one list of
  free chunks per order. \<open>insert_chunk\<close> coalesces the new chunk with its buddy as long as the
  buddy is free; \<open>alloc_chunk\<close> takes the first chunk that is large enough and splits it. The
  intrusive linked lists are lists of head addresses; \<open>MAX_ORDER\<close> is the number of lists.

  The locale \<open>frame_pool\<close> is the contract of such a set, a pool of free frames; the pools of the
  allocator are proved against it.
\<close>

record buddy_set =
  total_size :: nat
  lists :: "nat list list"

definition new_empty :: "nat \<Rightarrow> buddy_set" where
  "new_empty MAX_ORDER = \<lparr>total_size = 0, lists = replicate MAX_ORDER []\<rparr>"

text \<open>The coalescing loop of \<open>insert_chunk\<close> from index \<open>i\<close> on.\<close>

function coalesce_loop ::
  "nat list list \<Rightarrow> frame_meta \<Rightarrow> nat \<Rightarrow> nat \<Rightarrow> (nat list list \<times> frame_meta \<times> nat) result" where
  "coalesce_loop ls m chunk i =
     (if i + 1 \<ge> length ls then Inr (ls, m, chunk)
      else
        let buddy_addr = buddy m chunk in
        if buddy_addr \<in> set (ls ! i)
        then rbind (merge_free m chunk buddy_addr) (\<lambda>(chunk', m').
               coalesce_loop (ls[i := remove1 buddy_addr (ls ! i)]) m' chunk' (i + 1))
        else Inr (ls, m, chunk))"
  by pat_completeness auto

termination coalesce_loop
  by (relation "measure (\<lambda>(ls, m, chunk, i). length ls - i)") auto

declare coalesce_loop.simps [simp del]

definition insert_chunk ::
  "buddy_set \<Rightarrow> frame_meta \<Rightarrow> nat \<Rightarrow> nat \<Rightarrow> (buddy_set \<times> frame_meta) result" where
  "insert_chunk s m addr order =
     rbind (rassert (order < length (lists s))) (\<lambda>_.
     rbind (from_unused m addr order) (\<lambda>m1.
     rbind (coalesce_loop (lists s) m1 addr (chunk_order m1 addr)) (\<lambda>(ls, m2, chunk).
       let order' = chunk_order m2 chunk in
       rbind (rassert (order' < length ls)) (\<lambda>_.
       rbind (uadd (total_size s) (size_of_order order)) (\<lambda>total.
         Inr (s\<lparr>total_size := total, lists := ls[order' := chunk # ls ! order']\<rparr>, m2))))))"

text \<open>The splitting loop of \<open>alloc_chunk\<close>, from \<open>non_empty\<close> down to \<open>order + 1\<close>.\<close>

function split_loop ::
  "nat \<Rightarrow> nat \<Rightarrow> nat list list \<Rightarrow> frame_meta \<Rightarrow> nat \<Rightarrow> (nat list list \<times> frame_meta \<times> nat) result" where
  "split_loop order i ls m chunk =
     (if i \<le> order then Inr (ls, m, chunk)
      else rbind (split_free m chunk) (\<lambda>(left_sub, right_sub, m').
        rbind (rassert (chunk_order m' right_sub = i - 1)) (\<lambda>_.
          split_loop order (i - 1) (ls[i - 1 := right_sub # ls ! (i - 1)]) m' left_sub)))"
  by pat_completeness auto

termination split_loop
  by (relation "measure (\<lambda>(order, i, ls, m, chunk). i)") auto

declare split_loop.simps [simp del]

definition alloc_chunk ::
  "buddy_set \<Rightarrow> frame_meta \<Rightarrow> nat \<Rightarrow> (nat option \<times> buddy_set \<times> frame_meta) result" where
  "alloc_chunk s m order =
     (case find (\<lambda>i. lists s ! i \<noteq> []) [order..<length (lists s)] of
        None \<Rightarrow> Inr (None, s, m)
      | Some non_empty \<Rightarrow>
          let head = hd (lists s ! non_empty);
              ls = (lists s)[non_empty := tl (lists s ! non_empty)] in
          rbind (rassert (chunk_order m head = non_empty)) (\<lambda>_.
          rbind (split_loop order non_empty ls m head) (\<lambda>(ls', m', chunk).
          rbind (usub (total_size s) (size_of_order order)) (\<lambda>total.
            Inr (Some chunk, s\<lparr>total_size := total, lists := ls'\<rparr>, reset_as_unused m' chunk)))))"

section \<open>Sets of chunks\<close>

definition chunk_set :: "nat list list \<Rightarrow> (nat \<times> nat) set" where
  "chunk_set ls = {(i, a). i < length ls \<and> a \<in> set (ls ! i)}"

definition lists_distinct :: "nat list list \<Rightarrow> bool" where
  "lists_distinct ls \<longleftrightarrow> (\<forall>i < length ls. distinct (ls ! i))"

definition frames_of :: "(nat \<times> nat) set \<Rightarrow> nat set" where
  "frames_of C = (\<Union>(i, a)\<in>C. block_of i a)"

definition chunks_ok :: "(nat \<times> nat) set \<Rightarrow> frame_meta \<Rightarrow> bool" where
  "chunks_ok C m \<longleftrightarrow>
     (\<forall>i a. (i, a) \<in> C \<longrightarrow> size_of_order i dvd a \<and> head_ok m i a) \<and>
     (\<forall>i a j b. (i, a) \<in> C \<longrightarrow> (j, b) \<in> C \<longrightarrow> (i, a) \<noteq> (j, b) \<longrightarrow> block_of i a \<inter> block_of j b = {})"

text \<open>No chunk below the largest order lies in a list together with its buddy.\<close>

definition coalesced :: "nat \<Rightarrow> (nat \<times> nat) set \<Rightarrow> bool" where
  "coalesced n C \<longleftrightarrow> (\<forall>i a. Suc i < n \<longrightarrow> (i, a) \<in> C \<longrightarrow> (i, buddy_of i a) \<notin> C)"

text \<open>A chunk in hand that is not in the lists.\<close>

definition in_hand :: "(nat \<times> nat) set \<Rightarrow> frame_meta \<Rightarrow> nat \<Rightarrow> nat \<Rightarrow> bool" where
  "in_hand C m i a \<longleftrightarrow> chunks_ok C m \<and> size_of_order i dvd a \<and> head_ok m i a \<and>
     block_of i a \<inter> frames_of C = {}"

lemma chunks_okD:
  assumes "chunks_ok C m" "(i, a) \<in> C"
  shows "size_of_order i dvd a" "head_ok m i a"
  using assms by (auto simp: chunks_ok_def)

lemma chunks_ok_disjoint:
  assumes "chunks_ok C m" "(i, a) \<in> C" "(j, b) \<in> C" "p \<in> block_of i a" "p \<in> block_of j b"
  shows "i = j \<and> a = b"
proof (rule ccontr)
  assume "\<not> (i = j \<and> a = b)"
  with assms(1-3) have "block_of i a \<inter> block_of j b = {}" unfolding chunks_ok_def by blast
  with assms(4,5) show False by blast
qed

lemma frames_ofI: "(i, a) \<in> C \<Longrightarrow> p \<in> block_of i a \<Longrightarrow> p \<in> frames_of C"
  by (auto simp: frames_of_def)

lemma frames_of_insert [simp]: "frames_of (insert (i, a) C) = block_of i a \<union> frames_of C"
  by (auto simp: frames_of_def)

lemma frames_of_empty [simp]: "frames_of {} = {}"
  by (simp add: frames_of_def)

lemma frames_of_remove:
  assumes "chunks_ok C m" "(i, a) \<in> C"
  shows "frames_of (C - {(i, a)}) = frames_of C - block_of i a"
  using chunks_ok_disjoint [OF assms(1) assms(2)] unfolding frames_of_def by fastforce

lemma head_ok_cong:
  "head_ok m i a \<Longrightarrow> \<forall>p\<in>block_of i a. m' p = m p \<Longrightarrow> head_ok m' i a"
  by (simp add: head_ok_def)

lemma chunks_ok_subset:
  assumes "chunks_ok C m" "C' \<subseteq> C" "\<forall>p\<in>frames_of C'. m' p = m p"
  shows "chunks_ok C' m'"
proof -
  have "head_ok m' i a" if "(i, a) \<in> C'" for i a
  proof (rule head_ok_cong)
    show "head_ok m i a" using that assms(2) by (blast intro: chunks_okD(2) [OF assms(1)])
    show "\<forall>p\<in>block_of i a. m' p = m p" using assms(3) frames_ofI [OF that] by blast
  qed
  with assms(1,2) show ?thesis unfolding chunks_ok_def by blast
qed

lemma chunks_ok_insert:
  assumes "in_hand C m i a"
  shows "chunks_ok (insert (i, a) C) m"
  using assms unfolding in_hand_def chunks_ok_def frames_of_def by auto

lemma in_hand_remove:
  assumes "chunks_ok C m" "(i, a) \<in> C"
  shows "in_hand (C - {(i, a)}) m i a"
  using assms chunks_okD [OF assms] frames_of_remove [OF assms] chunks_ok_subset [of C m "C - {(i, a)}" m]
  by (auto simp: in_hand_def)

lemma coalesced_subset: "coalesced n C \<Longrightarrow> C' \<subseteq> C \<Longrightarrow> coalesced n C'"
  by (auto simp: coalesced_def)

lemma coalesced_insert:
  assumes co: "coalesced n C" and ok: "chunks_ok C m" and al: "size_of_order i dvd a"
    and b: "Suc i < n \<Longrightarrow> (i, buddy_of i a) \<notin> C"
  shows "coalesced n (insert (i, a) C)"
  unfolding coalesced_def
proof (intro allI impI)
  fix j c assume j: "Suc j < n" "(j, c) \<in> insert (i, a) C"
  show "(j, buddy_of j c) \<notin> insert (i, a) C"
  proof (cases "(j, c) = (i, a)")
    case True
    with b j(1) buddy_of_cases(2) [OF al] show ?thesis by auto
  next
    case False
    with j have mem: "(j, c) \<in> C" by auto
    note c = buddy_of_cases [OF chunks_okD(1) [OF ok mem]]
    have "(j, buddy_of j c) \<noteq> (i, a)"
    proof
      assume eq: "(j, buddy_of j c) = (i, a)"
      then have "c = buddy_of i a" using c(3) by auto
      with b j(1) mem eq show False by auto
    qed
    with co j(1) mem show ?thesis by (auto simp: coalesced_def)
  qed
qed

section \<open>The two steps\<close>

lemma merge_step_ok:
  assumes h: "in_hand C m i a" and b: "(i, buddy_of i a) \<in> C"
  defines "C' \<equiv> C - {(i, buddy_of i a)}" and "lo \<equiv> min a (buddy_of i a)"
    and "m' \<equiv> m(max a (buddy_of i a) := Unused, min a (buddy_of i a) := FreeHead (Suc i))"
  shows "merge_free m a (buddy_of i a) = Inr (lo, m')" "in_hand C' m' (Suc i) lo"
    "block_of (Suc i) lo \<union> frames_of C' = block_of i a \<union> frames_of C"
    "\<And>p. p \<notin> block_of (Suc i) lo \<Longrightarrow> m' p = m p"
proof -
  from h have ok: "chunks_ok C m" and al: "size_of_order i dvd a" and ha: "head_ok m i a"
    and dj: "block_of i a \<inter> frames_of C = {}" by (auto simp: in_hand_def)
  note mg = merge_free_ok [OF al ha chunks_okD(2) [OF ok b]]
  note c = buddy_of_cases [OF al]
  show "merge_free m a (buddy_of i a) = Inr (lo, m')" using mg(1) by (simp add: lo_def m'_def)
  have blk: "block_of (Suc i) lo = block_of i a \<union> block_of i (buddy_of i a)"
    using c(5) by (simp add: lo_def)
  have fr: "frames_of C' = frames_of C - block_of i (buddy_of i a)"
    unfolding C'_def by (rule frames_of_remove [OF ok b])
  have sub: "block_of i (buddy_of i a) \<subseteq> frames_of C" using b by (auto intro: frames_ofI)
  show "block_of (Suc i) lo \<union> frames_of C' = block_of i a \<union> frames_of C"
    unfolding blk fr using sub by blast
  have "a \<in> block_of (Suc i) lo" "buddy_of i a \<in> block_of (Suc i) lo" by (auto simp: blk)
  then show out: "m' p = m p" if "p \<notin> block_of (Suc i) lo" for p
    using that by (auto simp: m'_def min_def max_def)
  have dj': "block_of (Suc i) lo \<inter> frames_of C' = {}" unfolding blk fr using dj by blast
  have "chunks_ok C' m'"
    using out dj' by (intro chunks_ok_subset [OF ok]) (auto simp: C'_def)
  with dj' mg(2) c(4) show "in_hand C' m' (Suc i) lo" by (simp add: in_hand_def lo_def m'_def)
qed

lemma split_step_ok:
  assumes h: "in_hand C m (Suc i) a"
  defines "r \<equiv> a + size_of_order i"
  defines "C' \<equiv> insert (i, r) C" and "m' \<equiv> m(a := FreeHead i, r := FreeHead i)"
  shows "split_free m a = Inr (a, r, m')" "in_hand C' m' i a" "chunk_order m' r = i"
    "block_of i a \<union> frames_of C' = block_of (Suc i) a \<union> frames_of C"
    "\<And>p. p \<notin> block_of (Suc i) a \<Longrightarrow> m' p = m p" "(i, r) \<notin> C" "(i, a) \<notin> C" "size_of_order i dvd r"
    "buddy_of i r = a"
proof -
  from h have ok: "chunks_ok C m" and al: "size_of_order (Suc i) dvd a" and ha: "head_ok m (Suc i) a"
    and dj: "block_of (Suc i) a \<inter> frames_of C = {}" by (auto simp: in_hand_def)
  have al': "size_of_order i dvd a" using al size_of_order_dvd [of i "Suc i"] by (auto dest: dvd_trans)
  note sp = split_free_ok [OF al ha, folded r_def, folded m'_def]
  show "split_free m a = Inr (a, r, m')" by (rule sp(1))
  show "chunk_order m' r = i" using head_ok_order [OF sp(3)] .
  show rr: "size_of_order i dvd r" using al' by (simp add: r_def)
  show "buddy_of i r = a" using buddy_of_cases(3) [OF al'] buddy_of_left [OF al] by (simp add: r_def)
  have blk: "block_of (Suc i) a = block_of i a \<union> block_of i r" "block_of i a \<inter> block_of i r = {}"
    by (auto simp: block_of_def size_of_order_Suc r_def)
  then show "block_of i a \<union> frames_of C' = block_of (Suc i) a \<union> frames_of C" by (auto simp: C'_def)
  have "a \<in> block_of (Suc i) a" "r \<in> block_of (Suc i) a" by (auto simp: blk)
  then show out: "m' p = m p" if "p \<notin> block_of (Suc i) a" for p using that by (auto simp: m'_def)
  have "chunks_ok C m'" using out dj by (intro chunks_ok_subset [OF ok]) auto
  then have "in_hand C m' i r" using rr sp(3) dj blk by (auto simp: in_hand_def)
  from chunks_ok_insert [OF this] show "in_hand C' m' i a"
    using al' sp(2) dj blk by (auto simp: in_hand_def C'_def)
  show "(i, r) \<notin> C" "(i, a) \<notin> C"
    using dj blk(1) frames_ofI [of i r C r] frames_ofI [of i a C a] addr_in_block by blast+
qed

section \<open>List updates\<close>

lemma chunk_set_remove:
  assumes "i < length ls" "lists_distinct ls"
  shows "chunk_set (ls[i := remove1 b (ls ! i)]) = chunk_set ls - {(i, b)}"
    "lists_distinct (ls[i := remove1 b (ls ! i)])"
  using assms by (auto simp: chunk_set_def lists_distinct_def nth_list_update split: if_splits)

lemma chunk_set_push:
  assumes "i < length ls" "lists_distinct ls" "(i, a) \<notin> chunk_set ls"
  shows "chunk_set (ls[i := a # ls ! i]) = insert (i, a) (chunk_set ls)"
    "lists_distinct (ls[i := a # ls ! i])"
  using assms by (auto simp: chunk_set_def lists_distinct_def nth_list_update split: if_splits)

lemma chunk_set_pop:
  assumes "i < length ls" "lists_distinct ls" "ls ! i \<noteq> []"
  shows "chunk_set (ls[i := tl (ls ! i)]) = chunk_set ls - {(i, hd (ls ! i))}"
    "lists_distinct (ls[i := tl (ls ! i)])" "(i, hd (ls ! i)) \<in> chunk_set ls"
proof -
  obtain x xs where x: "ls ! i = x # xs" using assms(3) by (cases "ls ! i") auto
  with assms(1,2) have "x \<notin> set xs" by (auto simp: lists_distinct_def dest!: spec [of _ i])
  with assms(1,2) x show "chunk_set (ls[i := tl (ls ! i)]) = chunk_set ls - {(i, hd (ls ! i))}"
    "lists_distinct (ls[i := tl (ls ! i)])" "(i, hd (ls ! i)) \<in> chunk_set ls"
    by (auto simp: chunk_set_def lists_distinct_def nth_list_update split: if_splits
        dest!: spec [of _ i])
qed

section \<open>The loops\<close>

lemma coalesce_loop_ok:
  assumes "in_hand (chunk_set ls) m i a" "lists_distinct ls" "coalesced (length ls) (chunk_set ls)"
    and "i < length ls"
  shows "\<exists>ls' m' b j. coalesce_loop ls m a i = Inr (ls', m', b) \<and> in_hand (chunk_set ls') m' j b \<and>
    lists_distinct ls' \<and> coalesced (length ls) (chunk_set ls') \<and> length ls' = length ls \<and>
    j < length ls \<and> (Suc j < length ls \<longrightarrow> (j, buddy_of j b) \<notin> chunk_set ls') \<and>
    block_of j b \<union> frames_of (chunk_set ls') = block_of i a \<union> frames_of (chunk_set ls) \<and>
    (\<forall>p. p \<notin> block_of i a \<union> frames_of (chunk_set ls) \<longrightarrow> m' p = m p)"
  using assms
proof (induction ls m a i rule: coalesce_loop.induct)
  case (1 ls m a i)
  from "1.prems"(1) have bd: "buddy m a = buddy_of i a"
    by (auto simp: in_hand_def buddy_def buddy_of_def dest: head_ok_order)
  show ?case
  proof (cases "Suc i < length ls \<and> (i, buddy_of i a) \<in> chunk_set ls")
    case False
    then have "coalesce_loop ls m a i = Inr (ls, m, a)"
      using "1.prems"(4) bd by (subst coalesce_loop.simps) (auto simp: Let_def chunk_set_def)
    with False "1.prems" show ?thesis by blast
  next
    case True
    let ?b = "buddy_of i a" and ?ls = "ls[i := remove1 (buddy_of i a) (ls ! i)]"
    let ?m = "m(max a (buddy_of i a) := Unused, min a (buddy_of i a) := FreeHead (Suc i))"
    note st = merge_step_ok [OF "1.prems"(1) conjunct2 [OF True]]
    note cs = chunk_set_remove [OF "1.prems"(4,2), of ?b]
    have co: "coalesced (length ?ls) (chunk_set ?ls)"
      using coalesced_subset [OF "1.prems"(3)] by (simp add: cs(1))
    have run: "coalesce_loop ls m a i = coalesce_loop ?ls ?m (min a ?b) (i + 1)"
      using True bd st(1) by (subst coalesce_loop.simps) (simp add: chunk_set_def Let_def)
    have ne: "\<not> length ls \<le> i + 1" and mem: "?b \<in> set (ls ! i)" and i1: "i + 1 < length ?ls"
      using True by (auto simp: chunk_set_def)
    have ih: "in_hand (chunk_set ?ls) ?m (i + 1) (min a ?b)" using st(2) by (simp add: cs(1))
    from "1.IH" [OF ne bd [symmetric] mem st(1) refl ih cs(2) co i1] obtain ls' m' b j where
      IH: "coalesce_loop ?ls ?m (min a ?b) (i + 1) = Inr (ls', m', b)" "in_hand (chunk_set ls') m' j b"
      "lists_distinct ls'" "coalesced (length ?ls) (chunk_set ls')" "length ls' = length ?ls" "j < length ?ls"
      "Suc j < length ?ls \<longrightarrow> (j, buddy_of j b) \<notin> chunk_set ls'"
      "block_of j b \<union> frames_of (chunk_set ls') =
        block_of (i + 1) (min a ?b) \<union> frames_of (chunk_set ?ls)"
      "\<forall>p. p \<notin> block_of (i + 1) (min a ?b) \<union> frames_of (chunk_set ?ls) \<longrightarrow> m' p = ?m p"
      by blast
    have all: "block_of (i + 1) (min a ?b) \<union> frames_of (chunk_set ?ls) =
        block_of i a \<union> frames_of (chunk_set ls)" using st(3) by (simp add: cs(1))
    have "m' p = m p" if p: "p \<notin> block_of i a \<union> frames_of (chunk_set ls)" for p
    proof -
      from p all have "p \<notin> block_of (Suc i) (min a ?b)" by (metis Suc_eq_plus1 UnI1)
      from st(4) [OF this] IH(9) p all show ?thesis by (metis (lifting))
    qed
    with IH(1-7) IH(8) [unfolded all] run show ?thesis
      by (intro exI [of _ ls'] exI [of _ m'] exI [of _ b] exI [of _ j]) (simp del: fun_upd_apply)
  qed
qed

lemma split_loop_ok:
  assumes "in_hand (chunk_set ls) m i a" "lists_distinct ls" "coalesced (length ls) (chunk_set ls)"
    and "order \<le> i" "i \<le> length ls"
  shows "\<exists>ls' m'. split_loop order i ls m a = Inr (ls', m', a) \<and> in_hand (chunk_set ls') m' order a \<and>
    lists_distinct ls' \<and> coalesced (length ls) (chunk_set ls') \<and> length ls' = length ls \<and>
    block_of order a \<union> frames_of (chunk_set ls') = block_of i a \<union> frames_of (chunk_set ls) \<and>
    (\<forall>p. p \<notin> block_of i a \<longrightarrow> m' p = m p)"
  using assms
proof (induction i arbitrary: ls m)
  case 0
  then show ?case by (subst split_loop.simps) auto
next
  case (Suc i)
  show ?case
  proof (cases "Suc i \<le> order")
    case True
    with Suc.prems show ?thesis by (subst split_loop.simps) auto
  next
    case False
    let ?r = "a + size_of_order i"
    let ?m = "m(a := FreeHead i, ?r := FreeHead i)" and ?ls = "ls[i := ?r # ls ! i]"
    note st = split_step_ok [OF Suc.prems(1)]
    note cs = chunk_set_push [OF Suc_le_lessD [OF Suc.prems(5)] Suc.prems(2) st(6)]
    have "chunks_ok (chunk_set ls) m" using Suc.prems(1) by (simp add: in_hand_def)
    from coalesced_insert [OF Suc.prems(3) this st(8)] st(7,9)
    have co: "coalesced (length ?ls) (chunk_set ?ls)" by (simp add: cs(1))
    have run: "split_loop order (Suc i) ls m a = split_loop order i ?ls ?m a"
      using False st(1,3) by (subst split_loop.simps) simp
    from Suc.IH [of ?ls ?m] st(2) cs co False Suc.prems(5) obtain ls' m' where
      IH: "split_loop order i ?ls ?m a = Inr (ls', m', a)" "in_hand (chunk_set ls') m' order a"
      "lists_distinct ls'" "coalesced (length ls) (chunk_set ls')" "length ls' = length ls"
      "block_of order a \<union> frames_of (chunk_set ls') =
        block_of i a \<union> frames_of (insert (i, ?r) (chunk_set ls))"
      "\<forall>p. p \<notin> block_of i a \<longrightarrow> m' p = ?m p"
      by (auto simp del: fun_upd_apply frames_of_insert)
    have "block_of i a \<subseteq> block_of (Suc i) a" by (auto simp: block_of_def size_of_order_Suc)
    then have "m' p = m p" if p: "p \<notin> block_of (Suc i) a" for p
      using st(5) [OF p] IH(7) p by (metis (lifting) subsetD)
    with IH run st(4) show ?thesis by (intro exI [of _ ls'] exI [of _ m']) simp
  qed
qed

section \<open>The invariant of a buddy set\<close>

definition free_frames :: "buddy_set \<Rightarrow> nat set" where
  "free_frames s = frames_of (chunk_set (lists s))"

definition buddy_ok :: "buddy_set \<Rightarrow> frame_meta \<Rightarrow> bool" where
  "buddy_ok s m \<longleftrightarrow> lists_distinct (lists s) \<and> chunks_ok (chunk_set (lists s)) m \<and>
     coalesced (length (lists s)) (chunk_set (lists s)) \<and>
     total_size s = card (free_frames s) \<and> free_frames s \<subseteq> {..<2 ^ 64 - 1}"

lemma buddy_ok_new_empty: "buddy_ok (new_empty n) m" "free_frames (new_empty n) = {}"
  "length (lists (new_empty n)) = n"
proof -
  have c: "chunk_set (lists (new_empty n)) = {}" by (auto simp: chunk_set_def new_empty_def)
  then show f: "free_frames (new_empty n) = {}" by (simp add: free_frames_def)
  show "length (lists (new_empty n)) = n" by (simp add: new_empty_def)
  show "buddy_ok (new_empty n) m"
    unfolding buddy_ok_def c f
    by (simp add: chunks_ok_def coalesced_def lists_distinct_def new_empty_def)
qed

lemma card_block: "card (block_of i a) = size_of_order i"
  by (simp add: block_of_def)

lemma finite_block: "finite (block_of i a)"
  by (simp add: block_of_def)

lemma finite_free_frames: "free_frames s \<subseteq> {..<2 ^ 64 - 1} \<Longrightarrow> finite (free_frames s)"
  using finite_subset by blast

lemma insert_chunk_ok:
  assumes ok: "buddy_ok s m" and order: "order < length (lists s)"
    and al: "size_of_order order dvd addr" and un: "all_unused m order addr"
    and dj: "block_of order addr \<inter> free_frames s = {}" and fit: "addr + size_of_order order < 2 ^ 64"
  shows "\<exists>s' m'. insert_chunk s m addr order = Inr (s', m') \<and> buddy_ok s' m' \<and>
    length (lists s') = length (lists s) \<and> free_frames s' = free_frames s \<union> block_of order addr \<and>
    (\<forall>p. p \<notin> free_frames s' \<longrightarrow> m' p = m p)"
proof -
  from ok have d: "lists_distinct (lists s)" and ck: "chunks_ok (chunk_set (lists s)) m"
    and co: "coalesced (length (lists s)) (chunk_set (lists s))"
    and tot: "total_size s = card (free_frames s)" "free_frames s \<subseteq> {..<2 ^ 64 - 1}"
    by (auto simp: buddy_ok_def)
  note fin = finite_free_frames [OF tot(2)]
  let ?m = "m(addr := FreeHead order)"
  note fu = from_unused_ok [OF al un]
  have "\<forall>p\<in>frames_of (chunk_set (lists s)). ?m p = m p"
    using dj addr_in_block [of addr order] by (metis disjoint_iff free_frames_def fun_upd_other)
  then have "chunks_ok (chunk_set (lists s)) ?m" using chunks_ok_subset [OF ck order.refl] by blast
  with al fu(2) dj have h: "in_hand (chunk_set (lists s)) ?m order addr"
    by (simp add: in_hand_def free_frames_def)
  from coalesce_loop_ok [OF h d co order] obtain ls' m' b j where
    L: "coalesce_loop (lists s) ?m addr order = Inr (ls', m', b)" "in_hand (chunk_set ls') m' j b"
      "lists_distinct ls'" "coalesced (length (lists s)) (chunk_set ls')" "length ls' = length (lists s)"
      "j < length (lists s)" "Suc j < length (lists s) \<longrightarrow> (j, buddy_of j b) \<notin> chunk_set ls'"
      "block_of j b \<union> frames_of (chunk_set ls') = block_of order addr \<union> free_frames s"
      "\<forall>p. p \<notin> block_of order addr \<union> free_frames s \<longrightarrow> m' p = ?m p"
    by (auto simp: free_frames_def simp del: fun_upd_apply)
  from L(2) have hj: "chunk_order m' b = j" "size_of_order j dvd b" "chunks_ok (chunk_set ls') m'"
    and djb: "block_of j b \<inter> frames_of (chunk_set ls') = {}" by (auto simp: in_hand_def head_ok_order)
  have "(j, b) \<notin> chunk_set ls'" using djb frames_ofI [of j b _ b] addr_in_block by blast
  note cs = chunk_set_push [OF _ L(3) this, unfolded L(5), OF L(6)]
  let ?s = "s\<lparr>total_size := total_size s + size_of_order order, lists := ls'[j := b # ls' ! j]\<rparr>"
  have fr: "free_frames ?s = free_frames s \<union> block_of order addr"
    using L(8) by (auto simp: free_frames_def cs(1))
  have card: "card (free_frames ?s) = total_size s + size_of_order order"
    using card_Un_disjoint [OF fin finite_block, of order addr] dj tot(1)
    by (subst fr) (simp add: card_block Int_commute)
  have bnd: "free_frames ?s \<subseteq> {..<2 ^ 64 - 1}" unfolding fr using tot(2) fit by (auto simp: block_of_def)
  from card_mono [OF _ bnd] card have "total_size s + size_of_order order < 2 ^ 64" by simp
  then have run: "insert_chunk s m addr order = Inr (?s, m')"
    using order fu head_ok_order [OF fu(2)] L(1,5,6) hj(1)
    by (simp add: insert_chunk_def Let_def del: fun_upd_apply)
  have "coalesced (length (lists ?s)) (chunk_set (lists ?s))"
    using coalesced_insert [OF L(4) hj(3,2)] L(5,7) by (simp add: cs(1))
  moreover have "chunks_ok (chunk_set (lists ?s)) m'" using chunks_ok_insert [OF L(2)] by (simp add: cs(1))
  ultimately have "buddy_ok ?s m'" using cs(2) card bnd by (simp add: buddy_ok_def)
  moreover have "m' p = m p" if "p \<notin> free_frames ?s" for p
    using that L(9) fr addr_in_block [of addr order] by auto
  ultimately show ?thesis using run fr L(5) by (intro exI [of _ ?s] exI [of _ m']) simp
qed

text \<open>By coalescing, a free block always lies inside one free chunk.\<close>

lemma free_block_in_chunk:
  assumes ok: "chunks_ok C m" and co: "coalesced n C" and k: "k < n" "size_of_order k dvd b"
    and sub: "block_of k b \<subseteq> frames_of C"
  shows "\<exists>j a. (j, a) \<in> C \<and> k \<le> j \<and> block_of k b \<subseteq> block_of j a"
proof (rule ccontr)
  assume no: "\<not> ?thesis"
  let ?S = "\<lambda>i. \<exists>a. (i, a) \<in> C \<and> block_of i a \<subseteq> block_of k b"
  have small: "j < k \<and> block_of j a \<subseteq> block_of k b"
    if "(j, a) \<in> C" "p \<in> block_of j a" "p \<in> block_of k b" for j a p
  proof -
    have int: "block_of j a \<inter> block_of k b \<noteq> {}" using that by blast
    note al = chunks_okD(1) [OF ok that(1)]
    show ?thesis
    proof (cases "k \<le> j")
      case True
      with blocks_nested [OF True k(2) al] int no that(1) show ?thesis by blast
    next
      case False
      then show ?thesis using blocks_nested [OF _ al k(2) int] by simp
    qed
  qed
  from sub obtain j a where "(j, a) \<in> C" "b \<in> block_of j a"
    using addr_in_block [of b k] unfolding frames_of_def by blast
  with small [OF this] have "?S j" by auto
  then have i: "?S (LEAST i. ?S i)" by (rule LeastI)
  define i where "i = (LEAST i. ?S i)"
  have least: "\<And>j. ?S j \<Longrightarrow> i \<le> j" unfolding i_def by (rule Least_le)
  from i [folded i_def] obtain a where a: "(i, a) \<in> C" "block_of i a \<subseteq> block_of k b" by blast
  then have ik: "i < k" using small [OF a(1) addr_in_block] addr_in_block by blast
  note al = chunks_okD(1) [OF ok a(1)]
  note c = buddy_of_cases [OF al]
  let ?b = "buddy_of i a" and ?lo = "min a (buddy_of i a)"
  have blk: "block_of (Suc i) ?lo = block_of i a \<union> block_of i ?b" using c(5) by simp
  have "block_of (Suc i) ?lo \<subseteq> block_of k b"
    using blocks_nested [OF _ c(4) k(2)] ik a(2) blk addr_in_block [of a i] by (metis Int_iff Suc_leI UnI1 empty_iff subsetD)
  then have bb: "?b \<in> block_of k b" using blk by auto
  with sub obtain j d where d: "(j, d) \<in> C" "?b \<in> block_of j d" unfolding frames_of_def by blast
  from small [OF d bb] d(1) have "?S j" by blast
  from least [OF this] have "i \<le> j" .
  moreover have "i \<noteq> j"
  proof
    assume eq: "i = j"
    have "size_of_order i dvd d" using chunks_okD(1) [OF ok d(1)] eq by simp
    from blocks_same_order [OF c(1) this] d(2) eq addr_in_block have "?b = d" by blast
    with co a(1) d(1) eq ik k(1) show False by (auto simp: coalesced_def)
  qed
  ultimately have "Suc i \<le> j" by simp
  from blocks_nested [OF this c(4) chunks_okD(1) [OF ok d(1)]] blk d(2) addr_in_block
  have "a \<in> block_of j d" by blast
  with chunks_ok_disjoint [OF ok a(1) d(1) addr_in_block] \<open>i \<noteq> j\<close> show False by simp
qed

lemma alloc_chunk_ok:
  assumes ok: "buddy_ok s m"
  shows "\<exists>res s' m'. alloc_chunk s m order = Inr (res, s', m') \<and> buddy_ok s' m' \<and>
    length (lists s') = length (lists s) \<and>
    (case res of
       None \<Rightarrow> s' = s \<and> m' = m \<and> (\<forall>j a. (j, a) \<in> chunk_set (lists s) \<longrightarrow> j < order)
     | Some addr \<Rightarrow> size_of_order order dvd addr \<and> block_of order addr \<subseteq> free_frames s \<and>
         free_frames s' = free_frames s - block_of order addr \<and> all_unused m' order addr \<and>
         order < length (lists s) \<and> (\<forall>p. p \<notin> free_frames s \<longrightarrow> m' p = m p))"
proof -
  from ok have d: "lists_distinct (lists s)" and ck: "chunks_ok (chunk_set (lists s)) m"
    and co: "coalesced (length (lists s)) (chunk_set (lists s))"
    and tot: "total_size s = card (free_frames s)" "free_frames s \<subseteq> {..<2 ^ 64 - 1}"
    by (auto simp: buddy_ok_def)
  note fin = finite_free_frames [OF tot(2)]
  show ?thesis
  proof (cases "find (\<lambda>i. lists s ! i \<noteq> []) [order..<length (lists s)]")
    case None
    have "j < order" if "(j, a) \<in> chunk_set (lists s)" for j a
    proof (rule ccontr)
      assume "\<not> j < order"
      with that have "order \<le> j \<and> j < length (lists s)" "lists s ! j \<noteq> []"
        by (auto simp: chunk_set_def)
      with None show False unfolding find_upt_None by blast
    qed
    with None ok show ?thesis by (simp add: alloc_chunk_def)
  next
    case (Some n)
    then have n: "order \<le> n" "n < length (lists s)" "lists s ! n \<noteq> []" by (auto simp: find_upt_Some)
    let ?a = "hd (lists s ! n)" and ?ls = "(lists s)[n := tl (lists s ! n)]"
    note pop = chunk_set_pop [OF n(2) d n(3)]
    have h: "in_hand (chunk_set ?ls) m n ?a" using in_hand_remove [OF ck pop(3)] by (simp add: pop(1))
    have co': "coalesced (length ?ls) (chunk_set ?ls)" using coalesced_subset [OF co] by (simp add: pop(1))
    from n(2) have "n \<le> length ?ls" by simp
    from split_loop_ok [OF h pop(2) co' n(1) this] obtain ls' m' where
      L: "split_loop order n ?ls m ?a = Inr (ls', m', ?a)" "in_hand (chunk_set ls') m' order ?a"
        "lists_distinct ls'" "coalesced (length ?ls) (chunk_set ls')" "length ls' = length ?ls"
        "block_of order ?a \<union> frames_of (chunk_set ls') = block_of n ?a \<union> frames_of (chunk_set ?ls)"
        "\<forall>p. p \<notin> block_of n ?a \<longrightarrow> m' p = m p" by blast
    have hd: "chunk_order m ?a = n" using h by (auto simp: in_hand_def dest: head_ok_order)
    have nb: "block_of n ?a \<subseteq> free_frames s" using pop(3) by (auto simp: free_frames_def intro: frames_ofI)
    have all: "block_of order ?a \<union> frames_of (chunk_set ls') = free_frames s"
      using L(6) frames_of_remove [OF ck pop(3)] nb by (auto simp: pop(1) free_frames_def)
    from L(2) have dj: "block_of order ?a \<inter> frames_of (chunk_set ls') = {}"
      and al: "size_of_order order dvd ?a" and ck': "chunks_ok (chunk_set ls') m'"
      and ho: "head_ok m' order ?a" by (auto simp: in_hand_def)
    let ?m = "reset_as_unused m' ?a"
    let ?s = "s\<lparr>total_size := total_size s - size_of_order order, lists := ls'\<rparr>"
    have sub: "block_of order ?a \<subseteq> free_frames s" using all by blast
    have fr: "free_frames ?s = free_frames s - block_of order ?a"
      using all dj by (auto simp: free_frames_def)
    have "size_of_order order \<le> total_size s" using card_mono [OF fin sub] tot(1) by (simp add: card_block)
    then have run: "alloc_chunk s m order = Inr (Some ?a, ?s, ?m)"
      using Some hd L(1) by (simp add: alloc_chunk_def Let_def)
    have "chunks_ok (chunk_set ls') ?m"
    proof (rule chunks_ok_subset [OF ck' order.refl], intro ballI)
      fix p assume "p \<in> frames_of (chunk_set ls')"
      with dj addr_in_block [of ?a order] have "p \<noteq> ?a" by blast
      then show "?m p = m' p" by (simp add: reset_as_unused_def)
    qed
    then have "buddy_ok ?s ?m"
      using L(3,4,5) fr card_Diff_subset [OF finite_block sub] tot
      by (auto simp: buddy_ok_def card_block)
    moreover have "all_unused ?m order ?a" using ho by (auto simp: all_unused_def head_ok_def reset_as_unused_def)
    moreover have "?m p = m p" if "p \<notin> free_frames s" for p
    proof -
      from that nb have "p \<notin> block_of n ?a" "p \<noteq> ?a" using addr_in_block [of ?a n] by blast+
      with L(7) show ?thesis by (simp add: reset_as_unused_def)
    qed
    ultimately show ?thesis
      using run al sub fr n L(5) by (intro exI [of _ "Some ?a"] exI [of _ ?s] exI [of _ ?m]) simp
  qed
qed

lemma alloc_chunk_none:
  assumes ok: "buddy_ok s m" and order: "order < length (lists s)"
    and none: "alloc_chunk s m order = Inr (None, s', m')" and al: "size_of_order order dvd a"
  shows "\<not> block_of order a \<subseteq> free_frames s"
proof
  assume "block_of order a \<subseteq> free_frames s"
  with free_block_in_chunk [OF _ _ order al, of "chunk_set (lists s)" m] ok
  obtain j b where "(j, b) \<in> chunk_set (lists s)" "order \<le> j"
    by (auto simp: buddy_ok_def free_frames_def)
  with alloc_chunk_ok [OF ok, of order] none show False by fastforce
qed

section \<open>The contract of a frame pool\<close>

text \<open>Every law names the part of the metadata an operation may touch, so that several pools can
  share the table.\<close>

locale frame_pool =
  fixes ins :: "'s \<Rightarrow> frame_meta \<Rightarrow> nat \<Rightarrow> nat \<Rightarrow> ('s \<times> frame_meta) result"
    and alloc :: "'s \<Rightarrow> frame_meta \<Rightarrow> nat \<Rightarrow> (nat option \<times> 's \<times> frame_meta) result"
    and frames :: "'s \<Rightarrow> nat set"
    and orders :: "'s \<Rightarrow> nat"
    and invar :: "'s \<Rightarrow> frame_meta \<Rightarrow> bool"
  assumes bounded: "invar s m \<Longrightarrow> frames s \<subseteq> {..<2 ^ 64 - 1}"
    and local_meta: "invar s m \<Longrightarrow> \<forall>p\<in>frames s. m' p = m p \<Longrightarrow> invar s m'"
    and ins_law: "invar s m \<Longrightarrow> k < orders s \<Longrightarrow> size_of_order k dvd a \<Longrightarrow> all_unused m k a \<Longrightarrow>
      block_of k a \<inter> frames s = {} \<Longrightarrow> a + size_of_order k < 2 ^ 64 \<Longrightarrow>
      \<exists>s' m'. ins s m a k = Inr (s', m') \<and> invar s' m' \<and> orders s' = orders s \<and>
        frames s' = frames s \<union> block_of k a \<and> (\<forall>p. p \<notin> frames s' \<longrightarrow> m' p = m p)"
    and alloc_law: "invar s m \<Longrightarrow>
      \<exists>res s' m'. alloc s m k = Inr (res, s', m') \<and> invar s' m' \<and> orders s' = orders s \<and>
        (case res of
           None \<Rightarrow> s' = s \<and> m' = m
         | Some a \<Rightarrow> size_of_order k dvd a \<and> block_of k a \<subseteq> frames s \<and>
             frames s' = frames s - block_of k a \<and> all_unused m' k a \<and> k < orders s \<and>
             (\<forall>p. p \<notin> frames s \<longrightarrow> m' p = m p))"
begin

text \<open>Inserting chunks that tile a range adds the range.\<close>

lemma insert_tile:
  assumes "chunks_tile lo cs hi" "invar s m" "\<forall>(a, k)\<in>set cs. k < orders s"
    and "\<forall>p\<in>{lo..<hi}. PAGE_SIZE dvd p \<longrightarrow> m p = Unused" "{lo..<hi} \<inter> frames s = {}" "hi < 2 ^ 64"
  shows "\<exists>s' m'. rfold (\<lambda>(a, k) (s, m). ins s m a k) cs (s, m) = Inr (s', m') \<and> invar s' m' \<and>
    orders s' = orders s \<and> frames s' = frames s \<union> {lo..<hi} \<and> (\<forall>p. p \<notin> frames s' \<longrightarrow> m' p = m p)"
  using assms
proof (induction lo cs hi arbitrary: s m rule: chunks_tile.induct)
  case (2 lo a k cs hi)
  let ?mid = "lo + size_of_order k"
  from "2.prems"(1) have a: "a = lo" "size_of_order k dvd lo" and tile: "chunks_tile ?mid cs hi" by auto
  note le = chunks_tile_le [OF tile]
  have blk: "{lo..<hi} = block_of k lo \<union> {?mid..<hi}" "block_of k lo \<inter> {?mid..<hi} = {}"
    using le by (auto simp: block_of_def)
  have un: "all_unused m k lo" using "2.prems"(4) blk(1) by (auto simp: all_unused_def)
  have dj: "block_of k lo \<inter> frames s = {}" using "2.prems"(5) blk(1) by auto
  have fit: "lo + size_of_order k < 2 ^ 64" using le "2.prems"(6) by simp
  from ins_law [OF "2.prems"(2) _ a(2) un dj fit] "2.prems"(3) obtain s1 m1 where
    s1: "ins s m lo k = Inr (s1, m1)" "invar s1 m1" "orders s1 = orders s"
      "frames s1 = frames s \<union> block_of k lo" "\<forall>p. p \<notin> frames s1 \<longrightarrow> m1 p = m p" by auto
  have dj1: "{?mid..<hi} \<inter> frames s1 = {}" using s1(4) "2.prems"(5) blk by auto
  have "\<forall>p\<in>{?mid..<hi}. PAGE_SIZE dvd p \<longrightarrow> m1 p = Unused"
    using "2.prems"(4) blk(1) dj1 s1(5) by (metis Un_iff disjoint_iff)
  from "2.IH" [OF tile s1(2) _ this dj1 "2.prems"(6)] "2.prems"(3) s1(3) obtain s' m' where
    s': "rfold (\<lambda>(a, k) (s, m). ins s m a k) cs (s1, m1) = Inr (s', m')" "invar s' m'"
      "orders s' = orders s" "frames s' = frames s1 \<union> {?mid..<hi}"
      "\<forall>p. p \<notin> frames s' \<longrightarrow> m' p = m1 p" by auto
  moreover have "frames s' = frames s \<union> {lo..<hi}" using s'(4) s1(4) blk(1) by auto
  moreover have "\<forall>p. p \<notin> frames s' \<longrightarrow> m' p = m p" using s'(4,5) s1(5) by auto
  ultimately show ?case using s1(1) a(1) by simp
qed auto

text \<open>What is taken from one pool can be given to another that shares the table.\<close>

lemma alloc_other:
  assumes "invar s m" "invar t m" "frames s \<inter> frames t = {}" "alloc s m k = Inr (Some a, s', m')"
  shows "invar s' m'" "invar t m'" "size_of_order k dvd a" "block_of k a \<subseteq> frames s"
    "frames s' = frames s - block_of k a" "all_unused m' k a" "orders s' = orders s" "k < orders s"
    "a + size_of_order k < 2 ^ 64" "\<forall>p. p \<notin> frames s \<longrightarrow> m' p = m p"
proof -
  from alloc_law [OF assms(1), of k] assms(4)
  show r: "invar s' m'" "size_of_order k dvd a" "block_of k a \<subseteq> frames s"
    "frames s' = frames s - block_of k a" "all_unused m' k a" "orders s' = orders s" "k < orders s"
    "\<forall>p. p \<notin> frames s \<longrightarrow> m' p = m p" by auto
  from r(8) assms(3) show "invar t m'" by (intro local_meta [OF assms(2)]) blast
  have "a + size_of_order k - 1 \<in> block_of k a"
    using size_of_order_pos [of k] unfolding block_of_def atLeastLessThan_iff by linarith
  with r(3) bounded [OF assms(1)] have "a + size_of_order k - 1 < 2 ^ 64 - 1" by blast
  then show "a + size_of_order k < 2 ^ 64" by simp
qed

end

lemma buddy_ok_local:
  assumes "buddy_ok s m" "\<forall>p\<in>free_frames s. m' p = m p"
  shows "buddy_ok s m'"
  using assms chunks_ok_subset [OF _ order.refl, of "chunk_set (lists s)" m m']
  by (auto simp: buddy_ok_def free_frames_def)

interpretation bs: frame_pool insert_chunk alloc_chunk free_frames "\<lambda>s. length (lists s)" buddy_ok
proof
  fix s m m' assume ok: "buddy_ok s m"
  show "free_frames s \<subseteq> {..<2 ^ 64 - 1}" using ok by (simp add: buddy_ok_def)
  show "buddy_ok s m'" if "\<forall>p\<in>free_frames s. m' p = m p" using buddy_ok_local [OF ok that] .
  fix k
  show "\<exists>res s' m'. alloc_chunk s m k = Inr (res, s', m') \<and> buddy_ok s' m' \<and>
      length (lists s') = length (lists s) \<and>
      (case res of
         None \<Rightarrow> s' = s \<and> m' = m
       | Some a \<Rightarrow> size_of_order k dvd a \<and> block_of k a \<subseteq> free_frames s \<and>
           free_frames s' = free_frames s - block_of k a \<and> all_unused m' k a \<and> k < length (lists s) \<and>
           (\<forall>p. p \<notin> free_frames s \<longrightarrow> m' p = m p))"
    using alloc_chunk_ok [OF ok, of k] by (fastforce split: option.splits)
qed (rule insert_chunk_ok)

section \<open>Properties\<close>

text \<open>C15. Inserting an aligned run of unused frames that are not in the set never panics, adds
  exactly those frames, and keeps the invariant: chunks are aligned and disjoint, their metadata
  is consistent, no two buddies below the largest order are both free, and \<open>total_size\<close> is the
  number of free bytes. Metadata outside the set is untouched.\<close>

theorem insert_chunk_correct:
  assumes "buddy_ok s m" "order < length (lists s)" "size_of_order order dvd addr"
    and "all_unused m order addr" "block_of order addr \<inter> free_frames s = {}"
    and "addr + size_of_order order < 2 ^ 64"
  shows "\<exists>s' m'. insert_chunk s m addr order = Inr (s', m') \<and> buddy_ok s' m' \<and>
    free_frames s' = free_frames s \<union> block_of order addr \<and>
    total_size s' = total_size s + size_of_order order \<and>
    (\<forall>p. p \<notin> free_frames s' \<longrightarrow> m' p = m p)"
proof -
  from insert_chunk_ok [OF assms] obtain s' m' where
    s': "insert_chunk s m addr order = Inr (s', m')" "buddy_ok s' m'"
      "free_frames s' = free_frames s \<union> block_of order addr" "\<forall>p. p \<notin> free_frames s' \<longrightarrow> m' p = m p"
    by blast
  have "finite (free_frames s)" using bs.bounded [OF assms(1)] finite_subset by blast
  from card_Un_disjoint [OF this finite_block] assms(5) s'(3)
  have "card (free_frames s') = card (free_frames s) + size_of_order order"
    by (simp add: card_block Int_commute)
  with s' assms(1) show ?thesis by (auto simp: buddy_ok_def)
qed

theorem insert_chunk_correct_witness:
  "\<exists>s' m'. insert_chunk (new_empty 3) (\<lambda>_. Unused) 0 1 = Inr (s', m') \<and> buddy_ok s' m' \<and>
     free_frames s' = block_of 1 0"
  using insert_chunk_correct [OF buddy_ok_new_empty(1), of 1 3 0 "\<lambda>_. Unused"]
  by (auto simp: buddy_ok_new_empty all_unused_def size_of_order_pow)

text \<open>C14. \<open>alloc_chunk\<close> never panics. It returns an aligned block of the requested order all of
  whose frames were free and are free no more, with all their metadata unused; and it returns
  \<open>None\<close> exactly when no aligned block of that order is free, so coalescing leaves no
  fragmentation behind.\<close>

theorem alloc_chunk_correct:
  assumes ok: "buddy_ok s m" and order: "order < length (lists s)"
  shows "\<exists>res s' m'. alloc_chunk s m order = Inr (res, s', m') \<and> buddy_ok s' m' \<and>
    (case res of
       None \<Rightarrow> s' = s \<and> m' = m
     | Some addr \<Rightarrow> size_of_order order dvd addr \<and> block_of order addr \<subseteq> free_frames s \<and>
         free_frames s' = free_frames s - block_of order addr \<and> all_unused m' order addr) \<and>
    (res = None \<longleftrightarrow>
       (\<forall>a. size_of_order order dvd a \<longrightarrow> \<not> block_of order a \<subseteq> free_frames s))"
proof -
  from alloc_chunk_ok [OF ok, of order] obtain res s' m' where
    run: "alloc_chunk s m order = Inr (res, s', m')" "buddy_ok s' m'" and
    res: "case res of
       None \<Rightarrow> s' = s \<and> m' = m \<and> (\<forall>j a. (j, a) \<in> chunk_set (lists s) \<longrightarrow> j < order)
     | Some addr \<Rightarrow> size_of_order order dvd addr \<and> block_of order addr \<subseteq> free_frames s \<and>
         free_frames s' = free_frames s - block_of order addr \<and> all_unused m' order addr \<and>
         order < length (lists s) \<and> (\<forall>p. p \<notin> free_frames s \<longrightarrow> m' p = m p)" by blast
  show ?thesis
  proof (cases res)
    case None
    with alloc_chunk_none [OF ok order] run(1)
    have "\<forall>a. size_of_order order dvd a \<longrightarrow> \<not> block_of order a \<subseteq> free_frames s" by blast
    with run res None show ?thesis by auto
  next
    case (Some addr)
    with run res show ?thesis by auto
  qed
qed

theorem alloc_chunk_correct_witness:
  "\<exists>res s' m'. alloc_chunk (new_empty 3) (\<lambda>_. Unused) 1 = Inr (res, s', m') \<and> buddy_ok s' m' \<and>
     (res = None \<longleftrightarrow> (\<forall>a. size_of_order 1 dvd a \<longrightarrow> \<not> block_of 1 a \<subseteq> free_frames (new_empty 3)))"
  using alloc_chunk_correct [OF buddy_ok_new_empty(1), of 1 3 "\<lambda>_. Unused"]
  by (auto simp: buddy_ok_new_empty(3))

end
