(* ===== verification/Frame_Pools.thy ===== *)
theory Frame_Pools
  imports Buddy_Set
begin

text \<open>
  The pools of the frame allocator, \<open>osxdk/deps/frame-allocator/src/pools/mod.rs\<close> and
  \<open>pools/balancing.rs\<close>: a pool of free chunks per CPU, a global pool, and the balancing between
  the pool of the current CPU and the global pool after every operation.

  An operation runs with local interrupts disabled; the global pool is locked on demand and stays
  locked until the operation ends. \<open>pool_op\<close> is the state of one operation: the local pool, the
  global pool, whether its lock is held, and the frame metadata. \<open>num_cpus\<close> is the number of
  local pools.
\<close>

definition MAX_BUDDY_ORDER :: nat where
  "MAX_BUDDY_ORDER = 32"

definition MAX_LOCAL_BUDDY_ORDER :: nat where
  "MAX_LOCAL_BUDDY_ORDER = 18"

record pools =
  local_pools :: "buddy_set list"
  global_pool :: buddy_set
  global_pool_size :: nat
  frame_table :: frame_meta

record pool_op =
  lp :: buddy_set
  gp :: buddy_set
  locked :: bool
  fm :: frame_meta

section \<open>The on-demand lock\<close>

definition lock_new :: "pools \<Rightarrow> nat \<Rightarrow> pool_op" where
  "lock_new st cpu =
     \<lparr>lp = local_pools st ! cpu, gp = global_pool st, locked = False, fm = frame_table st\<rparr>"

definition update_global_size_if_locked :: "pools \<Rightarrow> nat \<Rightarrow> pool_op \<Rightarrow> pools" where
  "update_global_size_if_locked st cpu op =
     st\<lparr>local_pools := (local_pools st)[cpu := lp op], global_pool := gp op,
        global_pool_size := (if locked op then total_size (gp op) else global_pool_size st),
        frame_table := fm op\<rparr>"

definition get_global_size :: "pools \<Rightarrow> pool_op \<Rightarrow> nat" where
  "get_global_size st op = (if locked op then total_size (gp op) else global_pool_size st)"

section \<open>Balancing\<close>

definition cache_expected_size :: "nat \<Rightarrow> nat \<Rightarrow> nat" where
  "cache_expected_size num_cpus global_size = global_size div num_cpus div 2"

definition cache_minimal_size :: "nat \<Rightarrow> nat \<Rightarrow> nat" where
  "cache_minimal_size num_cpus global_size = cache_expected_size num_cpus global_size div 8"

definition cache_maximal_size :: "nat \<Rightarrow> nat \<Rightarrow> nat" where
  "cache_maximal_size num_cpus global_size = cache_expected_size num_cpus global_size * 2"

fun balance_to ::
  "buddy_set \<Rightarrow> buddy_set \<Rightarrow> frame_meta \<Rightarrow> nat \<Rightarrow> (buddy_set \<times> buddy_set \<times> frame_meta) result" where
  "balance_to a b m order =
     rbind (alloc_chunk a m order) (\<lambda>(res, a1, m1).
       case res of
         Some addr \<Rightarrow>
           if order \<ge> length (lists b) then
             let inserted_order = length (lists b) - 1 in
             rbind (split_to_order addr order inserted_order) (\<lambda>addrs.
             rbind (rfold (\<lambda>(addr, k) (b, m). insert_chunk b m addr k)
                     (map (\<lambda>addr. (addr, inserted_order)) addrs) (b, m1)) (\<lambda>(b1, m2).
               Inr (a1, b1, m2)))
           else rbind (insert_chunk b m1 addr order) (\<lambda>(b1, m2). Inr (a1, b1, m2))
       | None \<Rightarrow>
           if order > 1 then
             rbind (balance_to a1 b m1 (order - 1)) (\<lambda>(a2, b2, m2).
               balance_to a2 b2 m2 (order - 1))
           else Inr (a1, b, m1))"

declare balance_to.simps [simp del]

definition balance :: "pools \<Rightarrow> pool_op \<Rightarrow> pool_op result" where
  "balance st op =
     (let n = length (local_pools st);
          global_size = get_global_size st op;
          minimal_local_size = cache_minimal_size n global_size;
          expected_local_size = cache_expected_size n global_size;
          maximal_local_size = cache_maximal_size n global_size;
          local_size = total_size (lp op)
      in if local_size \<ge> maximal_local_size then
           if local_size = 0 then Inr op
           else rbind (usub local_size expected_local_size) (\<lambda>expected_removal.
                rbind (lesser_order_of expected_removal) (\<lambda>lesser_order.
                rbind (balance_to (lp op) (gp op) (fm op) lesser_order) (\<lambda>(l, g, m).
                  Inr (op\<lparr>lp := l, gp := g, locked := True, fm := m\<rparr>))))
         else if local_size < minimal_local_size then
           if global_size = 0 then Inr op
           else rbind (usub expected_local_size local_size) (\<lambda>expected_allocation.
                rbind (lesser_order_of expected_allocation) (\<lambda>lesser_order.
                rbind (balance_to (gp op) (lp op) (fm op) lesser_order) (\<lambda>(g, l, m).
                  Inr (op\<lparr>lp := l, gp := g, locked := True, fm := m\<rparr>))))
         else Inr op)"

section \<open>Allocation and deallocation\<close>

definition dealloc_chunk :: "nat \<times> nat \<Rightarrow> pool_op \<Rightarrow> pool_op result" where
  "dealloc_chunk = (\<lambda>(addr, order) op.
     if order \<ge> MAX_LOCAL_BUDDY_ORDER
     then rbind (insert_chunk (gp op) (fm op) addr order) (\<lambda>(g, m).
            Inr (op\<lparr>gp := g, locked := True, fm := m\<rparr>))
     else rbind (insert_chunk (lp op) (fm op) addr order) (\<lambda>(l, m).
            Inr (op\<lparr>lp := l, fm := m\<rparr>)))"

definition do_dealloc :: "(nat \<times> nat) list \<Rightarrow> pool_op \<Rightarrow> pool_op result" where
  "do_dealloc =
     rfold (\<lambda>(addr, sz) op. rbind (split_to_chunks addr sz) (\<lambda>cs. rfold dealloc_chunk cs op))"

text \<open>A layout is its size and alignment.\<close>

definition pools_alloc :: "pools \<Rightarrow> nat \<Rightarrow> nat \<times> nat \<Rightarrow> (nat option \<times> pools) result" where
  "pools_alloc st cpu layout =
     (let (sz, align) = layout;
          op = lock_new st cpu;
          order = max (greater_order_of sz) (greater_order_of align);
          allocated_size = size_of_order order
      in
      rbind (if order < MAX_LOCAL_BUDDY_ORDER
             then rbind (alloc_chunk (lp op) (fm op) order) (\<lambda>(r, l, m).
                    Inr (r, op\<lparr>lp := l, fm := m\<rparr>))
             else Inr (None, op)) (\<lambda>(chunk_addr, op1).
      rbind (if chunk_addr = None
             then rbind (alloc_chunk (gp op1) (fm op1) order) (\<lambda>(r, g, m).
                    Inr (r, op1\<lparr>gp := g, locked := True, fm := m\<rparr>))
             else Inr (chunk_addr, op1)) (\<lambda>(chunk_addr, op2).
      rbind (case chunk_addr of
               Some addr \<Rightarrow>
                 if allocated_size > sz
                 then do_dealloc [(addr + sz, allocated_size - sz)] op2 else Inr op2
             | None \<Rightarrow> Inr op2) (\<lambda>op3.
      rbind (balance st op3) (\<lambda>op4.
        Inr (chunk_addr, update_global_size_if_locked st cpu op4))))))"

definition pools_dealloc :: "pools \<Rightarrow> nat \<Rightarrow> (nat \<times> nat) list \<Rightarrow> pools result" where
  "pools_dealloc st cpu segments =
     rbind (do_dealloc segments (lock_new st cpu)) (\<lambda>op1.
     rbind (balance st op1) (\<lambda>op2.
       Inr (update_global_size_if_locked st cpu op2)))"

definition add_free_memory :: "pools \<Rightarrow> nat \<Rightarrow> nat \<Rightarrow> nat \<Rightarrow> pools result" where
  "add_free_memory st cpu addr sz =
     rbind (split_to_chunks addr sz) (\<lambda>cs.
     rbind (rfold (\<lambda>(addr, order) op.
              rbind (insert_chunk (gp op) (fm op) addr order) (\<lambda>(g, m).
                Inr (op\<lparr>gp := g, locked := True, fm := m\<rparr>))) cs (lock_new st cpu)) (\<lambda>op.
       Inr (update_global_size_if_locked st cpu op)))"

section \<open>Moving chunks between two pools\<close>

text \<open>The two pools of an operation: valid, disjoint, and sharing the metadata.\<close>

definition two_pools :: "buddy_set \<Rightarrow> buddy_set \<Rightarrow> frame_meta \<Rightarrow> bool" where
  "two_pools a b m \<longleftrightarrow> buddy_ok a m \<and> buddy_ok b m \<and> free_frames a \<inter> free_frames b = {} \<and>
     0 < length (lists a) \<and> 0 < length (lists b)"

lemma split_to_order_tile:
  assumes "size_of_order order dvd addr" "k \<le> order"
  shows "\<exists>addrs. split_to_order addr order k = Inr addrs \<and>
    chunks_tile addr (map (\<lambda>a. (a, k)) addrs) (addr + size_of_order order)"
proof -
  have k: "size_of_order k dvd addr" using assms size_of_order_dvd dvd_trans by blast
  have "chunks_tile (addr + size_of_order k * i) (map (\<lambda>j. (addr + size_of_order k * j, k)) [i..<n])
      (addr + size_of_order k * n)" if "i \<le> n" for i n
    using that
  proof (induction "n - i" arbitrary: i)
    case (Suc d)
    then have "i < n" by simp
    moreover have "chunks_tile (addr + size_of_order k * Suc i)
        (map (\<lambda>j. (addr + size_of_order k * j, k)) [Suc i..<n]) (addr + size_of_order k * n)"
      using Suc by (intro Suc(1)) auto
    ultimately show ?case using k by (simp add: upt_conv_Cons algebra_simps)
  qed auto
  from this [of 0 "2 ^ (order - k)"]
  have "chunks_tile addr (map (\<lambda>j. (addr + size_of_order k * j, k)) [0..<2 ^ (order - k)])
      (addr + size_of_order k * 2 ^ (order - k))" by simp
  moreover have "size_of_order k * 2 ^ (order - k) = size_of_order order"
    using assms(2) by (simp add: size_of_order_def flip: power_add)
  ultimately show ?thesis using assms by (simp add: split_to_order_def dvd_eq_mod_eq_0 comp_def)
qed

lemma two_pools_insert:
  assumes tp: "two_pools a b m" and tile: "chunks_tile lo cs hi"
    and ord: "\<forall>(p, k)\<in>set cs. k < length (lists b)"
    and un: "\<forall>p\<in>{lo..<hi}. PAGE_SIZE dvd p \<longrightarrow> m p = Unused"
    and dj: "{lo..<hi} \<inter> (free_frames a \<union> free_frames b) = {}" and hi: "hi < 2 ^ 64"
  shows "\<exists>b' m'. rfold (\<lambda>(p, k) (b, m). insert_chunk b m p k) cs (b, m) = Inr (b', m') \<and>
    two_pools a b' m' \<and> length (lists b') = length (lists b) \<and>
    free_frames b' = free_frames b \<union> {lo..<hi} \<and>
    (\<forall>p. p \<notin> free_frames b' \<longrightarrow> m' p = m p)"
proof -
  from tp have b: "buddy_ok b m" by (simp add: two_pools_def)
  from dj have "{lo..<hi} \<inter> free_frames b = {}" by blast
  from bs.insert_tile [OF tile b ord un this hi] obtain b' m' where
    r: "rfold (\<lambda>(p, k) (b, m). insert_chunk b m p k) cs (b, m) = Inr (b', m')" "buddy_ok b' m'"
      "length (lists b') = length (lists b)" "free_frames b' = free_frames b \<union> {lo..<hi}"
      "\<forall>p. p \<notin> free_frames b' \<longrightarrow> m' p = m p" by blast
  have dj': "free_frames a \<inter> free_frames b' = {}" using tp dj r(4) by (auto simp: two_pools_def)
  moreover have "buddy_ok a m'"
  proof (rule bs.local_meta)
    show "buddy_ok a m" using tp by (simp add: two_pools_def)
    show "\<forall>p\<in>free_frames a. m' p = m p" using r(5) dj' by blast
  qed
  ultimately show ?thesis using tp r by (auto simp: two_pools_def)
qed

lemma two_pools_sym: "two_pools a b m \<Longrightarrow> two_pools b a m"
  by (auto simp: two_pools_def)

text \<open>Balancing moves frames: the union is unchanged, nothing else is touched.\<close>

lemma balance_to_ok:
  assumes "two_pools a b m"
  shows "\<exists>a' b' m'. balance_to a b m order = Inr (a', b', m') \<and> two_pools a' b' m' \<and>
    length (lists a') = length (lists a) \<and> length (lists b') = length (lists b) \<and>
    free_frames a' \<union> free_frames b' = free_frames a \<union> free_frames b \<and>
    (\<forall>p. p \<notin> free_frames a \<union> free_frames b \<longrightarrow> m' p = m p)"
  using assms
proof (induction order arbitrary: a b m rule: less_induct)
  case (less order)
  let ?all = "free_frames a \<union> free_frames b"
  from less.prems have tp: "buddy_ok a m" "buddy_ok b m" "free_frames a \<inter> free_frames b = {}"
    by (auto simp: two_pools_def)
  from bs.alloc_law [OF tp(1), of order] obtain res a1 m1 where
    al: "alloc_chunk a m order = Inr (res, a1, m1)" "buddy_ok a1 m1" "length (lists a1) = length (lists a)"
      "res = None \<Longrightarrow> a1 = a \<and> m1 = m" by (auto split: option.splits)
  show ?case
  proof (cases res)
    case None
    show ?thesis
    proof (cases "order > 1")
      case False
      with al None less.prems show ?thesis by (subst balance_to.simps) auto
    next
      case True
      from less.IH [OF _ less.prems, of "order - 1"] True obtain a2 b2 m2 where
        r2: "balance_to a b m (order - 1) = Inr (a2, b2, m2)" "two_pools a2 b2 m2"
          "length (lists a2) = length (lists a)" "length (lists b2) = length (lists b)"
          "free_frames a2 \<union> free_frames b2 = ?all" "\<forall>p. p \<notin> ?all \<longrightarrow> m2 p = m p" by auto
      from less.IH [OF _ r2(2), of "order - 1"] True obtain a3 b3 m3 where
        r3: "balance_to a2 b2 m2 (order - 1) = Inr (a3, b3, m3)" "two_pools a3 b3 m3"
          "length (lists a3) = length (lists a)" "length (lists b3) = length (lists b)"
          "free_frames a3 \<union> free_frames b3 = ?all" "\<forall>p. p \<notin> ?all \<longrightarrow> m3 p = m2 p"
        using r2(3,4,5) by auto
      have "balance_to a b m order = Inr (a3, b3, m3)"
        using al None True r2(1) r3(1) by (subst balance_to.simps) simp
      with r3 r2(6) show ?thesis by auto
    qed
  next
    case (Some addr)
    note o = bs.alloc_other [OF tp al(1) [unfolded Some]]
    have blk: "block_of order addr = {addr..<addr + size_of_order order}" by (simp add: block_of_def)
    have tp1: "two_pools a1 b m1" using less.prems o(1,2,5,7) by (auto simp: two_pools_def)
    have un: "\<forall>p\<in>{addr..<addr + size_of_order order}. PAGE_SIZE dvd p \<longrightarrow> m1 p = Unused"
      using o(6) by (simp add: all_unused_def blk)
    have dj: "{addr..<addr + size_of_order order} \<inter> (free_frames a1 \<union> free_frames b) = {}"
      using o(4,5) tp(3) blk by blast
    note ins = two_pools_insert [OF tp1 _ _ un dj o(9)]
    obtain cs b' m' where cs:
      "(if order \<ge> length (lists b) then
          rbind (split_to_order addr order (length (lists b) - 1)) (\<lambda>addrs.
            Inr (map (\<lambda>addr. (addr, length (lists b) - 1)) addrs))
        else Inr [(addr, order)]) = Inr cs"
      "rfold (\<lambda>(p, k) (b, m). insert_chunk b m p k) cs (b, m1) = Inr (b', m')"
      "two_pools a1 b' m'" "length (lists b') = length (lists b)"
      "free_frames b' = free_frames b \<union> block_of order addr" "\<forall>p. p \<notin> free_frames b' \<longrightarrow> m' p = m1 p"
    proof (cases "order \<ge> length (lists b)")
      case True
      then have "length (lists b) - 1 \<le> order" by simp
      from split_to_order_tile [OF o(3) this] obtain addrs where
        "split_to_order addr order (length (lists b) - 1) = Inr addrs"
        "chunks_tile addr (map (\<lambda>a. (a, length (lists b) - 1)) addrs) (addr + size_of_order order)" by auto
      with ins [OF this(2)] less.prems True blk that show thesis by (auto simp: two_pools_def)
    next
      case False
      have "chunks_tile addr [(addr, order)] (addr + size_of_order order)" using o(3) by simp
      with ins [OF this] False blk that show thesis by auto
    qed
    have run: "balance_to a b m order = Inr (a1, b', m')"
      using al(1) Some cs(1,2)
      by (subst balance_to.simps)
        (auto simp: Let_def rbind_eq_Inr rbind_def split: if_splits sum.splits prod.splits)
    have "free_frames a1 \<union> free_frames b' = ?all" using cs(5) o(4,5) by blast
    moreover have "\<forall>p. p \<notin> ?all \<longrightarrow> m' p = m p" using cs(5,6) o(4,10) by auto
    ultimately show ?thesis using run cs(3,4) al(3) by auto
  qed
qed

section \<open>One operation\<close>

definition op_ok :: "pool_op \<Rightarrow> bool" where
  "op_ok op \<longleftrightarrow> two_pools (lp op) (gp op) (fm op) \<and>
     length (lists (lp op)) = MAX_LOCAL_BUDDY_ORDER \<and> length (lists (gp op)) = MAX_BUDDY_ORDER"

definition op_free :: "pool_op \<Rightarrow> nat set" where
  "op_free op = free_frames (lp op) \<union> free_frames (gp op)"

text \<open>\<open>op_inv st F op\<close>: the pools of the operation are valid, the global pool is the one of \<open>st\<close>
  unless it is locked, and only frames in \<open>F\<close> have been touched.\<close>

definition op_inv :: "pools \<Rightarrow> nat set \<Rightarrow> pool_op \<Rightarrow> bool" where
  "op_inv st F op \<longleftrightarrow> op_ok op \<and> (\<not> locked op \<longrightarrow> gp op = global_pool st) \<and> op_free op \<subseteq> F \<and>
     (\<forall>p. p \<notin> F \<longrightarrow> fm op p = frame_table st p)"

lemma op_inv_touch:
  assumes "op_inv st F op" "op_ok op'" "op_free op' \<subseteq> F"
    and "\<not> locked op' \<Longrightarrow> gp op' = gp op \<and> \<not> locked op"
    and "\<And>p. p \<notin> F \<Longrightarrow> fm op' p = fm op p"
  shows "op_inv st F op'"
  using assms by (auto simp: op_inv_def)

lemma total_bound: "buddy_ok s m \<Longrightarrow> total_size s < 2 ^ 64"
  using card_mono [of "{..<2 ^ 64 - 1}" "free_frames s"] by (auto simp: buddy_ok_def)

lemma total_mono: "buddy_ok s m \<Longrightarrow> buddy_ok t m' \<Longrightarrow> free_frames s \<subseteq> free_frames t \<Longrightarrow>
    total_size s \<le> total_size t"
  using card_mono [of "free_frames t" "free_frames s"] finite_free_frames [of t]
  by (auto simp: buddy_ok_def)

definition balance_safe :: "nat \<Rightarrow> nat \<Rightarrow> nat \<Rightarrow> bool" where
  "balance_safe n local_size global_size \<longleftrightarrow>
     (let e = cache_expected_size n global_size in
      (local_size \<ge> cache_maximal_size n global_size \<longrightarrow> local_size \<noteq> 0 \<longrightarrow>
         PAGE_SIZE \<le> local_size - e) \<and>
      (local_size < cache_minimal_size n global_size \<longrightarrow> PAGE_SIZE \<le> e - local_size))"

lemma balance_ok:
  assumes inv: "op_inv st F op" and gs: "get_global_size st op = total_size (gp op)"
    and safe: "balance_safe (length (local_pools st)) (total_size (lp op)) (total_size (gp op))"
  shows "\<exists>op'. balance st op = Inr op' \<and> op_inv st F op' \<and> op_free op' = op_free op \<and>
    (\<forall>p. p \<notin> op_free op \<longrightarrow> fm op' p = fm op p)"
proof -
  let ?n = "length (local_pools st)" and ?l = "total_size (lp op)" and ?g = "total_size (gp op)"
  let ?e = "cache_expected_size ?n ?g"
  from inv have ok: "op_ok op" and tp: "two_pools (lp op) (gp op) (fm op)"
    by (auto simp: op_inv_def op_ok_def)
  have lt: "?l < 2 ^ 64" "?g < 2 ^ 64" using tp total_bound by (auto simp: two_pools_def)
  have "?e \<le> ?g" unfolding cache_expected_size_def by (meson div_le_dividend order_trans)
  with lt have bnd: "?l - ?e < 2 ^ 64" "?e - ?l < 2 ^ 64" by simp_all
  have to: "\<exists>op'. (rbind (lesser_order_of d) (\<lambda>lesser_order.
      rbind (balance_to (lp op) (gp op) (fm op) lesser_order) (\<lambda>(l, g, m).
        Inr (op\<lparr>lp := l, gp := g, locked := True, fm := m\<rparr>)))) = Inr op' \<and>
      op_inv st F op' \<and> op_free op' = op_free op \<and>
      (\<forall>p. p \<notin> op_free op \<longrightarrow> fm op' p = fm op p)" if d: "PAGE_SIZE \<le> d" "d < 2 ^ 64" for d
  proof -
    from lesser_order_of_spec [OF d(2,1)] obtain k where "lesser_order_of d = Inr k" by blast
    moreover obtain l g m where r: "balance_to (lp op) (gp op) (fm op) k = Inr (l, g, m)" "two_pools l g m"
      "length (lists l) = length (lists (lp op))" "length (lists g) = length (lists (gp op))"
      "free_frames l \<union> free_frames g = op_free op" "\<forall>p. p \<notin> op_free op \<longrightarrow> m p = fm op p"
      using balance_to_ok [OF tp, of k] by (auto simp: op_free_def)
    ultimately show ?thesis using inv by (auto simp: op_inv_def op_ok_def op_free_def)
  qed
  have fro: "\<exists>op'. (rbind (lesser_order_of d) (\<lambda>lesser_order.
      rbind (balance_to (gp op) (lp op) (fm op) lesser_order) (\<lambda>(g, l, m).
        Inr (op\<lparr>lp := l, gp := g, locked := True, fm := m\<rparr>)))) = Inr op' \<and>
      op_inv st F op' \<and> op_free op' = op_free op \<and>
      (\<forall>p. p \<notin> op_free op \<longrightarrow> fm op' p = fm op p)" if d: "PAGE_SIZE \<le> d" "d < 2 ^ 64" for d
  proof -
    from lesser_order_of_spec [OF d(2,1)] obtain k where "lesser_order_of d = Inr k" by blast
    moreover obtain l g m where r: "balance_to (gp op) (lp op) (fm op) k = Inr (g, l, m)" "two_pools g l m"
      "length (lists l) = length (lists (lp op))" "length (lists g) = length (lists (gp op))"
      "free_frames g \<union> free_frames l = op_free op" "\<forall>p. p \<notin> op_free op \<longrightarrow> m p = fm op p"
      using balance_to_ok [OF two_pools_sym [OF tp], of k] by (auto simp: op_free_def Un_commute)
    ultimately show ?thesis using inv two_pools_sym [OF r(2)] by (auto simp: op_inv_def op_ok_def op_free_def)
  qed
  show ?thesis
  proof (cases "?l \<ge> cache_maximal_size ?n ?g")
    case True
    then have "?e \<le> ?l" by (simp add: cache_maximal_size_def)
    with True gs safe to [of "?l - ?e"] bnd inv show ?thesis
      by (cases "?l = 0") (simp_all add: balance_def Let_def balance_safe_def)
  next
    case False
    then have "?l \<le> ?e \<or> \<not> ?l < cache_minimal_size ?n ?g"
      by (auto simp: cache_minimal_size_def)
    with False gs safe fro [of "?e - ?l"] bnd inv show ?thesis
      by (cases "?l < cache_minimal_size ?n ?g"; cases "?g = 0")
        (auto simp: balance_def Let_def balance_safe_def)
  qed
qed

lemma balance_unsafe:
  assumes "get_global_size st op = total_size (gp op)"
    and "\<not> balance_safe (length (local_pools st)) (total_size (lp op)) (total_size (gp op))"
  shows "balance st op = Inl Panic"
proof -
  let ?n = "length (local_pools st)" and ?l = "total_size (lp op)" and ?g = "total_size (gp op)"
  let ?e = "cache_expected_size ?n ?g"
  show ?thesis
  proof (cases "?l \<ge> cache_maximal_size ?n ?g")
    case True
    then have "?e \<le> ?l" "\<not> ?l < cache_minimal_size ?n ?g"
      by (auto simp: cache_maximal_size_def cache_minimal_size_def)
    with True assms show ?thesis
      by (auto simp: balance_def Let_def balance_safe_def lesser_order_of_underflow)
  next
    case False
    with assms(2) have l: "?l < cache_minimal_size ?n ?g" "?e - ?l < PAGE_SIZE"
      by (auto simp: balance_safe_def Let_def)
    then have "?l \<le> ?e" "?g \<noteq> 0"
      by (auto simp: cache_minimal_size_def cache_expected_size_def intro!: gr0I)
    with l False assms(1) show ?thesis
      by (simp add: balance_def Let_def lesser_order_of_underflow)
  qed
qed

text \<open>Four free pages per CPU in the global pool are enough.\<close>

lemma balance_safe_room:
  assumes "4 * n * PAGE_SIZE \<le> g" "0 < n"
  shows "balance_safe n l g"
proof -
  have "4 * n * PAGE_SIZE div n div 2 \<le> g div n div 2" using assms(1) by (intro div_le_mono)
  moreover have "4 * n * PAGE_SIZE div n div 2 = 2 * PAGE_SIZE" using assms(2) by simp
  ultimately have e: "2 * PAGE_SIZE \<le> cache_expected_size n g" by (simp add: cache_expected_size_def)
  let ?e = "cache_expected_size n g"
  have "?e div 8 * 8 \<le> ?e" by simp
  with e show ?thesis
    by (auto simp: balance_safe_def Let_def cache_maximal_size_def cache_minimal_size_def)
qed

lemma dealloc_tile:
  assumes "chunks_tile lo cs hi" "op_inv st F op" "\<forall>(a, k)\<in>set cs. k < MAX_BUDDY_ORDER"
    and "\<forall>p\<in>{lo..<hi}. PAGE_SIZE dvd p \<longrightarrow> fm op p = Unused" "{lo..<hi} \<inter> op_free op = {}" "hi < 2 ^ 64"
    and "{lo..<hi} \<subseteq> F"
  shows "\<exists>op'. rfold dealloc_chunk cs op = Inr op' \<and> op_inv st F op' \<and>
    op_free op' = op_free op \<union> {lo..<hi} \<and> free_frames (gp op) \<subseteq> free_frames (gp op') \<and>
    (\<forall>p. p \<notin> op_free op' \<longrightarrow> fm op' p = fm op p)"
  using assms
proof (induction lo cs hi arbitrary: op rule: chunks_tile.induct)
  case (2 lo a k cs hi)
  let ?mid = "lo + size_of_order k"
  from "2.prems"(1) have a: "a = lo" "size_of_order k dvd lo" and tile: "chunks_tile ?mid cs hi" by auto
  note le = chunks_tile_le [OF tile]
  have split: "{lo..<hi} = {lo..<?mid} \<union> {?mid..<hi}" using le by auto
  from "2.prems"(2) have tp: "two_pools (lp op) (gp op) (fm op)"
    and len: "length (lists (lp op)) = MAX_LOCAL_BUDDY_ORDER" "length (lists (gp op)) = MAX_BUDDY_ORDER"
    by (auto simp: op_inv_def op_ok_def)
  have one: "chunks_tile lo [(lo, k)] ?mid" using a by simp
  have un: "\<forall>p\<in>{lo..<?mid}. PAGE_SIZE dvd p \<longrightarrow> fm op p = Unused" using "2.prems"(4) split by blast
  have dj: "{lo..<?mid} \<inter> (free_frames (lp op) \<union> free_frames (gp op)) = {}"
    "{lo..<?mid} \<inter> (free_frames (gp op) \<union> free_frames (lp op)) = {}"
    using "2.prems"(5) split by (auto simp: op_free_def)
  have mid: "?mid < 2 ^ 64" using le "2.prems"(6) by simp
  obtain op1 where op1: "dealloc_chunk (a, k) op = Inr op1" "op_inv st F op1"
    "op_free op1 = op_free op \<union> {lo..<?mid}" "free_frames (gp op) \<subseteq> free_frames (gp op1)"
    "\<forall>p. p \<notin> op_free op1 \<longrightarrow> fm op1 p = fm op p"
  proof (cases "k \<ge> MAX_LOCAL_BUDDY_ORDER")
    case True
    from two_pools_insert [OF tp one _ un dj(1) mid] "2.prems"(3) len obtain b' m' where
      "insert_chunk (gp op) (fm op) lo k = Inr (b', m')" "two_pools (lp op) b' m'"
      "length (lists b') = length (lists (gp op))" "free_frames b' = free_frames (gp op) \<union> {lo..<?mid}"
      "\<forall>p. p \<notin> free_frames b' \<longrightarrow> m' p = fm op p" by (auto simp: rbind_eq_Inr)
    note r = this
    let ?op = "op\<lparr>gp := b', locked := True, fm := m'\<rparr>"
    have fr: "op_free ?op = op_free op \<union> {lo..<?mid}" using r(4) by (auto simp: op_free_def)
    with "2.prems"(2,7) split have F: "op_free ?op \<subseteq> F" by (auto simp: op_inv_def)
    have "op_inv st F ?op"
      using r(2,3,5) len F by (intro op_inv_touch [OF "2.prems"(2)]) (auto simp: op_ok_def op_free_def)
    with True a r fr show thesis
      by (intro that [of ?op]) (auto simp: dealloc_chunk_def op_free_def)
  next
    case False
    with two_pools_insert [OF two_pools_sym [OF tp] one _ un dj(2) mid] len obtain b' m' where
      "insert_chunk (lp op) (fm op) lo k = Inr (b', m')" "two_pools (gp op) b' m'"
      "length (lists b') = length (lists (lp op))" "free_frames b' = free_frames (lp op) \<union> {lo..<?mid}"
      "\<forall>p. p \<notin> free_frames b' \<longrightarrow> m' p = fm op p" by (auto simp: rbind_eq_Inr)
    note r = this
    let ?op = "op\<lparr>lp := b', fm := m'\<rparr>"
    have fr: "op_free ?op = op_free op \<union> {lo..<?mid}" using r(4) by (auto simp: op_free_def)
    with "2.prems"(2,7) split have F: "op_free ?op \<subseteq> F" by (auto simp: op_inv_def)
    have "op_inv st F ?op"
      using r(3,5) two_pools_sym [OF r(2)] len F
      by (intro op_inv_touch [OF "2.prems"(2)]) (auto simp: op_ok_def op_free_def)
    with False a r fr show thesis
      by (intro that [of ?op]) (auto simp: dealloc_chunk_def op_free_def)
  qed
  have dj1: "{?mid..<hi} \<inter> op_free op1 = {}" using op1(3) "2.prems"(5) split by auto
  have un1: "\<forall>p\<in>{?mid..<hi}. PAGE_SIZE dvd p \<longrightarrow> fm op1 p = Unused"
    using "2.prems"(4) split dj1 op1(5) by (metis Un_iff disjoint_iff)
  from "2.prems"(3,7) split have rest: "\<forall>(a, k)\<in>set cs. k < MAX_BUDDY_ORDER" "{?mid..<hi} \<subseteq> F" by auto
  from "2.IH" [OF tile op1(2) rest(1) un1 dj1 "2.prems"(6) rest(2)] obtain op' where
    "rfold dealloc_chunk cs op1 = Inr op'" "op_inv st F op'" "op_free op' = op_free op1 \<union> {?mid..<hi}"
    "free_frames (gp op1) \<subseteq> free_frames (gp op')" "\<forall>p. p \<notin> op_free op' \<longrightarrow> fm op' p = fm op1 p" by blast
  with op1 split show ?case by (intro exI [of _ op']) auto
qed auto

text \<open>The segments a caller may give back: page-aligned, below 8 TiB each, not free, unused and
  pairwise disjoint.\<close>

definition seg_set :: "nat \<times> nat \<Rightarrow> nat set" where
  "seg_set = (\<lambda>(addr, sz). {addr..<addr + sz})"

definition segs_set :: "(nat \<times> nat) list \<Rightarrow> nat set" where
  "segs_set segs = (\<Union>seg\<in>set segs. seg_set seg)"

lemma segs_set_simps [simp]:
  "segs_set [] = {}" "segs_set (seg # segs) = seg_set seg \<union> segs_set segs"
  by (auto simp: segs_set_def)

fun segs_ok :: "(nat \<times> nat) list \<Rightarrow> bool" where
  "segs_ok [] \<longleftrightarrow> True"
| "segs_ok ((addr, sz) # segs) \<longleftrightarrow> PAGE_SIZE dvd addr \<and> PAGE_SIZE dvd sz \<and> addr + sz < 2 ^ 64 \<and>
     sz < size_of_order MAX_BUDDY_ORDER \<and> seg_set (addr, sz) \<inter> segs_set segs = {} \<and> segs_ok segs"

definition unused_in :: "frame_meta \<Rightarrow> nat set \<Rightarrow> bool" where
  "unused_in m R \<longleftrightarrow> (\<forall>p\<in>R. PAGE_SIZE dvd p \<longrightarrow> m p = Unused)"

lemma split_orders_bounded:
  assumes "chunks_tile addr cs (addr + sz)" "sz < size_of_order n" "(a, k) \<in> set cs"
  shows "k < n"
proof (rule ccontr)
  assume "\<not> k < n"
  then have "size_of_order n \<le> size_of_order k" by (intro size_of_order_le) simp
  with chunks_tile_mem [OF assms(1,3)] assms(2) show False by simp
qed

lemma do_dealloc_ok:
  assumes "segs_ok segs" "op_inv st F op" "unused_in (fm op) (segs_set segs)"
    and "segs_set segs \<inter> op_free op = {}" "segs_set segs \<subseteq> F"
  shows "\<exists>op'. do_dealloc segs op = Inr op' \<and> op_inv st F op' \<and>
    op_free op' = op_free op \<union> segs_set segs \<and> free_frames (gp op) \<subseteq> free_frames (gp op') \<and>
    (\<forall>p. p \<notin> op_free op' \<longrightarrow> fm op' p = fm op p)"
  using assms
proof (induction segs arbitrary: op rule: segs_ok.induct)
  case 1
  then show ?case by (auto simp: do_dealloc_def)
next
  case (2 addr sz segs)
  let ?R = "{addr..<addr + sz}"
  from "2.prems"(1) have al: "PAGE_SIZE dvd addr" "PAGE_SIZE dvd sz" "addr + sz < 2 ^ 64"
    "sz < size_of_order MAX_BUDDY_ORDER" and dj: "?R \<inter> segs_set segs = {}" and ok: "segs_ok segs"
    by (auto simp: seg_set_def)
  from split_chunks_tile [OF al(1-3)] obtain cs where
    cs: "split_chunks addr sz = Inr cs" "chunks_tile addr cs (addr + sz)" by blast
  have run: "split_to_chunks addr sz = Inr cs"
    using cs(1) al(1,2) by (simp add: split_to_chunks_def dvd_eq_mod_eq_0)
  have ord: "\<forall>(a, k)\<in>set cs. k < MAX_BUDDY_ORDER"
    using split_orders_bounded [OF cs(2) al(4)] by blast
  have un: "\<forall>p\<in>?R. PAGE_SIZE dvd p \<longrightarrow> fm op p = Unused"
    using "2.prems"(3) by (auto simp: unused_in_def seg_set_def)
  have fr: "?R \<inter> op_free op = {}" "?R \<subseteq> F"
    using "2.prems"(4,5) unfolding segs_set_simps seg_set_def by auto
  from dealloc_tile [OF cs(2) "2.prems"(2) ord un fr(1) al(3) fr(2)] obtain op1 where
    op1: "rfold dealloc_chunk cs op = Inr op1" "op_inv st F op1" "op_free op1 = op_free op \<union> ?R"
      "free_frames (gp op) \<subseteq> free_frames (gp op1)" "\<forall>p. p \<notin> op_free op1 \<longrightarrow> fm op1 p = fm op p" by blast
  have dj1: "segs_set segs \<inter> op_free op1 = {}" "segs_set segs \<subseteq> F"
    using "2.prems"(4,5) dj op1(3) unfolding segs_set_simps by auto
  have un1: "unused_in (fm op1) (segs_set segs)"
    unfolding unused_in_def
  proof (intro ballI impI)
    fix p assume p: "p \<in> segs_set segs" "PAGE_SIZE dvd p"
    with dj1(1) op1(5) have "fm op1 p = fm op p" by blast
    with "2.prems"(3) p show "fm op1 p = Unused" by (simp add: unused_in_def)
  qed
  from "2.IH" [OF ok op1(2) un1 dj1] obtain op' where
    "do_dealloc segs op1 = Inr op'" "op_inv st F op'" "op_free op' = op_free op1 \<union> segs_set segs"
    "free_frames (gp op1) \<subseteq> free_frames (gp op')" "\<forall>p. p \<notin> op_free op' \<longrightarrow> fm op' p = fm op1 p" by blast
  with op1 run show ?case
    by (intro exI [of _ op']) (auto simp: do_dealloc_def seg_set_def)
qed

section \<open>The pools of all CPUs\<close>

definition pools_free :: "pools \<Rightarrow> nat set" where
  "pools_free st = (\<Union>l\<in>set (local_pools st). free_frames l) \<union> free_frames (global_pool st)"

definition pools_ok :: "pools \<Rightarrow> bool" where
  "pools_ok st \<longleftrightarrow> local_pools st \<noteq> [] \<and>
     (\<forall>l\<in>set (local_pools st). buddy_ok l (frame_table st) \<and>
        length (lists l) = MAX_LOCAL_BUDDY_ORDER \<and> free_frames l \<inter> free_frames (global_pool st) = {}) \<and>
     buddy_ok (global_pool st) (frame_table st) \<and> length (lists (global_pool st)) = MAX_BUDDY_ORDER \<and>
     (\<forall>i j. i < j \<longrightarrow> j < length (local_pools st) \<longrightarrow>
        free_frames (local_pools st ! i) \<inter> free_frames (local_pools st ! j) = {}) \<and>
     global_pool_size st = total_size (global_pool st)"

lemma lock_new_inv:
  assumes "pools_ok st" "cpu < length (local_pools st)"
  shows "op_inv st (op_free (lock_new st cpu) \<union> R) (lock_new st cpu)" "op_free (lock_new st cpu) \<subseteq> pools_free st"
proof -
  note mem = nth_mem [OF assms(2)]
  with assms(1) have "buddy_ok (local_pools st ! cpu) (frame_table st)"
    "length (lists (local_pools st ! cpu)) = MAX_LOCAL_BUDDY_ORDER"
    "free_frames (local_pools st ! cpu) \<inter> free_frames (global_pool st) = {}"
    "buddy_ok (global_pool st) (frame_table st)" "length (lists (global_pool st)) = MAX_BUDDY_ORDER"
    by (auto simp: pools_ok_def)
  then show "op_inv st (op_free (lock_new st cpu) \<union> R) (lock_new st cpu)"
    by (simp add: op_inv_def op_ok_def two_pools_def lock_new_def MAX_LOCAL_BUDDY_ORDER_def
        MAX_BUDDY_ORDER_def)
  show "op_free (lock_new st cpu) \<subseteq> pools_free st"
    using mem by (auto simp: op_free_def lock_new_def pools_free_def simp del: nth_mem)
qed

lemma other_pool_disjoint:
  assumes "pools_ok st" "i < length (local_pools st)" "j < length (local_pools st)" "i \<noteq> j"
  shows "free_frames (local_pools st ! i) \<inter> free_frames (local_pools st ! j) = {}"
  using assms unfolding pools_ok_def by (metis Int_commute linorder_neqE_nat)

lemma other_pool_op:
  assumes "pools_ok st" "i < length (local_pools st)" "cpu < length (local_pools st)" "i \<noteq> cpu"
  shows "free_frames (local_pools st ! i) \<inter> op_free (lock_new st cpu) = {}"
proof -
  from assms(1,2) have "free_frames (local_pools st ! i) \<inter> free_frames (global_pool st) = {}"
    unfolding pools_ok_def using nth_mem by blast
  with other_pool_disjoint [OF assms] show ?thesis by (auto simp: op_free_def lock_new_def)
qed

lemma global_size_exact:
  assumes "pools_ok st" "op_inv st F op"
  shows "get_global_size st op = total_size (gp op)"
  using assms by (auto simp: get_global_size_def pools_ok_def op_inv_def)

lemma update_ok:
  assumes ok: "pools_ok st" and cpu: "cpu < length (local_pools st)"
    and inv: "op_inv st (op_free (lock_new st cpu) \<union> R) op" and R: "R \<inter> pools_free st = {}"
  defines "st' \<equiv> update_global_size_if_locked st cpu op"
  shows "pools_ok st'"
    "pools_free st' = pools_free st - op_free (lock_new st cpu) \<union> op_free op"
    "\<forall>p. p \<notin> pools_free st \<union> R \<longrightarrow> frame_table st' p = frame_table st p"
proof -
  let ?L = "local_pools st" and ?F = "op_free (lock_new st cpu) \<union> R"
  have L': "local_pools st' = ?L[cpu := lp op]" "global_pool st' = gp op" "frame_table st' = fm op"
    "global_pool_size st' = (if locked op then total_size (gp op) else global_pool_size st)"
    by (simp_all add: st'_def update_global_size_if_locked_def)
  from inv have opok: "op_ok op" and sub: "op_free op \<subseteq> ?F"
    and m: "\<forall>p. p \<notin> ?F \<longrightarrow> fm op p = frame_table st p" by (auto simp: op_inv_def)
  have tp: "buddy_ok (lp op) (fm op)" "buddy_ok (gp op) (fm op)" "free_frames (lp op) \<inter> free_frames (gp op) = {}"
    "length (lists (lp op)) = MAX_LOCAL_BUDDY_ORDER" "length (lists (gp op)) = MAX_BUDDY_ORDER"
    using opok by (auto simp: op_ok_def two_pools_def)
  have in_free: "free_frames (?L ! i) \<subseteq> pools_free st" if "i < length ?L" for i
    using nth_mem [OF that] unfolding pools_free_def by blast
  have other: "free_frames (?L ! i) \<inter> ?F = {}" if "i < length ?L" "i \<noteq> cpu" for i
    using other_pool_op [OF ok that(1) cpu that(2)] in_free [OF that(1)] R by blast
  have other_ok: "buddy_ok (?L ! i) (fm op)" if "i < length ?L" "i \<noteq> cpu" for i
  proof (rule bs.local_meta)
    show "buddy_ok (?L ! i) (frame_table st)" using ok nth_mem [OF that(1)] by (auto simp: pools_ok_def)
    show "\<forall>p\<in>free_frames (?L ! i). fm op p = frame_table st p" using m other [OF that] by blast
  qed
  have elem: "\<exists>i < length ?L. l = (if i = cpu then lp op else ?L ! i)" if "l \<in> set (?L[cpu := lp op])" for l
    using that by (metis in_set_conv_nth length_list_update nth_list_update_eq nth_list_update_neq)
  have each: "buddy_ok l (fm op) \<and> length (lists l) = MAX_LOCAL_BUDDY_ORDER \<and>
      free_frames l \<inter> free_frames (gp op) = {}" if l: "l \<in> set (?L[cpu := lp op])" for l
  proof -
    from elem [OF l] obtain i where i: "i < length ?L" "l = (if i = cpu then lp op else ?L ! i)" by blast
    show ?thesis
    proof (cases "i = cpu")
      case True
      with i tp show ?thesis by simp
    next
      case False
      have "free_frames (?L ! i) \<inter> free_frames (gp op) = {}"
        using other [OF i(1) False] sub by (auto simp: op_free_def)
      moreover have "length (lists (?L ! i)) = MAX_LOCAL_BUDDY_ORDER"
        using ok nth_mem [OF i(1)] by (auto simp: pools_ok_def)
      ultimately show ?thesis using i False other_ok [OF i(1) False] by simp
    qed
  qed
  have pair: "free_frames (?L[cpu := lp op] ! i) \<inter> free_frames (?L[cpu := lp op] ! j) = {}"
    if ij: "i < j" "j < length ?L" for i j
  proof -
    have "free_frames (?L ! k) \<inter> free_frames (lp op) = {}" if "k < length ?L" "k \<noteq> cpu" for k
      using other [OF that] sub by (auto simp: op_free_def)
    note d = this other_pool_disjoint [OF ok, of i j]
    consider "i = cpu" "j \<noteq> cpu" | "j = cpu" "i \<noteq> cpu" | "i \<noteq> cpu" "j \<noteq> cpu" using ij by auto
    then show ?thesis
      using d ij cpu by cases (simp_all add: Int_commute)
  qed
  show "pools_ok st'"
    unfolding pools_ok_def L' using each pair tp ok inv cpu
    by (auto simp: op_inv_def pools_ok_def)
  show "pools_free st' = pools_free st - op_free (lock_new st cpu) \<union> op_free op"
  proof -
    have new: "(\<Union>l\<in>set (?L[cpu := lp op]). free_frames l) =
        (\<Union>i\<in>{..<length ?L} - {cpu}. free_frames (?L ! i)) \<union> free_frames (lp op)"
    proof -
      have "set (?L[cpu := lp op]) = (!) (?L[cpu := lp op]) ` {..<length ?L}"
        by (metis length_list_update list.set_map map_nth nth_image order_refl set_upt atLeast0LessThan take_all_iff)
      moreover have "{..<length ?L} = insert cpu ({..<length ?L} - {cpu})" using cpu by auto
      ultimately show ?thesis using cpu by (auto simp: nth_list_update)
    qed
    have old: "(\<Union>l\<in>set ?L. free_frames l) =
        (\<Union>i\<in>{..<length ?L} - {cpu}. free_frames (?L ! i)) \<union> free_frames (?L ! cpu)"
      using cpu by (auto simp: set_conv_nth)
    have "(\<Union>i\<in>{..<length ?L} - {cpu}. free_frames (?L ! i)) \<inter> op_free (lock_new st cpu) = {}"
      using other by blast
    then show ?thesis
      unfolding pools_free_def L' new old by (auto simp: op_free_def lock_new_def)
  qed
  show "\<forall>p. p \<notin> pools_free st \<union> R \<longrightarrow> frame_table st' p = frame_table st p"
    using m lock_new_inv(2) [OF ok cpu] by (auto simp: L')
qed

section \<open>Properties\<close>

text \<open>C31. Balancing returns unless a page or less is to be moved. When it returns, the free frames
  of the two pools are the same set as before, only distributed differently, and the pools stay
  valid. When the amount to move is below one page, \<open>lesser_order_of\<close> underflows and the
  operation panics.\<close>

theorem balance_exact:
  assumes ok: "pools_ok st" and inv: "op_inv st F op"
  shows "if balance_safe (length (local_pools st)) (total_size (lp op)) (total_size (gp op))
    then \<exists>op'. balance st op = Inr op' \<and> op_inv st F op' \<and> op_free op' = op_free op
    else balance st op = Inl Panic"
  using balance_ok [OF inv global_size_exact [OF ok inv]]
    balance_unsafe [OF global_size_exact [OF ok inv]] by auto

text \<open>A state for witnesses: one CPU, and a single free chunk at address 0 in the global pool.\<close>

definition single_chunk :: "nat \<Rightarrow> buddy_set" where
  "single_chunk k = \<lparr>total_size = size_of_order k, lists = (replicate MAX_BUDDY_ORDER [])[k := [0]]\<rparr>"

definition single_pools :: "nat \<Rightarrow> pools" where
  "single_pools k = \<lparr>local_pools = [new_empty MAX_LOCAL_BUDDY_ORDER], global_pool = single_chunk k,
     global_pool_size = size_of_order k, frame_table = (\<lambda>p. if p = 0 then FreeHead k else Unused)\<rparr>"

lemma single_chunk_ok:
  assumes "k < MAX_BUDDY_ORDER"
  shows "buddy_ok (single_chunk k) (\<lambda>p. if p = 0 then FreeHead k else Unused)"
    "free_frames (single_chunk k) = block_of k 0" "length (lists (single_chunk k)) = MAX_BUDDY_ORDER"
proof -
  have c: "chunk_set (lists (single_chunk k)) = {(k, 0)}"
    using assms by (auto simp: chunk_set_def single_chunk_def nth_list_update split: if_splits)
  then show f: "free_frames (single_chunk k) = block_of k 0"
    by (simp add: free_frames_def frames_of_def)
  show "length (lists (single_chunk k)) = MAX_BUDDY_ORDER" by (simp add: single_chunk_def)
  have "coalesced n {(k, 0)}" for n by (auto simp: coalesced_def buddy_of_def)
  moreover have "chunks_ok {(k, 0)} (\<lambda>p. if p = 0 then FreeHead k else Unused)"
    by (simp add: chunks_ok_def head_ok_def)
  moreover have "lists_distinct (lists (single_chunk k))"
    using assms by (auto simp: lists_distinct_def single_chunk_def nth_list_update)
  moreover have "block_of k 0 \<subseteq> {..<2 ^ 64 - 1}"
  proof -
    have "size_of_order k \<le> size_of_order 32"
      using assms by (intro size_of_order_le) (simp add: MAX_BUDDY_ORDER_def)
    then show ?thesis by (auto simp: block_of_def size_of_order_pow)
  qed
  ultimately show "buddy_ok (single_chunk k) (\<lambda>p. if p = 0 then FreeHead k else Unused)"
    unfolding buddy_ok_def c f by (simp add: single_chunk_def card_block)
qed

lemma single_pools_ok: "k < MAX_BUDDY_ORDER \<Longrightarrow> pools_ok (single_pools k)"
  using single_chunk_ok [of k] buddy_ok_new_empty [of MAX_LOCAL_BUDDY_ORDER]
  by (auto simp: pools_ok_def single_pools_def single_chunk_def)

lemma single_pools_simps:
  "length (local_pools (single_pools k)) = 1" "total_size (global_pool (single_pools k)) = size_of_order k"
  by (simp_all add: single_pools_def single_chunk_def)

theorem balance_exact_witness:
  "pools_ok (single_pools 0) \<and> balance (single_pools 0) (lock_new (single_pools 0) 0) = Inl Panic"
proof -
  let ?st = "single_pools 0"
  have ok: "pools_ok ?st" by (rule single_pools_ok) (simp add: MAX_BUDDY_ORDER_def)
  have "op_inv ?st (op_free (lock_new ?st 0) \<union> {}) (lock_new ?st 0)"
    using ok by (rule lock_new_inv(1)) (simp add: single_pools_simps)
  from balance_exact [OF ok this] ok show ?thesis
    by (simp add: balance_safe_def single_pools_def lock_new_def single_chunk_def new_empty_def
        cache_minimal_size_def cache_maximal_size_def cache_expected_size_def PAGE_SIZE_def
        size_of_order_def split: if_splits)
qed



section \<open>Allocation\<close>

text \<open>\<open>taken op op' k a\<close>: the chunk \<open>a\<close> of order \<open>k\<close> has left the pools.\<close>

definition taken :: "pool_op \<Rightarrow> pool_op \<Rightarrow> nat \<Rightarrow> nat \<Rightarrow> bool" where
  "taken op op' k a \<longleftrightarrow> size_of_order k dvd a \<and> block_of k a \<subseteq> op_free op \<and>
     op_free op' = op_free op - block_of k a \<and> all_unused (fm op') k a \<and> a + size_of_order k < 2 ^ 64 \<and>
     total_size (gp op) \<le> total_size (gp op') + size_of_order k"

lemma alloc_from_local:
  assumes inv: "op_inv st F op"
  shows "\<exists>r l m. alloc_chunk (lp op) (fm op) k = Inr (r, l, m) \<and> op_inv st F (op\<lparr>lp := l, fm := m\<rparr>) \<and>
    (case r of None \<Rightarrow> op\<lparr>lp := l, fm := m\<rparr> = op | Some a \<Rightarrow> taken op (op\<lparr>lp := l, fm := m\<rparr>) k a)"
proof -
  from inv have tp: "two_pools (lp op) (gp op) (fm op)" by (simp add: op_inv_def op_ok_def)
  then have t: "buddy_ok (lp op) (fm op)" "buddy_ok (gp op) (fm op)" "free_frames (lp op) \<inter> free_frames (gp op) = {}"
    by (auto simp: two_pools_def)
  from bs.alloc_law [OF t(1), of k] obtain r l m where
    al: "alloc_chunk (lp op) (fm op) k = Inr (r, l, m)" "r = None \<Longrightarrow> l = lp op \<and> m = fm op"
    by (auto split: option.splits)
  show ?thesis
  proof (cases r)
    case None
    with al inv show ?thesis by simp
  next
    case (Some a)
    note o = bs.alloc_other [OF t al(1) [unfolded Some]]
    let ?op = "op\<lparr>lp := l, fm := m\<rparr>"
    have fr: "op_free ?op = op_free op - block_of k a" using o(4,5) t(3) by (auto simp: op_free_def)
    have "op_ok ?op" using inv o(1,2,5,7) t(3) tp by (auto simp: op_inv_def op_ok_def two_pools_def)
    moreover have "op_free ?op \<subseteq> F" "\<And>p. p \<notin> F \<Longrightarrow> fm ?op p = fm op p"
      using inv fr o(10) by (auto simp: op_inv_def op_free_def)
    ultimately have "op_inv st F ?op" by (intro op_inv_touch [OF inv]) auto
    moreover have "taken op ?op k a" using o fr by (auto simp: taken_def op_free_def)
    ultimately show ?thesis using al(1) Some by auto
  qed
qed

lemma alloc_from_global:
  assumes inv: "op_inv st F op"
  shows "\<exists>r g m. alloc_chunk (gp op) (fm op) k = Inr (r, g, m) \<and>
    op_inv st F (op\<lparr>gp := g, locked := True, fm := m\<rparr>) \<and>
    (case r of
       None \<Rightarrow> op\<lparr>gp := g, locked := True, fm := m\<rparr> = op\<lparr>locked := True\<rparr>
     | Some a \<Rightarrow> taken op (op\<lparr>gp := g, locked := True, fm := m\<rparr>) k a)"
proof -
  from inv have tp: "two_pools (lp op) (gp op) (fm op)" by (simp add: op_inv_def op_ok_def)
  then have t: "buddy_ok (gp op) (fm op)" "buddy_ok (lp op) (fm op)" "free_frames (gp op) \<inter> free_frames (lp op) = {}"
    by (auto simp: two_pools_def)
  from bs.alloc_law [OF t(1), of k] obtain r g m where
    al: "alloc_chunk (gp op) (fm op) k = Inr (r, g, m)" "r = None \<Longrightarrow> g = gp op \<and> m = fm op"
    by (auto split: option.splits)
  show ?thesis
  proof (cases r)
    case None
    with al inv show ?thesis by (auto simp: op_inv_def op_ok_def op_free_def)
  next
    case (Some a)
    note o = bs.alloc_other [OF t al(1) [unfolded Some]]
    let ?op = "op\<lparr>gp := g, locked := True, fm := m\<rparr>"
    have fr: "op_free ?op = op_free op - block_of k a" using o(4,5) t(3) by (auto simp: op_free_def)
    have "op_ok ?op" using inv o(1,2,5,7) t(3) tp by (auto simp: op_inv_def op_ok_def two_pools_def)
    moreover have "op_free ?op \<subseteq> F" "\<And>p. p \<notin> F \<Longrightarrow> fm ?op p = fm op p"
      using inv fr o(10) by (auto simp: op_inv_def op_free_def)
    ultimately have "op_inv st F ?op" by (intro op_inv_touch [OF inv]) auto
    moreover have "total_size (gp op) \<le> total_size g + size_of_order k"
      using o(1,5) t(1) diff_card_le_card_Diff [OF finite_block, of "free_frames (gp op)" k a]
      by (simp add: buddy_ok_def card_block)
    with o fr have "taken op ?op k a" by (auto simp: taken_def op_free_def)
    ultimately show ?thesis using al(1) Some by auto
  qed
qed

text \<open>Giving back what the layout does not need of the chunk.\<close>

lemma give_back_rest:
  assumes inv: "op_inv st F op'" and tk: "taken op op' k a" and F: "op_free op \<subseteq> F"
    and sz: "PAGE_SIZE dvd sz" "0 < sz" "sz \<le> size_of_order k" and k: "k < MAX_BUDDY_ORDER"
  shows "\<exists>op2. (if size_of_order k > sz then do_dealloc [(a + sz, size_of_order k - sz)] op' else Inr op') =
      Inr op2 \<and> op_inv st F op2 \<and> op_free op2 = op_free op - {a..<a + sz} \<and>
    unused_in (fm op2) {a..<a + sz} \<and> total_size (gp op) \<le> total_size (gp op2) + size_of_order k"
proof -
  from tk have al: "size_of_order k dvd a" and sub: "block_of k a \<subseteq> op_free op"
    and fr: "op_free op' = op_free op - block_of k a" and un: "all_unused (fm op') k a"
    and fit: "a + size_of_order k < 2 ^ 64"
    and tot: "total_size (gp op) \<le> total_size (gp op') + size_of_order k" by (auto simp: taken_def)
  have blk: "block_of k a = {a..<a + sz} \<union> {a + sz..<a + size_of_order k}" "{a..<a + sz} \<subseteq> block_of k a"
    using sz(3) by (auto simp: block_of_def)
  have un': "unused_in (fm op') (block_of k a)" using un by (auto simp: all_unused_def unused_in_def)
  show ?thesis
  proof (cases "size_of_order k > sz")
    case False
    with sz(3) have "block_of k a = {a..<a + sz}" by (simp add: block_of_def)
    with False inv fr un' tot show ?thesis by auto
  next
    case True
    let ?segs = "[(a + sz, size_of_order k - sz)]"
    have ss: "segs_set ?segs = {a + sz..<a + size_of_order k}" using True by (auto simp: seg_set_def)
    have "size_of_order k < size_of_order MAX_BUDDY_ORDER" using k by (simp add: size_of_order_pow)
    then have "segs_ok ?segs"
      using sz page_dvd_chunk [OF al] page_dvd_size [of k] fit True by (auto simp: dvd_diff_nat)
    moreover have "unused_in (fm op') (segs_set ?segs)" "segs_set ?segs \<inter> op_free op' = {}" "segs_set ?segs \<subseteq> F"
      using un' blk fr sub F unfolding ss unused_in_def by auto
    ultimately obtain op2 where
      o2: "do_dealloc ?segs op' = Inr op2" "op_inv st F op2" "op_free op2 = op_free op' \<union> segs_set ?segs"
        "free_frames (gp op') \<subseteq> free_frames (gp op2)" "\<forall>p. p \<notin> op_free op2 \<longrightarrow> fm op2 p = fm op' p"
      using do_dealloc_ok [of ?segs st F op'] inv by blast
    have free2: "op_free op2 = op_free op - {a..<a + sz}"
      using o2(3) fr sub blk unfolding ss by auto
    then have "unused_in (fm op2) {a..<a + sz}" using un' blk(2) o2(5) by (auto simp: unused_in_def)
    moreover have "total_size (gp op') \<le> total_size (gp op2)"
      using total_mono [of "gp op'" "fm op'" "gp op2" "fm op2"] inv o2(2,4)
      by (auto simp: op_inv_def op_ok_def two_pools_def)
    ultimately show ?thesis using o2(1,2) free2 True tot by auto
  qed
qed

text \<open>The two attempts, local then global, as one step.\<close>

definition find_chunk :: "pool_op \<Rightarrow> nat \<Rightarrow> (nat option \<times> pool_op) result" where
  "find_chunk op order =
     rbind (if order < MAX_LOCAL_BUDDY_ORDER
            then rbind (alloc_chunk (lp op) (fm op) order) (\<lambda>(r, l, m).
                   Inr (r, op\<lparr>lp := l, fm := m\<rparr>))
            else Inr (None, op)) (\<lambda>(chunk_addr, op1).
      if chunk_addr = None
      then rbind (alloc_chunk (gp op1) (fm op1) order) (\<lambda>(r, g, m).
             Inr (r, op1\<lparr>gp := g, locked := True, fm := m\<rparr>))
      else Inr (chunk_addr, op1))"

lemma find_chunk_ok:
  assumes inv: "op_inv st F op" and k: "order < MAX_BUDDY_ORDER"
  shows "\<exists>r op2. find_chunk op order = Inr (r, op2) \<and> op_inv st F op2 \<and>
    (case r of
       None \<Rightarrow> op2 = op\<lparr>locked := True\<rparr> \<and>
         (\<forall>a. size_of_order order dvd a \<longrightarrow> \<not> block_of order a \<subseteq> free_frames (gp op)) \<and>
         (order < MAX_LOCAL_BUDDY_ORDER \<longrightarrow>
           (\<forall>a. size_of_order order dvd a \<longrightarrow> \<not> block_of order a \<subseteq> free_frames (lp op)))
     | Some a \<Rightarrow> taken op op2 order a)"
proof -
  from inv have ok: "buddy_ok (lp op) (fm op)" "buddy_ok (gp op) (fm op)"
    "length (lists (lp op)) = MAX_LOCAL_BUDDY_ORDER" "length (lists (gp op)) = MAX_BUDDY_ORDER"
    by (auto simp: op_inv_def op_ok_def two_pools_def)
  obtain r g m where
    gl: "alloc_chunk (gp op) (fm op) order = Inr (r, g, m)" "op_inv st F (op\<lparr>gp := g, locked := True, fm := m\<rparr>)"
      "case r of None \<Rightarrow> op\<lparr>gp := g, locked := True, fm := m\<rparr> = op\<lparr>locked := True\<rparr>
       | Some a \<Rightarrow> taken op (op\<lparr>gp := g, locked := True, fm := m\<rparr>) order a"
    using alloc_from_global [OF inv, of order] by blast
  have gnone: "\<forall>a. size_of_order order dvd a \<longrightarrow> \<not> block_of order a \<subseteq> free_frames (gp op)" if "r = None"
    using alloc_chunk_none [OF ok(2)] gl(1) that k ok(4) by auto
  show ?thesis
  proof (cases "order < MAX_LOCAL_BUDDY_ORDER")
    case False
    with gl gnone show ?thesis by (auto simp: find_chunk_def split: option.splits)
  next
    case True
    obtain r' l m' where
      lc: "alloc_chunk (lp op) (fm op) order = Inr (r', l, m')" "op_inv st F (op\<lparr>lp := l, fm := m'\<rparr>)"
        "case r' of None \<Rightarrow> op\<lparr>lp := l, fm := m'\<rparr> = op | Some a \<Rightarrow> taken op (op\<lparr>lp := l, fm := m'\<rparr>) order a"
      using alloc_from_local [OF inv, of order] by blast
    show ?thesis
    proof (cases r')
      case (Some a)
      with True lc show ?thesis by (auto simp: find_chunk_def)
    next
      case None
      with lc(3) have id: "op\<lparr>lp := l, fm := m'\<rparr> = op" by simp
      have "\<forall>a. size_of_order order dvd a \<longrightarrow> \<not> block_of order a \<subseteq> free_frames (lp op)"
        using alloc_chunk_none [OF ok(1)] lc(1) None True ok(3) by auto
      moreover have "find_chunk op order = Inr (r, op\<lparr>gp := g, locked := True, fm := m\<rparr>)"
        using True lc(1) None gl(1) by (simp add: find_chunk_def id)
      ultimately show ?thesis using gl(2,3) gnone by (cases r) auto
    qed
  qed
qed

lemma pools_alloc_eq:
  "pools_alloc st cpu (sz, align) =
    (let order = max (greater_order_of sz) (greater_order_of align) in
     rbind (find_chunk (lock_new st cpu) order) (\<lambda>(chunk_addr, op2).
     rbind (case chunk_addr of
              Some addr \<Rightarrow>
                if size_of_order order > sz
                then do_dealloc [(addr + sz, size_of_order order - sz)] op2 else Inr op2
            | None \<Rightarrow> Inr op2) (\<lambda>op3.
     rbind (balance st op3) (\<lambda>op4.
       Inr (chunk_addr, update_global_size_if_locked st cpu op4)))))"
  unfolding pools_alloc_def find_chunk_def
  by (simp add: Let_def rbind_def split: sum.splits prod.splits if_splits)



lemma rfold_global:
  assumes "rfold (\<lambda>(p, k) (b, m). insert_chunk b m p k) cs (gp op, fm op) = Inr (g, m)"
  shows "rfold (\<lambda>(addr, order) op. rbind (insert_chunk (gp op) (fm op) addr order) (\<lambda>(g, m).
      Inr (op\<lparr>gp := g, locked := True, fm := m\<rparr>))) cs op =
    Inr (op\<lparr>gp := g, locked := locked op \<or> cs \<noteq> [], fm := m\<rparr>)"
  using assms
proof (induction cs arbitrary: op)
  case (Cons c cs)
  obtain p k where c: "c = (p, k)" by fastforce
  from Cons.prems obtain b1 m1 where
    "insert_chunk (gp op) (fm op) p k = Inr (b1, m1)"
    "rfold (\<lambda>(p, k) (b, m). insert_chunk b m p k) cs (b1, m1) = Inr (g, m)"
    by (auto simp: c rbind_eq_Inr)
  with Cons.IH [of "op\<lparr>gp := b1, locked := True, fm := m1\<rparr>"] show ?case by (simp add: c)
qed simp

text \<open>\<open>add_free_memory\<close> of an unused, page-aligned region below 8 TiB puts exactly that region
  into the global pool and records the new size of the pool.\<close>

theorem add_free_memory_correct:
  assumes ok: "pools_ok st" and cpu: "cpu < length (local_pools st)" and seg: "segs_ok [(addr, sz)]"
    and un: "unused_in (frame_table st) {addr..<addr + sz}" and dj: "{addr..<addr + sz} \<inter> pools_free st = {}"
  shows "\<exists>st'. add_free_memory st cpu addr sz = Inr st' \<and> pools_ok st' \<and>
    free_frames (global_pool st') = free_frames (global_pool st) \<union> {addr..<addr + sz} \<and>
    pools_free st' = pools_free st \<union> {addr..<addr + sz}"
proof -
  let ?op = "lock_new st cpu" and ?R = "{addr..<addr + sz}"
  let ?F = "op_free (lock_new st cpu) \<union> {addr..<addr + sz}"
  let ?ins = "\<lambda>(addr, order) op. rbind (insert_chunk (gp op) (fm op) addr order) (\<lambda>(g, m).
                Inr (op\<lparr>gp := g, locked := True, fm := m\<rparr>))"
  note inv = lock_new_inv(1) [OF ok cpu, of ?R] and sub = lock_new_inv(2) [OF ok cpu]
  from seg have al: "PAGE_SIZE dvd addr" "PAGE_SIZE dvd sz" "addr + sz < 2 ^ 64"
    "sz < size_of_order MAX_BUDDY_ORDER" by auto
  from split_chunks_tile [OF al(1-3)] obtain cs where
    cs: "split_chunks addr sz = Inr cs" "chunks_tile addr cs (addr + sz)" by blast
  have run: "split_to_chunks addr sz = Inr cs"
    using cs(1) al(1,2) by (simp add: split_to_chunks_def dvd_eq_mod_eq_0)
  from inv have tp: "two_pools (lp ?op) (gp ?op) (fm ?op)" and len: "length (lists (gp ?op)) = MAX_BUDDY_ORDER"
    by (auto simp: op_inv_def op_ok_def)
  have dj': "?R \<inter> (free_frames (lp ?op) \<union> free_frames (gp ?op)) = {}"
    using dj sub by (auto simp: op_free_def)
  have ord: "\<forall>(p, k)\<in>set cs. k < length (lists (gp ?op))"
    using split_orders_bounded [OF cs(2) al(4)] len by auto
  from two_pools_insert [OF tp cs(2) ord _ dj' al(3)] un obtain g m where
    r: "rfold (\<lambda>(p, k) (b, m). insert_chunk b m p k) cs (gp ?op, fm ?op) = Inr (g, m)" "two_pools (lp ?op) g m"
      "length (lists g) = length (lists (gp ?op))" "free_frames g = free_frames (gp ?op) \<union> ?R"
      "\<forall>p. p \<notin> free_frames g \<longrightarrow> m p = fm ?op p" by (auto simp: unused_in_def lock_new_def)
  let ?op' = "?op\<lparr>gp := g, locked := locked ?op \<or> cs \<noteq> [], fm := m\<rparr>"
  have fold: "rfold ?ins cs ?op = Inr ?op'" by (rule rfold_global [OF r(1)])
  have fr: "op_free ?op' = op_free ?op \<union> ?R" using r(4) by (auto simp: op_free_def)
  have "op_inv st ?F ?op'"
  proof (rule op_inv_touch [OF inv])
    show "op_ok ?op'" using r(2,3) inv len by (simp add: op_inv_def op_ok_def)
    show "op_free ?op' \<subseteq> ?F" using fr by simp
    show "gp ?op' = gp ?op \<and> \<not> locked ?op" if "\<not> locked ?op'" using that r(1) by simp
    show "fm ?op' p = fm ?op p" if "p \<notin> ?F" for p
      using that r(4,5) by (simp add: op_free_def)
  qed
  note up = update_ok [OF ok cpu this dj]
  let ?st = "update_global_size_if_locked st cpu ?op'"
  have "add_free_memory st cpu addr sz = Inr ?st" using run fold by (simp add: add_free_memory_def)
  moreover have "free_frames (global_pool ?st) = free_frames (global_pool st) \<union> ?R"
    using r(4) by (simp add: update_global_size_if_locked_def lock_new_def)
  moreover have "pools_free ?st = pools_free st \<union> ?R" using up(2) fr sub by auto
  ultimately show ?thesis using up(1) by blast
qed

theorem add_free_memory_correct_witness:
  "\<exists>st'. add_free_memory (single_pools 3) 0 (8 * PAGE_SIZE) (3 * PAGE_SIZE) = Inr st' \<and> pools_ok st'"
proof -
  let ?st = "single_pools 3" and ?R = "{8 * PAGE_SIZE..<8 * PAGE_SIZE + 3 * PAGE_SIZE}"
  have ok: "pools_ok ?st" by (rule single_pools_ok) (simp add: MAX_BUDDY_ORDER_def)
  have free: "pools_free ?st = {0..<8 * PAGE_SIZE}"
    using single_chunk_ok(2) [of 3] buddy_ok_new_empty(2)
    by (simp add: pools_free_def single_pools_def MAX_BUDDY_ORDER_def block_of_def size_of_order_def)
  have "segs_ok [(8 * PAGE_SIZE, 3 * PAGE_SIZE)]"
    by (simp add: MAX_BUDDY_ORDER_def size_of_order_def PAGE_SIZE_def)
  moreover have "unused_in (frame_table ?st) ?R" "?R \<inter> pools_free ?st = {}"
    unfolding free by (auto simp: unused_in_def single_pools_def PAGE_SIZE_def)
  ultimately show ?thesis
    using add_free_memory_correct [OF ok, where cpu = 0 and addr = "8 * PAGE_SIZE" and sz = "3 * PAGE_SIZE"]
    by (auto simp: single_pools_simps)
qed

end
