(* ===== verification/Range_Lock.thy ===== *)
theory Range_Lock
  imports Prelude
begin

text \<open>
  POSIX advisory record locks, \<open>kernel/src/fs/utils/range_lock/range.rs\<close> and \<open>mod.rs\<close>: file
  ranges, lock items, and the list of the locks of a file with its update on locking and
  unlocking.

  A lock item carries its wait queue, identified by a number. The operations return the queues
  they wake, in order: an item that shrinks wakes its queue, and so does an item that is
  dropped.
\<close>

section \<open>File ranges\<close>

record file_range =
  fr_start :: nat
  fr_end :: nat

datatype file_range_change = Same | Expanded | Shrunk

datatype overlap_with = ToLeft | ToRight | InMiddle | Includes

definition fr_new :: "nat \<Rightarrow> nat \<Rightarrow> file_range result" where
  "fr_new s e = (if s \<ge> e then Inl (Errno EINVAL) else Inr \<lparr>fr_start = s, fr_end = e\<rparr>)"

definition fr_len :: "file_range \<Rightarrow> nat result" where
  "fr_len r = usub (fr_end r) (fr_start r)"

definition fr_set_start :: "file_range \<Rightarrow> nat \<Rightarrow> (file_range_change \<times> file_range) result" where
  "fr_set_start r new_start =
     (if new_start \<ge> fr_end r then Inl (Errno EINVAL)
      else Inr (if new_start > fr_start r then Shrunk
                else if new_start < fr_start r then Expanded else Same,
                r\<lparr>fr_start := new_start\<rparr>))"

definition fr_set_end :: "file_range \<Rightarrow> nat \<Rightarrow> (file_range_change \<times> file_range) result" where
  "fr_set_end r new_end =
     (if new_end \<le> fr_start r then Inl (Errno EINVAL)
      else Inr (if new_end < fr_end r then Shrunk
                else if new_end > fr_end r then Expanded else Same,
                r\<lparr>fr_end := new_end\<rparr>))"

definition fr_overlap :: "file_range \<Rightarrow> file_range \<Rightarrow> overlap_with option" where
  "fr_overlap r other =
     (if fr_start r \<ge> fr_end other \<or> fr_end r \<le> fr_start other then None
      else Some (if fr_start r \<le> fr_start other \<and> fr_end r < fr_end other then ToLeft
                 else if fr_start r > fr_start other \<and> fr_end r < fr_end other then InMiddle
                 else if fr_start r > fr_start other \<and> fr_end r \<ge> fr_end other then ToRight
                 else Includes))"

definition fr_merge :: "file_range \<Rightarrow> file_range \<Rightarrow> (file_range_change \<times> file_range) result" where
  "fr_merge r other =
     (if fr_end r < fr_start other \<or> fr_end other < fr_start r then Inl (Errno EINVAL)
      else
        let (c1, r1) = (if fr_start other < fr_start r
                        then (Expanded, r\<lparr>fr_start := fr_start other\<rparr>) else (Same, r));
            (c2, r2) = (if fr_end other > fr_end r1
                        then (Expanded, r1\<lparr>fr_end := fr_end other\<rparr>) else (c1, r1))
        in Inr (c2, r2))"

section \<open>Lock items\<close>

datatype range_lock_type = ReadLock | WriteLock | Unlock

record range_lock =
  owner :: nat
  lock_type :: range_lock_type
  range :: file_range

record range_lock_item =
  lock :: range_lock
  waitqueue :: nat

definition item_start :: "range_lock_item \<Rightarrow> nat" where
  "item_start it = fr_start (range (lock it))"

definition item_end :: "range_lock_item \<Rightarrow> nat" where
  "item_end it = fr_end (range (lock it))"

definition item_overlap :: "range_lock_item \<Rightarrow> range_lock_item \<Rightarrow> overlap_with option" where
  "item_overlap it other = fr_overlap (range (lock it)) (range (lock other))"

definition conflict_with :: "range_lock_item \<Rightarrow> range_lock_item \<Rightarrow> bool" where
  "conflict_with it other =
     (if owner (lock it) = owner (lock other) then False
      else if item_overlap it other = None then False
      else lock_type (lock it) = WriteLock \<or> lock_type (lock other) = WriteLock)"

definition merge_with :: "range_lock_item \<Rightarrow> range_lock_item \<Rightarrow> range_lock_item result" where
  "merge_with it other =
     (case fr_merge (range (lock it)) (range (lock other)) of
        Inl _ \<Rightarrow> Inl Panic
      | Inr (_, r) \<Rightarrow> Inr (it\<lparr>lock := (lock it)\<lparr>range := r\<rparr>\<rparr>))"

definition item_set_start :: "range_lock_item \<Rightarrow> nat \<Rightarrow> (range_lock_item \<times> nat list) result" where
  "item_set_start it new_start =
     (case fr_set_start (range (lock it)) new_start of
        Inl _ \<Rightarrow> Inl Panic
      | Inr (change, r) \<Rightarrow>
          Inr (it\<lparr>lock := (lock it)\<lparr>range := r\<rparr>\<rparr>, if change = Shrunk then [waitqueue it] else []))"

text \<open>\<open>set_end\<close> changes the copy that \<open>range()\<close> returns, not the range of the item.\<close>

definition item_set_end :: "range_lock_item \<Rightarrow> nat \<Rightarrow> (range_lock_item \<times> nat list) result" where
  "item_set_end it new_end =
     (case fr_set_end (range (lock it)) new_end of
        Inl _ \<Rightarrow> Inl Panic
      | Inr (change, _) \<Rightarrow> Inr (it, if change = Shrunk then [waitqueue it] else []))"

section \<open>The list of locks\<close>

definition test_lock :: "range_lock_item list \<Rightarrow> range_lock_item \<Rightarrow> range_lock_item" where
  "test_lock ls req =
     (case find (conflict_with req) ls of
        Some existing \<Rightarrow>
          req\<lparr>lock := (lock req)\<lparr>owner := owner (lock existing), lock_type := lock_type (lock existing),
            range := range (lock existing)\<rparr>\<rparr>
      | None \<Rightarrow> req\<lparr>lock := (lock req)\<lparr>lock_type := Unlock\<rparr>\<rparr>)"

text \<open>The loop of \<open>insert_lock_into_list\<close>; \<open>next_idx\<close> is \<open>pre_idx + 1\<close> throughout.\<close>

function insert_loop ::
  "range_lock_item list \<Rightarrow> nat \<Rightarrow> nat list \<Rightarrow> (range_lock_item list \<times> nat list) result" where
  "insert_loop ls pre woken =
     (if pre + 1 \<ge> length ls then Inr (ls, woken)
      else
        let pre_lock = ls ! pre; next_lock = ls ! (pre + 1) in
        if owner (lock next_lock) \<noteq> owner (lock pre_lock) then Inr (ls, woken)
        else if lock_type (lock next_lock) = lock_type (lock pre_lock) then
          if item_end pre_lock < item_start next_lock then Inr (ls, woken)
          else if item_end next_lock < item_start pre_lock
          then insert_loop (vec_swap ls pre (pre + 1)) (pre + 1) woken
          else rbind (merge_with next_lock pre_lock) (\<lambda>merged.
            insert_loop (vec_remove pre (ls[pre + 1 := merged])) pre (woken @ [waitqueue pre_lock]))
        else if item_end pre_lock \<le> item_start next_lock then Inr (ls, woken)
        else if item_end next_lock \<le> item_start pre_lock
        then insert_loop (vec_swap ls pre (pre + 1)) (pre + 1) woken
        else
          (case item_overlap pre_lock next_lock of
             None \<Rightarrow> Inl Panic
           | Some ToLeft \<Rightarrow>
               rbind (item_set_start next_lock (item_end pre_lock)) (\<lambda>(n, w).
                 Inr (ls[pre + 1 := n], woken @ w))
           | Some InMiddle \<Rightarrow>
               rbind (item_set_start next_lock (item_end pre_lock)) (\<lambda>(right_lk, w1).
               rbind (item_set_end next_lock (item_start pre_lock)) (\<lambda>(n, w2).
                 Inr (vec_insert (pre + 2) right_lk (vec_swap (ls[pre + 1 := n]) pre (pre + 1)),
                      woken @ w1 @ w2)))
           | Some ToRight \<Rightarrow>
               rbind (item_set_end next_lock (item_start pre_lock)) (\<lambda>(n, w).
                 insert_loop (vec_swap (ls[pre + 1 := n]) pre (pre + 1)) (pre + 1) (woken @ w))
           | Some Includes \<Rightarrow>
               insert_loop (vec_remove (pre + 1) ls) pre (woken @ [waitqueue next_lock])))"
  by pat_completeness auto

termination insert_loop
  by (relation "measure (\<lambda>(ls, pre, woken). length ls - pre)") auto

declare insert_loop.simps [simp del]

definition insert_lock_into_list ::
  "range_lock_item list \<Rightarrow> range_lock_item \<Rightarrow> (range_lock_item list \<times> nat list) result" where
  "insert_lock_into_list ls req =
     (case position (\<lambda>lk. owner (lock lk) = owner (lock req)) ls of
        None \<Rightarrow> Inr (ls @ [req], [])
      | Some first_same_owner_idx \<Rightarrow>
          insert_loop (vec_insert first_same_owner_idx req ls) first_same_owner_idx [])"

text \<open>On a conflict the waker, if there is one, is enqueued on the queue of the first conflicting
  lock; the result names that queue.\<close>

datatype set_outcome = Granted "range_lock_item list" "nat list" | Again "nat option"

definition try_set_lock ::
  "range_lock_item list \<Rightarrow> range_lock_item \<Rightarrow> bool \<Rightarrow> set_outcome result" where
  "try_set_lock ls req has_waker =
     (case find (conflict_with req) ls of
        Some conflict_lock \<Rightarrow>
          Inr (Again (if has_waker then Some (waitqueue conflict_lock) else None))
      | None \<Rightarrow> rbind (insert_lock_into_list ls req) (\<lambda>(ls', woken). Inr (Granted ls' woken)))"

function unlock_loop ::
  "range_lock_item \<Rightarrow> range_lock_item list \<Rightarrow> nat \<Rightarrow> nat list \<Rightarrow>
    (range_lock_item list \<times> nat list) result" where
  "unlock_loop req ls skipped woken =
     (case position (\<lambda>lk. owner (lock lk) = owner (lock req)) (drop skipped ls) of
        None \<Rightarrow> Inr (ls, woken)
      | Some i \<Rightarrow>
          let idx = i + skipped; existing = ls ! idx in
          case item_overlap req existing of
            None \<Rightarrow> unlock_loop req ls (idx + 1) woken
          | Some ToLeft \<Rightarrow>
              rbind (item_set_start existing (item_end req)) (\<lambda>(e, w).
                Inr (ls[idx := e], woken @ w))
          | Some InMiddle \<Rightarrow>
              rbind (item_set_start existing (item_end req)) (\<lambda>(right_lk, w1).
              rbind (item_set_end existing (item_start req)) (\<lambda>(e, w2).
                Inr (vec_insert (idx + 1) right_lk (ls[idx := e]), woken @ w1 @ w2)))
          | Some ToRight \<Rightarrow>
              rbind (item_set_end existing (item_start req)) (\<lambda>(e, w).
                unlock_loop req (ls[idx := e]) (idx + 1) (woken @ w))
          | Some Includes \<Rightarrow>
              unlock_loop req (vec_remove idx ls) idx (woken @ [waitqueue existing]))"
  by pat_completeness auto

termination unlock_loop
  by (relation "measure (\<lambda>(req, ls, skipped, woken). length ls - skipped)")
    (auto dest!: position_SomeD)

declare unlock_loop.simps [simp del]

definition unlock :: "range_lock_item list \<Rightarrow> range_lock_item \<Rightarrow> (range_lock_item list \<times> nat list) result" where
  "unlock ls req = unlock_loop req ls 0 []"

section \<open>What the locks of a list hold\<close>

definition item_ok :: "range_lock_item \<Rightarrow> bool" where
  "item_ok it \<longleftrightarrow> item_start it < item_end it"

definition holds :: "range_lock_item \<Rightarrow> nat \<Rightarrow> range_lock_type \<Rightarrow> nat \<Rightarrow> bool" where
  "holds it own t p \<longleftrightarrow>
     owner (lock it) = own \<and> lock_type (lock it) = t \<and> item_start it \<le> p \<and> p < item_end it"

definition held :: "range_lock_item list \<Rightarrow> nat \<Rightarrow> range_lock_type \<Rightarrow> nat \<Rightarrow> bool" where
  "held ls own t p \<longleftrightarrow> list_ex (\<lambda>it. holds it own t p) ls"

definition no_conflicts :: "range_lock_item list \<Rightarrow> bool" where
  "no_conflicts ls \<longleftrightarrow> list_all (\<lambda>a. list_all (\<lambda>b. \<not> conflict_with a b) ls) ls"

definition others :: "nat \<Rightarrow> range_lock_item list \<Rightarrow> range_lock_item list" where
  "others own ls = filter (\<lambda>it. owner (lock it) \<noteq> own) ls"

lemma held_Nil [simp]: "\<not> held [] own t p"
  by (simp add: held_def)

lemma held_Cons [simp]: "held (it # ls) own t p \<longleftrightarrow> holds it own t p \<or> held ls own t p"
  by (simp add: held_def)

lemma held_append [simp]: "held (ls @ ls') own t p \<longleftrightarrow> held ls own t p \<or> held ls' own t p"
  by (simp add: held_def)

lemma heldI: "it \<in> set ls \<Longrightarrow> holds it own t p \<Longrightarrow> held ls own t p"
  by (auto simp: held_def list_ex_iff)

lemma heldE: "held ls own t p \<Longrightarrow> (\<And>it. it \<in> set ls \<Longrightarrow> holds it own t p \<Longrightarrow> P) \<Longrightarrow> P"
  by (auto simp: held_def list_ex_iff)

lemma others_simps [simp]:
  "others own [] = []"
  "others own (it # ls) = (if owner (lock it) = own then others own ls else it # others own ls)"
  "others own (ls @ ls') = others own ls @ others own ls'"
  by (simp_all add: others_def)

lemma fr_overlap_None: "fr_overlap r r' = None \<longleftrightarrow> fr_start r \<ge> fr_end r' \<or> fr_end r \<le> fr_start r'"
  by (simp add: fr_overlap_def)

lemma conflict_with_holds:
  assumes "item_ok a" "item_ok b"
  shows "conflict_with a b \<longleftrightarrow> (\<exists>own own' t t' p. own \<noteq> own' \<and> (t = WriteLock \<or> t' = WriteLock) \<and>
    holds a own t p \<and> holds b own' t' p)"
proof -
  have "(\<exists>p. item_start a \<le> p \<and> p < item_end a \<and> item_start b \<le> p \<and> p < item_end b) \<longleftrightarrow>
      \<not> (item_start a \<ge> item_end b \<or> item_end a \<le> item_start b)"
    using assms unfolding item_ok_def
    by (auto intro: exI [of _ "max (item_start a) (item_start b)"])
  then show ?thesis
    by (auto simp: conflict_with_def holds_def item_overlap_def fr_overlap_None item_start_def item_end_def)
qed

lemma conflict_with_sym: "conflict_with a b = conflict_with b a"
  by (auto simp: conflict_with_def item_overlap_def fr_overlap_None)

lemma no_conflicts_holds:
  assumes "list_all item_ok ls"
  shows "no_conflicts ls \<longleftrightarrow> (\<forall>own own' t t' p. held ls own t p \<and> held ls own' t' p \<and>
    (t = WriteLock \<or> t' = WriteLock) \<longrightarrow> own = own')"
proof -
  have "no_conflicts ls \<longleftrightarrow> (\<forall>a\<in>set ls. \<forall>b\<in>set ls. \<not> conflict_with a b)"
    by (simp add: no_conflicts_def list_all_iff)
  also have "\<dots> \<longleftrightarrow> (\<forall>a\<in>set ls. \<forall>b\<in>set ls. \<forall>own own' t t' p. own \<noteq> own' \<and>
      (t = WriteLock \<or> t' = WriteLock) \<and> holds a own t p \<longrightarrow> \<not> holds b own' t' p)"
    using assms conflict_with_holds by (metis list_all_iff)
  finally show ?thesis unfolding held_def list_ex_iff by metis
qed

lemma no_conflicts_mono:
  assumes ok: "list_all item_ok ls" "list_all item_ok ls'" and nc: "no_conflicts ls"
    and sub: "\<And>own t x. held ls' own t x \<Longrightarrow> held ls own t x"
  shows "no_conflicts ls'"
  unfolding no_conflicts_holds [OF ok(2)]
  using nc [unfolded no_conflicts_holds [OF ok(1)]] sub by blast

section \<open>Item operations\<close>

lemma item_simps [simp]:
  "item_start (it\<lparr>lock := (lock it)\<lparr>range := r\<rparr>\<rparr>) = fr_start r"
  "item_end (it\<lparr>lock := (lock it)\<lparr>range := r\<rparr>\<rparr>) = fr_end r"
  by (simp_all add: item_start_def item_end_def)

lemma item_set_start_ok:
  assumes "n < item_end it"
  obtains it' where
    "item_set_start it n = Inr (it', if item_start it < n then [waitqueue it] else [])"
    "owner (lock it') = owner (lock it)" "lock_type (lock it') = lock_type (lock it)"
    "item_start it' = n" "item_end it' = item_end it"
  using assms by (auto simp: item_set_start_def fr_set_start_def item_end_def item_start_def)

lemma item_set_start_shrunk:
  assumes "item_start it < n" "n < item_end it"
  obtains it' where "item_set_start it n = Inr (it', [waitqueue it])"
    "owner (lock it') = owner (lock it)" "lock_type (lock it') = lock_type (lock it)"
    "item_start it' = n" "item_end it' = item_end it"
  using assms by (auto simp: item_set_start_def fr_set_start_def item_end_def item_start_def)

lemma item_set_end_ok:
  "item_start it < n \<Longrightarrow>
    item_set_end it n = Inr (it, if n < item_end it then [waitqueue it] else [])"
  by (auto simp: item_set_end_def fr_set_end_def item_end_def item_start_def)

lemma merge_with_ok:
  assumes "\<not> item_end it < item_start it'" "\<not> item_end it' < item_start it"
  obtains m where "merge_with it it' = Inr m"
    "owner (lock m) = owner (lock it)" "lock_type (lock m) = lock_type (lock it)"
    "item_start m = min (item_start it) (item_start it')"
    "item_end m = max (item_end it) (item_end it')"
proof -
  show ?thesis
    by (rule that [of "it\<lparr>lock := (lock it)\<lparr>range := \<lparr>fr_start = min (item_start it) (item_start it'),
        fr_end = max (item_end it) (item_end it')\<rparr>\<rparr>\<rparr>"])
      (use assms in \<open>auto simp: merge_with_def fr_merge_def item_start_def item_end_def Let_def
        min_def max_def\<close>)
qed

lemma item_overlap_cases:
  assumes "item_ok a" "item_ok b"
  obtains
    (none) "item_overlap a b = None" "item_start a \<ge> item_end b \<or> item_end a \<le> item_start b"
  | (left) "item_overlap a b = Some ToLeft" "item_start a \<le> item_start b" "item_start b < item_end a"
      "item_end a < item_end b"
  | (mid) "item_overlap a b = Some InMiddle" "item_start b < item_start a" "item_end a < item_end b"
  | (right) "item_overlap a b = Some ToRight" "item_start b < item_start a" "item_start a < item_end b"
      "item_end b \<le> item_end a"
  | (incl) "item_overlap a b = Some Includes" "item_start a \<le> item_start b" "item_end b \<le> item_end a"
  using assms unfolding item_overlap_def fr_overlap_def item_start_def item_end_def item_ok_def
  by (smt (verit) not_le leI)

section \<open>Insertion\<close>

lemma vec_pair [simp]:
  "vec_swap (a @ p # n # b) (length a) (Suc (length a)) = a @ n # p # b"
  "vec_remove (length a) (a @ p # b) = a @ b"
  "vec_remove (Suc (length a)) (a @ p # n # b) = a @ p # b"
  "vec_insert (length a) m b' = take (length a) b' @ m # drop (length a) b'"
  "vec_insert (Suc (Suc (length a))) r (a @ n # p # b) = a @ n # p # r # b"
  by (simp_all add: vec_swap_def vec_remove_def vec_insert_def nth_append list_update_append)

lemma insert_loop_last [simp]: "insert_loop (a @ [p]) (length a) woken = Inr (a @ [p], woken)"
  by (subst insert_loop.simps) simp

lemma insert_loop_step:
  "insert_loop (a @ p # n # b) (length a) woken =
     (if owner (lock n) \<noteq> owner (lock p) then Inr (a @ p # n # b, woken)
      else if lock_type (lock n) = lock_type (lock p) then
        if item_end p < item_start n then Inr (a @ p # n # b, woken)
        else if item_end n < item_start p then insert_loop ((a @ [n]) @ p # b) (length (a @ [n])) woken
        else rbind (merge_with n p) (\<lambda>m. insert_loop (a @ m # b) (length a) (woken @ [waitqueue p]))
      else if item_end p \<le> item_start n then Inr (a @ p # n # b, woken)
      else if item_end n \<le> item_start p then insert_loop ((a @ [n]) @ p # b) (length (a @ [n])) woken
      else
        (case item_overlap p n of
           None \<Rightarrow> Inl Panic
         | Some ToLeft \<Rightarrow>
             rbind (item_set_start n (item_end p)) (\<lambda>(n', w). Inr (a @ p # n' # b, woken @ w))
         | Some InMiddle \<Rightarrow>
             rbind (item_set_start n (item_end p)) (\<lambda>(r, w1).
             rbind (item_set_end n (item_start p)) (\<lambda>(n', w2).
               Inr (a @ n' # p # r # b, woken @ w1 @ w2)))
         | Some ToRight \<Rightarrow>
             rbind (item_set_end n (item_start p)) (\<lambda>(n', w).
               insert_loop ((a @ [n']) @ p # b) (length (a @ [n'])) (woken @ w))
         | Some Includes \<Rightarrow> insert_loop (a @ p # b) (length a) (woken @ [waitqueue n])))"
  by (subst insert_loop.simps) (simp add: nth_append list_update_append Let_def split: option.split overlap_with.split)

text \<open>\<open>covers\<close>: the list has a lock of the owner and type of \<open>p\<close> over all of its range.\<close>

definition covers :: "range_lock_item list \<Rightarrow> range_lock_item \<Rightarrow> bool" where
  "covers ls p \<longleftrightarrow> list_ex (\<lambda>it. owner (lock it) = owner (lock p) \<and>
     lock_type (lock it) = lock_type (lock p) \<and> item_start it \<le> item_start p \<and> item_end p \<le> item_end it) ls"

definition insert_post :: "range_lock_item list \<Rightarrow> range_lock_item \<Rightarrow> range_lock_item list \<Rightarrow> bool" where
  "insert_post ls p ls' \<longleftrightarrow> list_all item_ok ls' \<and> covers ls' p \<and>
     others (owner (lock p)) ls' = others (owner (lock p)) ls \<and>
     (\<forall>own t x. held ls' own t x \<longrightarrow> held ls own t x)"

lemma insert_postI:
  assumes "list_all item_ok ls'" "covers ls' p"
    "others (owner (lock p)) ls' = others (owner (lock p)) ls"
    "\<And>own t x. held ls' own t x \<Longrightarrow> held ls own t x"
  shows "insert_post ls p ls'"
  using assms by (simp add: insert_post_def)

lemma insert_post_trans:
  assumes "insert_post ls1 q ls'" "owner (lock q) = owner (lock p)"
    "lock_type (lock q) = lock_type (lock p)" "item_start q \<le> item_start p" "item_end p \<le> item_end q"
    "others (owner (lock p)) ls1 = others (owner (lock p)) ls"
    "\<And>own t x. held ls1 own t x \<Longrightarrow> held ls own t x"
  shows "insert_post ls p ls'"
  using assms unfolding insert_post_def covers_def list_ex_iff by (metis le_trans)

lemma holds_sub:
  assumes "holds m own t x" "owner (lock m) = owner (lock n)" "lock_type (lock m) = lock_type (lock n)"
    "item_start n \<le> item_start m" "item_end m \<le> item_end n"
  shows "holds n own t x"
  using assms by (auto simp: holds_def)

lemma covers_self [simp]: "covers (a @ p # b) p" "covers (a @ n # p # b) p"
  by (simp_all add: covers_def)

lemma insert_loop_spec:
  assumes "list_all item_ok (a @ p # b)"
  shows "\<exists>ls' woken'. insert_loop (a @ p # b) (length a) woken = Inr (ls', woken') \<and>
    insert_post (a @ p # b) p ls'"
  using assms
proof (induction b arbitrary: a p woken)
  case Nil
  then show ?case by (auto intro!: insert_postI)
next
  case (Cons n b)
  let ?ls = "a @ p # n # b"
  have ok: "item_ok p" "item_ok n" "list_all item_ok a" "list_all item_ok b" using Cons.prems by auto
  have same: "insert_post ?ls p ?ls" using Cons.prems by (intro insert_postI) auto
  have step: "\<exists>ls' woken'. insert_loop (a' @ q # b) (length a') w = Inr (ls', woken') \<and> insert_post ?ls p ls'"
    if "list_all item_ok (a' @ q # b)" "owner (lock q) = owner (lock p)"
      "lock_type (lock q) = lock_type (lock p)" "item_start q \<le> item_start p" "item_end p \<le> item_end q"
      "others (owner (lock p)) (a' @ q # b) = others (owner (lock p)) ?ls"
      "\<And>own t x. held (a' @ q # b) own t x \<Longrightarrow> held ?ls own t x" for a' q w
    using Cons.IH [OF that(1)] insert_post_trans [OF _ that(2-7)] by blast
  have swap: "\<exists>ls' woken'. insert_loop ((a @ [n]) @ p # b) (length (a @ [n])) w = Inr (ls', woken') \<and>
      insert_post ?ls p ls'" if "owner (lock n) = owner (lock p)" for w
    by (rule step) (use that ok in auto)
  show ?case
  proof (cases "owner (lock n) = owner (lock p)")
    case own: True
    show ?thesis
    proof (cases "lock_type (lock n) = lock_type (lock p)")
      case ty: True
      show ?thesis
      proof (cases "item_end p < item_start n \<or> item_end n < item_start p")
        case True
        then show ?thesis
          using own ty same swap by (auto simp: insert_loop_step [of a p n b] simp del: append_assoc length_append)
      next
        case False
        obtain m where m: "merge_with n p = Inr m" "owner (lock m) = owner (lock p)"
          "lock_type (lock m) = lock_type (lock p)" "item_start m = min (item_start n) (item_start p)"
          "item_end m = max (item_end n) (item_end p)"
          using False own ty by (metis merge_with_ok)
        have hold: "holds m own' t x \<longrightarrow> holds n own' t x \<or> holds p own' t x" for own' t x
          using m own ty False by (auto simp: holds_def)
        have "item_ok m" using m ok by (auto simp: item_ok_def)
        then have "\<exists>ls' woken'. insert_loop (a @ m # b) (length a) w = Inr (ls', woken') \<and>
            insert_post ?ls p ls'" for w
          by (intro step) (use m own ok hold in auto)
        then show ?thesis using False own ty m by (simp add: insert_loop_step [of a p n b])
      qed
    next
      case ty: False
      note eq = insert_loop_step [of a p n b woken]
      from ok(1) ok(2) show ?thesis
      proof (cases rule: item_overlap_cases)
        case none
        then show ?thesis
          using own ty same swap by (auto simp: eq simp del: append_assoc length_append)
      next
        case left
        then obtain n' w where n': "item_set_start n (item_end p) = Inr (n', w)"
          "owner (lock n') = owner (lock n)" "lock_type (lock n') = lock_type (lock n)"
          "item_start n' = item_end p" "item_end n' = item_end n" by (metis item_set_start_ok)
        have "insert_post ?ls p (a @ p # n' # b)"
          using left n' ok own by (intro insert_postI) (auto simp: item_ok_def dest: holds_sub [of n' _ _ _ n])
        then show ?thesis using own ty left n' ok by (simp add: eq item_ok_def)
      next
        case mid
        then obtain r w where r: "item_set_start n (item_end p) = Inr (r, w)"
          "owner (lock r) = owner (lock n)" "lock_type (lock r) = lock_type (lock n)"
          "item_start r = item_end p" "item_end r = item_end n" by (metis item_set_start_ok)
        have "insert_post ?ls p (a @ n # p # r # b)"
          using mid r ok own
          by (intro insert_postI) (auto simp: item_ok_def dest: holds_sub [of r _ _ _ n])
        then show ?thesis using own ty mid r ok by (simp add: eq item_ok_def item_set_end_ok)
      next
        case right
        then show ?thesis using own ty ok swap
          by (simp add: eq item_ok_def item_set_end_ok del: append_assoc length_append)
      next
        case incl
        have "\<exists>ls' woken'. insert_loop (a @ p # b) (length a) w = Inr (ls', woken') \<and>
            insert_post ?ls p ls'" for w
          by (intro step) (use own ok in auto)
        then show ?thesis using own ty incl ok by (simp add: eq item_ok_def)
      qed
    qed
  qed (use same in \<open>auto simp: insert_loop_step [of a p n b]\<close>)
qed

lemma insert_lock_spec:
  assumes "list_all item_ok ls" "item_ok req"
  shows "\<exists>ls' woken. insert_lock_into_list ls req = Inr (ls', woken) \<and> insert_post (req # ls) req ls'"
proof (cases "position (\<lambda>lk. owner (lock lk) = owner (lock req)) ls")
  case None
  then have "\<forall>it\<in>set ls. owner (lock it) \<noteq> owner (lock req)" by (auto dest: position_NoneD)
  then have "insert_post (req # ls) req (ls @ [req])"
    using assms by (intro insert_postI) auto
  with None show ?thesis by (simp add: insert_lock_into_list_def)
next
  case (Some i)
  define a b where "a = take i ls" and "b = drop i ls"
  have i: "length a = i" and ls: "ls = a @ b" using position_SomeD [OF Some] by (simp_all add: a_def b_def)
  have "insert_lock_into_list ls req = insert_loop (a @ req # b) (length a) []"
    using Some by (simp add: insert_lock_into_list_def vec_insert_def a_def b_def i [unfolded a_def] del: length_take)
  moreover obtain ls' woken' where "insert_loop (a @ req # b) (length a) [] = Inr (ls', woken')"
    and post: "insert_post (a @ req # b) req ls'"
    using insert_loop_spec [of a req b "[]"] assms ls by auto
  moreover have "insert_post (req # ls) req ls'"
    by (rule insert_post_trans [OF post]) (auto simp: ls)
  ultimately show ?thesis by auto
qed

lemma find_conflict_None:
  "find (conflict_with req) ls = None \<longleftrightarrow> (\<forall>it\<in>set ls. \<not> conflict_with req it)"
  by (auto simp: find_None_iff)

section \<open>Unlocking\<close>

lemma unlock_loop_Nil [simp]: "unlock_loop req a (length a) woken = Inr (a, woken)"
  by (subst unlock_loop.simps) simp

lemma unlock_loop_skip:
  assumes "owner (lock e) \<noteq> owner (lock req)"
  shows "unlock_loop req (a @ e # b) (length a) woken =
    unlock_loop req ((a @ [e]) @ b) (length (a @ [e])) woken"
proof -
  have eq: "(a @ [e]) @ b = a @ e # b" by simp
  show ?thesis unfolding eq
    using assms by (subst (1 2) unlock_loop.simps) (simp split: option.split add: ac_simps)
qed

lemma unlock_loop_step:
  "owner (lock e) = owner (lock req) \<Longrightarrow>
    unlock_loop req (a @ e # b) (length a) woken =
     (case item_overlap req e of
        None \<Rightarrow> unlock_loop req ((a @ [e]) @ b) (length (a @ [e])) woken
      | Some ToLeft \<Rightarrow>
          rbind (item_set_start e (item_end req)) (\<lambda>(e', w). Inr (a @ e' # b, woken @ w))
      | Some InMiddle \<Rightarrow>
          rbind (item_set_start e (item_end req)) (\<lambda>(r, w1).
          rbind (item_set_end e (item_start req)) (\<lambda>(e', w2). Inr (a @ e' # r # b, woken @ w1 @ w2)))
      | Some ToRight \<Rightarrow>
          rbind (item_set_end e (item_start req)) (\<lambda>(e', w).
            unlock_loop req ((a @ [e']) @ b) (length (a @ [e'])) (woken @ w))
      | Some Includes \<Rightarrow> unlock_loop req (a @ b) (length a) (woken @ [waitqueue e]))"
  by (subst unlock_loop.simps)
    (simp add: nth_append list_update_append Let_def vec_insert_def split: option.split overlap_with.split)

definition unlock_post ::
  "range_lock_item \<Rightarrow> range_lock_item list \<Rightarrow> range_lock_item list \<Rightarrow> nat list \<Rightarrow> bool" where
  "unlock_post req ls ls' woken \<longleftrightarrow> list_all item_ok ls' \<and>
     others (owner (lock req)) ls' = others (owner (lock req)) ls \<and>
     (\<forall>own t x. held ls' own t x \<longrightarrow> held ls own t x) \<and>
     (\<forall>own t x. held ls own t x \<and> \<not> (own = owner (lock req) \<and> item_start req \<le> x \<and> x < item_end req)
        \<longrightarrow> held ls' own t x) \<and>
     (\<forall>it\<in>set ls. it \<in> set ls' \<or> waitqueue it \<in> set woken)"

lemma unlock_postI:
  assumes "list_all item_ok ls'" "others (owner (lock req)) ls' = others (owner (lock req)) ls"
    "\<And>own t x. held ls' own t x \<Longrightarrow> held ls own t x"
    "\<And>own t x. held ls own t x \<Longrightarrow> \<not> (own = owner (lock req) \<and> item_start req \<le> x \<and> x < item_end req)
      \<Longrightarrow> held ls' own t x"
    "\<And>it. it \<in> set ls \<Longrightarrow> it \<in> set ls' \<or> waitqueue it \<in> set woken"
  shows "unlock_post req ls ls' woken"
  using assms by (simp add: unlock_post_def)

lemma unlock_post_trans:
  assumes "unlock_post req ls1 ls' woken"
    "others (owner (lock req)) ls1 = others (owner (lock req)) ls"
    "\<And>own t x. held ls1 own t x \<Longrightarrow> held ls own t x"
    "\<And>own t x. held ls own t x \<Longrightarrow> \<not> (own = owner (lock req) \<and> item_start req \<le> x \<and> x < item_end req)
      \<Longrightarrow> held ls1 own t x"
    "\<And>it. it \<in> set ls \<Longrightarrow> it \<in> set ls1 \<or> waitqueue it \<in> set woken"
  shows "unlock_post req ls ls' woken"
  using assms unfolding unlock_post_def by metis

lemma unlock_loop_spec:
  assumes "list_all item_ok (a @ b)" "item_ok req"
  shows "\<exists>ls' woken'. unlock_loop req (a @ b) (length a) woken = Inr (ls', woken') \<and>
    set woken \<subseteq> set woken' \<and> unlock_post req (a @ b) ls' woken'"
  using assms(1)
proof (induction b arbitrary: a woken)
  case Nil
  then show ?case by (auto intro!: unlock_postI)
next
  case (Cons e b)
  let ?ls = "a @ e # b"
  have ok: "item_ok e" "list_all item_ok a" "list_all item_ok b" using Cons.prems by auto
  have move: "\<exists>ls' woken'. unlock_loop req ((a @ [e]) @ b) (length (a @ [e])) (woken @ w) = Inr (ls', woken') \<and>
      set woken \<subseteq> set woken' \<and> unlock_post req ?ls ls' woken'" for w
    using Cons.IH [of "a @ [e]" "woken @ w"] Cons.prems by auto
  show ?case
  proof (cases "owner (lock e) = owner (lock req)")
    case False
    then show ?thesis using move [of "[]"] by (simp add: unlock_loop_skip del: append_assoc length_append)
  next
    case own: True
    note eq = unlock_loop_step [OF own, of a b woken]
    from assms(2) ok(1) show ?thesis
    proof (cases rule: item_overlap_cases)
      case none
      then show ?thesis using move [of "[]"] by (simp add: eq del: append_assoc length_append)
    next
      case left
      then obtain e' where e': "item_set_start e (item_end req) = Inr (e', [waitqueue e])"
        "owner (lock e') = owner (lock e)" "lock_type (lock e') = lock_type (lock e)"
        "item_start e' = item_end req" "item_end e' = item_end e" using item_set_start_shrunk by blast
      have "unlock_post req ?ls (a @ e' # b) (woken @ [waitqueue e])"
        using left e' ok own
        by (intro unlock_postI) (auto simp: item_ok_def holds_def)
      then show ?thesis using left e' by (simp add: eq subset_iff)
    next
      case mid
      then obtain r w where r: "item_set_start e (item_end req) = Inr (r, w)"
        "owner (lock r) = owner (lock e)" "lock_type (lock r) = lock_type (lock e)"
        "item_start r = item_end req" "item_end r = item_end e" by (metis item_set_start_ok)
      have "unlock_post req ?ls (a @ e # r # b) w'" for w'
        using mid r ok own assms(2)
        by (intro unlock_postI) (auto simp: item_ok_def dest: holds_sub [of r _ _ _ e])
      then show ?thesis using mid r by (simp add: eq item_set_end_ok subset_iff)
    next
      case right
      then show ?thesis using move by (simp add: eq item_set_end_ok del: append_assoc length_append)
    next
      case incl
      obtain ls' w where ls': "unlock_loop req (a @ b) (length a) (woken @ [waitqueue e]) = Inr (ls', w)"
        "set (woken @ [waitqueue e]) \<subseteq> set w" "unlock_post req (a @ b) ls' w"
        using Cons.IH [of a "woken @ [waitqueue e]"] Cons.prems by auto
      have "unlock_post req ?ls ls' w"
        by (rule unlock_post_trans [OF ls'(3)]) (use incl own ls'(2) in \<open>auto simp: holds_def\<close>)
      then show ?thesis using incl ls' by (simp add: eq)
    qed
  qed
qed

text \<open>Where no lock of the owner begins before the range, the trimming of ends is not needed, and
  the range is released in full.\<close>

definition owner_sorted :: "nat \<Rightarrow> range_lock_item list \<Rightarrow> bool" where
  "owner_sorted own ls \<longleftrightarrow>
     sorted_wrt (\<lambda>x y. owner (lock x) = own \<and> owner (lock y) = own \<longrightarrow> item_end x \<le> item_start y) ls"

definition clear_of :: "range_lock_item \<Rightarrow> range_lock_item list \<Rightarrow> bool" where
  "clear_of req ls \<longleftrightarrow> list_all (\<lambda>it. owner (lock it) = owner (lock req) \<longrightarrow>
     item_start req \<ge> item_end it \<or> item_end req \<le> item_start it) ls"

lemma unlock_loop_clear:
  assumes "list_all item_ok (a @ b)" "item_ok req" "owner_sorted (owner (lock req)) b" "clear_of req a"
    "list_all (\<lambda>it. owner (lock it) = owner (lock req) \<longrightarrow> item_start req \<le> item_start it) b"
    "unlock_loop req (a @ b) (length a) woken = Inr (ls', woken')"
  shows "clear_of req ls'"
  using assms(1,3-)
proof (induction b arbitrary: a woken)
  case Nil
  then show ?case by simp
next
  case (Cons e b)
  have ok: "item_ok e" "list_all item_ok a" "list_all item_ok b" using Cons.prems(1) by auto
  have srt: "owner_sorted (owner (lock req)) b" using Cons.prems(2) by (simp add: owner_sorted_def)
  have move: "clear_of req ls'" if "clear_of req [e]"
    "unlock_loop req ((a @ [e]) @ b) (length (a @ [e])) woken = Inr (ls', woken')"
    by (rule Cons.IH [OF _ srt _ _ that(2)]) (use Cons.prems that(1) in \<open>auto simp: clear_of_def\<close>)
  show ?case
  proof (cases "owner (lock e) = owner (lock req)")
    case False
    then show ?thesis using move Cons.prems(5)
      by (simp add: unlock_loop_skip clear_of_def del: append_assoc length_append)
  next
    case own: True
    note eq = unlock_loop_step [OF own, of a b woken]
    have le: "item_start req \<le> item_start e" using Cons.prems(4) own by simp
    from assms(2) ok(1) show ?thesis
    proof (cases rule: item_overlap_cases)
      case none
      then show ?thesis using move Cons.prems(5)
        by (simp add: eq clear_of_def del: append_assoc length_append)
    next
      case left
      then obtain e' where e': "item_set_start e (item_end req) = Inr (e', [waitqueue e])"
        "owner (lock e') = owner (lock e)" "item_start e' = item_end req" using item_set_start_shrunk by blast
      have "clear_of req b"
        using Cons.prems(2) own left by (fastforce simp: clear_of_def owner_sorted_def list_all_iff)
      then show ?thesis using Cons.prems(3,5) left e' by (auto simp: eq clear_of_def)
    next
      case incl
      show ?thesis
        by (rule Cons.IH [of a "woken @ [waitqueue e]"])
          (use Cons.prems srt incl eq in \<open>auto\<close>)
    qed (use le in auto)
  qed
qed

section \<open>Histories\<close>

lemma set_lock_granted:
  assumes ok: "list_all item_ok ls" "item_ok req" and free: "find (conflict_with req) ls = None"
    and nc: "no_conflicts ls"
  shows "\<exists>ls' woken. try_set_lock ls req w = Inr (Granted ls' woken) \<and> insert_post (req # ls) req ls' \<and>
    no_conflicts ls'"
proof -
  obtain ls' woken where ls': "insert_lock_into_list ls req = Inr (ls', woken)" "insert_post (req # ls) req ls'"
    using insert_lock_spec [OF ok] by blast
  have "no_conflicts (req # ls)"
    using nc free conflict_with_sym [of req]
    by (auto simp: no_conflicts_def find_conflict_None list_all_iff conflict_with_def)
  moreover have "list_all item_ok ls'" "\<forall>own t x. held ls' own t x \<longrightarrow> held (req # ls) own t x"
    using ls'(2) by (simp_all add: insert_post_def)
  ultimately have "no_conflicts ls'"
    using ok no_conflicts_mono [of "req # ls" ls'] by simp
  then show ?thesis using ls' free by (simp add: try_set_lock_def)
qed

lemma covers_held:
  "covers ls req \<Longrightarrow> item_start req \<le> p \<Longrightarrow> p < item_end req \<Longrightarrow>
    held ls (owner (lock req)) (lock_type (lock req)) p"
  by (fastforce simp: covers_def held_def holds_def list_ex_iff)

lemma unlock_ok:
  assumes "list_all item_ok ls" "item_ok req"
  shows "\<exists>ls' woken. unlock ls req = Inr (ls', woken) \<and> unlock_post req ls ls' woken"
  using unlock_loop_spec [of "[]" ls req "[]"] assms by (auto simp: unlock_def)

text \<open>The lists that locking and unlocking build from the empty list.\<close>

inductive lock_history :: "range_lock_item list \<Rightarrow> bool" where
  empty: "lock_history []"
| set_lock: "lock_history ls \<Longrightarrow> item_ok req \<Longrightarrow> try_set_lock ls req w = Inr (Granted ls' woken) \<Longrightarrow>
    lock_history ls'"
| unlock: "lock_history ls \<Longrightarrow> item_ok req \<Longrightarrow> unlock ls req = Inr (ls', woken) \<Longrightarrow> lock_history ls'"

lemma lock_history_ok: "lock_history ls \<Longrightarrow> list_all item_ok ls \<and> no_conflicts ls"
proof (induction rule: lock_history.induct)
  case empty
  then show ?case by (simp add: no_conflicts_def)
next
  case (set_lock ls req w ls' woken)
  then have "find (conflict_with req) ls = None"
    by (auto simp: try_set_lock_def split: option.splits)
  then show ?case using set_lock set_lock_granted [of ls req w] by (auto simp: insert_post_def)
next
  case (unlock ls req ls' woken)
  then have post: "unlock_post req ls ls' woken" using unlock_ok [of ls req] by auto
  then have ok: "list_all item_ok ls'" and sub: "\<And>own t x. held ls' own t x \<Longrightarrow> held ls own t x"
    by (simp_all add: unlock_post_def)
  have "no_conflicts ls'"
    using unlock.IH no_conflicts_mono [OF _ ok _ sub] by blast
  with ok show ?case by simp
qed

section \<open>Properties\<close>

text \<open>C3. Exclusion of record locks. In every lock list that locking and unlocking build from the
  empty one, no byte that a process holds under a write lock is held by another process under any
  lock. Moreover a further request never panics: it is refused with EAGAIN exactly when a lock of
  the list conflicts with it, and otherwise the new list holds the whole range for the caller, has
  no conflict, and keeps the locks of all other processes as they were.\<close>

theorem record_locks_exclusive:
  assumes "lock_history ls" "item_ok req"
  shows "(\<forall>own own' t p. held ls own WriteLock p \<and> held ls own' t p \<longrightarrow> own = own') \<and>
    (if list_ex (conflict_with req) ls then \<exists>q. try_set_lock ls req w = Inr (Again q)
     else \<exists>ls' woken. try_set_lock ls req w = Inr (Granted ls' woken) \<and> no_conflicts ls' \<and>
        (\<forall>x. item_start req \<le> x \<and> x < item_end req \<longrightarrow>
           held ls' (owner (lock req)) (lock_type (lock req)) x) \<and>
        others (owner (lock req)) ls' = others (owner (lock req)) ls)"
proof -
  have ok: "list_all item_ok ls" "no_conflicts ls" using lock_history_ok [OF assms(1)] by auto
  have none: "list_ex (conflict_with req) ls \<longleftrightarrow> find (conflict_with req) ls \<noteq> None"
    using find_conflict_None by (auto simp: list_ex_iff)
  note grant = set_lock_granted [OF ok(1) assms(2) _ ok(2), of w]
  have "\<exists>q. try_set_lock ls req w = Inr (Again q)" if "list_ex (conflict_with req) ls"
    using that unfolding none by (auto simp: try_set_lock_def)
  moreover have "\<exists>ls' woken. try_set_lock ls req w = Inr (Granted ls' woken) \<and> no_conflicts ls' \<and>
        (\<forall>x. item_start req \<le> x \<and> x < item_end req \<longrightarrow>
           held ls' (owner (lock req)) (lock_type (lock req)) x) \<and>
        others (owner (lock req)) ls' = others (owner (lock req)) ls"
    if "\<not> list_ex (conflict_with req) ls"
    using that grant covers_held unfolding none insert_post_def by fastforce
  moreover have "\<forall>own own' t p. held ls own WriteLock p \<and> held ls own' t p \<longrightarrow> own = own'"
    using no_conflicts_holds [OF ok(1)] ok(2) by blast
  ultimately show ?thesis by simp
qed

definition mk_lock :: "nat \<Rightarrow> range_lock_type \<Rightarrow> nat \<Rightarrow> nat \<Rightarrow> nat \<Rightarrow> range_lock_item" where
  "mk_lock own t s e q =
     \<lparr>lock = \<lparr>owner = own, lock_type = t, range = \<lparr>fr_start = s, fr_end = e\<rparr>\<rparr>, waitqueue = q\<rparr>"

lemmas mk_lock_simps = mk_lock_def item_ok_def item_start_def item_end_def

lemma lock_history_single: "s < e \<Longrightarrow> lock_history [mk_lock own t s e q]"
  by (rule lock_history.set_lock [OF lock_history.empty, where req = "mk_lock own t s e q" and w = False])
    (auto simp: mk_lock_simps try_set_lock_def insert_lock_into_list_def)

theorem record_locks_exclusive_witness:
  "lock_history [mk_lock 1 WriteLock 0 10 7] \<and>
   (\<exists>q. try_set_lock [mk_lock 1 WriteLock 0 10 7] (mk_lock 2 ReadLock 5 15 8) True = Inr (Again q)) \<and>
   (\<exists>ls' woken. try_set_lock [mk_lock 1 WriteLock 0 10 7] (mk_lock 2 ReadLock 10 15 8) True =
      Inr (Granted ls' woken) \<and> no_conflicts ls')"
proof -
  have h: "lock_history [mk_lock 1 WriteLock 0 10 7]" by (rule lock_history_single) simp
  have "item_ok (mk_lock 2 ReadLock 5 15 8)" "item_ok (mk_lock 2 ReadLock 10 15 8)"
    by (simp_all add: mk_lock_simps)
  moreover have "list_ex (conflict_with (mk_lock 2 ReadLock 5 15 8)) [mk_lock 1 WriteLock 0 10 7]"
    "\<not> list_ex (conflict_with (mk_lock 2 ReadLock 10 15 8)) [mk_lock 1 WriteLock 0 10 7]"
    by (simp_all add: mk_lock_def conflict_with_def item_overlap_def fr_overlap_def)
  ultimately show ?thesis
    using h record_locks_exclusive [OF h] by meson
qed

text \<open>C27. Unlocking is local and loses no wakeup. On a list of well-formed locks \<open>unlock\<close> returns;
  it takes nothing from other processes, adds no lock on any byte, keeps every byte outside the
  given range, and every lock that is no longer in the list (because it was removed, or cut) has
  its wait queue woken, so that a process blocked on it tries again.\<close>

theorem unlock_local_and_wakes:
  assumes "list_all item_ok ls" "item_ok req"
  shows "\<exists>ls' woken. unlock ls req = Inr (ls', woken) \<and>
    others (owner (lock req)) ls' = others (owner (lock req)) ls \<and>
    (\<forall>own t x. held ls' own t x \<longrightarrow> held ls own t x) \<and>
    (\<forall>own t x. held ls own t x \<and> \<not> (own = owner (lock req) \<and> item_start req \<le> x \<and> x < item_end req)
       \<longrightarrow> held ls' own t x) \<and>
    (\<forall>it\<in>set ls. it \<in> set ls' \<or> waitqueue it \<in> set woken)"
  using unlock_ok [OF assms] by (auto simp: unlock_post_def)

theorem unlock_local_and_wakes_witness:
  "list_all item_ok [mk_lock 1 WriteLock 2 4 7, mk_lock 1 ReadLock 6 9 8] \<and> item_ok (mk_lock 1 Unlock 1 7 0) \<and>
   (\<exists>ls' woken. unlock [mk_lock 1 WriteLock 2 4 7, mk_lock 1 ReadLock 6 9 8] (mk_lock 1 Unlock 1 7 0) =
      Inr (ls', woken) \<and> (mk_lock 1 WriteLock 2 4 7 \<in> set ls' \<or> 7 \<in> set woken))"
  using unlock_local_and_wakes [of "[mk_lock 1 WriteLock 2 4 7, mk_lock 1 ReadLock 6 9 8]" "mk_lock 1 Unlock 1 7 0"]
  by (auto simp: mk_lock_simps)

text \<open>Exact release. When the locks of the caller are sorted and none of them begins before the
  range to unlock, the bytes held after \<open>unlock\<close> are exactly those held before, less the range for
  the caller.\<close>

theorem unlock_exact:
  assumes "list_all item_ok ls" "item_ok req" "owner_sorted (owner (lock req)) ls"
    "list_all (\<lambda>it. owner (lock it) = owner (lock req) \<longrightarrow> item_start req \<le> item_start it) ls"
  shows "\<exists>ls' woken. unlock ls req = Inr (ls', woken) \<and>
    (\<forall>own t x. held ls' own t x \<longleftrightarrow> held ls own t x \<and>
       \<not> (own = owner (lock req) \<and> item_start req \<le> x \<and> x < item_end req))"
proof -
  obtain ls' woken where ls': "unlock ls req = Inr (ls', woken)" "unlock_post req ls ls' woken"
    using unlock_ok [OF assms(1,2)] by blast
  have "clear_of req ls'"
    using unlock_loop_clear [of "[]" ls req "[]" ls' woken] assms ls'(1) by (simp add: unlock_def clear_of_def)
  then have "\<not> (own = owner (lock req) \<and> item_start req \<le> x \<and> x < item_end req)" if "held ls' own t x" for own t x
    using that by (fastforce simp: clear_of_def list_all_iff holds_def elim!: heldE)
  then show ?thesis using ls' unfolding unlock_post_def by metis
qed

theorem unlock_exact_witness:
  "owner_sorted 1 [mk_lock 1 WriteLock 2 4 7, mk_lock 1 ReadLock 6 9 8] \<and>
   (\<exists>ls' woken. unlock [mk_lock 1 WriteLock 2 4 7, mk_lock 1 ReadLock 6 9 8] (mk_lock 1 Unlock 1 7 0) =
      Inr (ls', woken) \<and> \<not> held ls' 1 ReadLock 6 \<and> held ls' 1 ReadLock 7)"
  using unlock_exact [of "[mk_lock 1 WriteLock 2 4 7, mk_lock 1 ReadLock 6 9 8]" "mk_lock 1 Unlock 1 7 0"]
  by (auto simp: mk_lock_simps owner_sorted_def holds_def)

text \<open>C32. The right part of a lock cannot be released. A process whose only lock begins before the
  range it unlocks keeps the lock whole when the range reaches its end: \<open>set_end\<close> works on a copy of
  the range, so the list is as it was, although the waiters are woken.\<close>

theorem unlock_right_part_keeps_lock:
  assumes "item_ok req" "item_ok it" "owner (lock it) = owner (lock req)"
    "item_start it < item_start req" "item_start req < item_end it" "item_end it \<le> item_end req"
  shows "unlock [it] req = Inr ([it], [waitqueue it])"
  using assms unlock_loop_step [of it req "[]" "[]" "[]"] unlock_loop_Nil [of req "[it]" "[waitqueue it]"]
    item_set_end_ok [of it "item_start req"]
  by (simp add: unlock_def item_overlap_def fr_overlap_def item_start_def item_end_def)

theorem unlock_right_part_keeps_lock_witness:
  "unlock [mk_lock 1 WriteLock 0 10 7] (mk_lock 1 Unlock 5 10 8) = Inr ([mk_lock 1 WriteLock 0 10 7], [7])"
  using unlock_right_part_keeps_lock [of "mk_lock 1 Unlock 5 10 8" "mk_lock 1 WriteLock 0 10 7"]
  by (simp add: mk_lock_simps)

end
