(* ===== verification/Vm_Io.thy ===== *)
theory Vm_Io
  imports Prelude
begin

text \<open>
  Copies between kernel buffers and user memory: the fallible readers and writers of
  \<open>osxtd/src/mm/io.rs\<close>, the range check of \<open>osxtd/src/mm/vm_space.rs\<close> and the vectors of user
  buffers of \<open>kernel/src/util/iovec.rs\<close>.

  A fallible reader is the list of the bytes it has still to read, \<open>None\<close> where the page is not
  mapped; a fallible writer is the list of the bytes it can still write, \<open>False\<close> where the page is
  not mapped. A copy stops at the first fault. The kernel side of a copy is the number of bytes it
  has room for, or the bytes it offers.
\<close>

section \<open>Readers and writers\<close>

type_synonym 'b user_reader = "'b option list"
type_synonym user_writer = "bool list"

text \<open>The results are the bytes copied, what remains of the user side, and whether a page fault cut
  the copy short.\<close>

definition read_fallible :: "'b user_reader \<Rightarrow> nat \<Rightarrow> 'b list \<times> 'b user_reader \<times> bool" where
  "read_fallible r avail =
     (let copy_len = min (length r) avail;
          copied = takeWhile (\<lambda>x. x \<noteq> None) (take copy_len r)
      in (map the copied, drop (length copied) r, length copied < copy_len))"

definition write_fallible :: "user_writer \<Rightarrow> 'b list \<Rightarrow> 'b list \<times> user_writer \<times> bool" where
  "write_fallible w bytes =
     (let copy_len = min (length w) (length bytes);
          copied = length (takeWhile id (take copy_len w))
      in (take copied bytes, drop copied w, copied < copy_len))"

definition io_limit :: "'b list \<Rightarrow> nat \<Rightarrow> 'b list" where
  "io_limit r max_remain = (if max_remain < length r then take max_remain r else r)"

definition io_skip :: "'b list \<Rightarrow> nat \<Rightarrow> 'b list result" where
  "io_skip r nbytes = (if nbytes \<le> length r then Inr (drop nbytes r) else Inl Panic)"

section \<open>Vectors of user buffers\<close>

definition sum_lens :: "'x list list \<Rightarrow> nat" where
  "sum_lens rs = sum_list (map length rs)"

text \<open>\<open>MultiRead::read\<close> into a kernel buffer with room for \<open>avail\<close> bytes.\<close>

fun multi_read :: "'b user_reader list \<Rightarrow> nat \<Rightarrow> 'b list \<times> 'b user_reader list \<times> bool" where
  "multi_read [] avail = ([], [], False)"
| "multi_read (r # rs) avail =
     (case read_fallible r avail of (c, r', fault) \<Rightarrow>
        if fault then (c, r' # rs, True)
        else if \<not> length c < avail then (c, r' # rs, False)
        else case multi_read rs (avail - length c) of (c', rs', fault') \<Rightarrow> (c @ c', r' # rs', fault'))"

text \<open>\<open>MultiWrite::write\<close> of the bytes of a kernel buffer.\<close>

fun multi_write :: "user_writer list \<Rightarrow> 'b list \<Rightarrow> 'b list \<times> user_writer list \<times> bool" where
  "multi_write [] bytes = ([], [], False)"
| "multi_write (w # ws) bytes =
     (case write_fallible w bytes of (c, w', fault) \<Rightarrow>
        if fault then (c, w' # ws, True)
        else if \<not> length c < length bytes then (c, w' # ws, False)
        else case multi_write ws (drop (length c) bytes) of (c', ws', fault') \<Rightarrow> (c @ c', w' # ws', fault'))"

fun skip_some :: "'x list list \<Rightarrow> nat \<Rightarrow> 'x list list" where
  "skip_some [] nbytes = []"
| "skip_some (r # rs) nbytes =
     (let bytes_to_skip = min (length r) nbytes; nbytes' = nbytes - bytes_to_skip in
      if nbytes' = 0 then drop bytes_to_skip r # rs
      else drop bytes_to_skip r # skip_some rs nbytes')"

section \<open>I/O vectors of user space\<close>

record io_vec =
  iov_base :: nat
  iov_len :: nat

definition iovec_try_from :: "nat \<times> int \<Rightarrow> io_vec result" where
  "iovec_try_from u = (if snd u < 0 then Inl (Errno EINVAL)
     else Inr \<lparr>iov_base = fst u, iov_len = nat (snd u)\<rparr>)"

definition iovec_is_empty :: "io_vec \<Rightarrow> bool" where
  "iovec_is_empty iov \<longleftrightarrow> iov_len iov = 0 \<or> iov_base iov = 0"

definition MAX_IO_VECTOR_LENGTH :: nat where
  "MAX_IO_VECTOR_LENGTH = 1024"

definition MAX_TOTAL_IOV_BYTES :: nat where
  "MAX_TOTAL_IOV_BYTES = 2 ^ 63 - 1"

text \<open>The checks of \<open>VmSpace::reader\<close> and \<open>writer\<close>: the address space is the active one, and the
  range lies below the end of user space; \<open>AccessDenied\<close> becomes \<open>EFAULT\<close>.\<close>

definition vm_space_reader :: "bool \<Rightarrow> nat \<Rightarrow> nat \<Rightarrow> nat \<Rightarrow> io_vec result" where
  "vm_space_reader active max_user vaddr len =
     (if \<not> active then Inl (Errno EFAULT)
      else if (if vaddr + len < 2 ^ 64 then vaddr + len else 2 ^ 64 - 1) > max_user
      then Inl (Errno EFAULT)
      else Inr \<lparr>iov_base = vaddr, iov_len = len\<rparr>)"

text \<open>The loop of \<open>copy_iovs_and_convert\<close>. \<open>fetch\<close> reads a \<open>UserIoVec\<close> at an address, \<open>None\<close> on a
  page fault.\<close>

fun copy_iovs ::
  "bool \<Rightarrow> nat \<Rightarrow> (nat \<Rightarrow> (nat \<times> int) option) \<Rightarrow> nat \<Rightarrow> nat list \<Rightarrow> nat \<Rightarrow> io_vec list result" where
  "copy_iovs active max_user fetch start_addr [] max_len = Inr []"
| "copy_iovs active max_user fetch start_addr (idx # idxs) max_len =
     rbind (uadd start_addr (idx * 16)) (\<lambda>addr.
     rbind (vm_space_reader active max_user addr 16) (\<lambda>_.
     rbind (case fetch addr of None \<Rightarrow> Inl (Errno EFAULT) | Some u \<Rightarrow> iovec_try_from u) (\<lambda>iov0.
       let iov = (if iov_len iov0 > max_len then iov0\<lparr>iov_len := max_len\<rparr> else iov0);
           max_len' = max_len - iov_len iov
       in if iovec_is_empty iov then copy_iovs active max_user fetch start_addr idxs max_len'
          else rbind (vm_space_reader active max_user (iov_base iov) (iov_len iov)) (\<lambda>converted.
               rbind (copy_iovs active max_user fetch start_addr idxs max_len') (\<lambda>v.
                 Inr (converted # v))))))"

definition copy_iovs_and_convert ::
  "bool \<Rightarrow> nat \<Rightarrow> (nat \<Rightarrow> (nat \<times> int) option) \<Rightarrow> nat \<Rightarrow> nat \<Rightarrow> io_vec list result" where
  "copy_iovs_and_convert active max_user fetch start_addr cnt =
     (if cnt > MAX_IO_VECTOR_LENGTH then Inl (Errno EINVAL)
      else copy_iovs active max_user fetch start_addr [0..<cnt] MAX_TOTAL_IOV_BYTES)"

section \<open>Lemmas\<close>

definition mapped :: "'b user_reader list \<Rightarrow> nat \<Rightarrow> bool" where
  "mapped rs n \<longleftrightarrow> None \<notin> set (take n (concat rs))"

lemma sum_lens_simps [simp]: "sum_lens [] = 0" "sum_lens (r # rs) = length r + sum_lens rs"
  by (simp_all add: sum_lens_def)

lemma sum_lens_concat: "sum_lens rs = length (concat rs)"
  by (simp add: sum_lens_def length_concat)

lemma takeWhile_not_None: "takeWhile (\<lambda>x. x \<noteq> None) xs = xs \<longleftrightarrow> None \<notin> set xs"
  unfolding takeWhile_eq_all_conv by metis

lemma read_fallible_cases:
  obtains (ok) "None \<notin> set (take avail r)" "read_fallible r avail =
      (map the (take avail r), drop avail r, False)"
  | (fault) c where "None \<in> set (take avail r)" "read_fallible r avail = (c, drop (length c) r, True)"
      "length c < min (length r) avail" "map Some c = take (length c) r"
proof (cases "None \<in> set (take avail r)")
  case False
  have tw: "takeWhile (\<lambda>x. x \<noteq> None) (take (min (length r) avail) r) = take avail r"
    using False takeWhile_not_None [of "take avail r"] by (simp add: min_def)
  have "read_fallible r avail = (map the (take avail r), drop avail r, False)"
    using tw by (simp add: read_fallible_def Let_def del: not_None_eq) (simp add: min_def)
  then show ?thesis using False ok by simp
next
  case True
  define t where "t = takeWhile (\<lambda>x. x \<noteq> None) (take avail r)"
  have tk: "take (min (length r) avail) r = take avail r" by (simp add: min_def)
  have "t \<noteq> take avail r" using True takeWhile_not_None [of "take avail r"] by (simp add: t_def)
  then have "length t < length (take avail r)"
    unfolding t_def by (metis length_takeWhile_le nat_less_le takeWhile_eq_take take_all_iff)
  then have l: "length t < min (length r) avail" by (simp add: min_def split: if_splits)
  have "t = take (length t) (take avail r)" unfolding t_def by (rule takeWhile_eq_take)
  then have "t = take (length t) r" using l by (simp add: min_def split: if_splits)
  moreover have "map (Some \<circ> the) t = t"
    by (rule map_idI) (auto simp: t_def dest: set_takeWhileD)
  ultimately have "map Some (map the t) = take (length (map the t)) r" by simp
  then show ?thesis
    using fault [of "map the t"] True l tk by (simp add: read_fallible_def Let_def t_def)
qed

lemma multi_read_correct:
  "case multi_read rs avail of (c, rs', fault) \<Rightarrow>
     (fault \<longleftrightarrow> \<not> mapped rs avail) \<and> concat rs' = drop (length c) (concat rs) \<and>
     map Some c = take (length c) (concat rs) \<and> length c \<le> avail \<and>
     (\<not> fault \<longrightarrow> length c = min (sum_lens rs) avail)"
proof (induction rs arbitrary: avail)
  case Nil
  then show ?case by (simp add: mapped_def)
next
  case (Cons r rs)
  show ?case
  proof (cases rule: read_fallible_cases [of avail r])
    case ok
    have c: "map Some (map the (take avail r)) = take avail r"
      using ok(1) by (auto intro!: map_idI) (metis option.collapse)
    show ?thesis
    proof (cases "length r < avail")
      case False
      then show ?thesis using ok c by (auto simp: mapped_def min_def)
    next
      case True
      obtain c' rs' f where rec: "multi_read rs (avail - length r) = (c', rs', f)"
        by (metis prod_cases3)
      with Cons.IH [of "avail - length r"] ok c True show ?thesis
        by (auto simp: mapped_def min_def)
    qed
  next
    case (fault c)
    then have "None \<in> set (take avail (concat (r # rs)))" by auto
    then show ?thesis using fault by (auto simp: mapped_def min_def split: if_splits)
  qed
qed

definition writable :: "user_writer list \<Rightarrow> nat \<Rightarrow> bool" where
  "writable ws n \<longleftrightarrow> False \<notin> set (take n (concat ws))"

lemma write_fallible_cases:
  fixes bytes :: "'b list"
  obtains (ok) "False \<notin> set (take (length bytes) w)" "write_fallible w bytes =
      (take (length w) bytes, drop (length bytes) w, False)"
  | (fault) n where "False \<in> set (take (length bytes) w)" "n < min (length w) (length bytes)"
      "write_fallible w bytes = (take n bytes, drop n w, True)"
proof (cases "False \<in> set (take (length bytes) w)")
  case False
  then have all: "\<forall>x\<in>set (take (length bytes) w). id x" by (metis id_apply)
  have "takeWhile id (take (min (length w) (length bytes)) w) = take (length bytes) w"
    using all by (cases "length w \<le> length bytes") (simp_all add: min_def)
  then have "write_fallible w bytes = (take (length w) bytes, drop (length bytes) w, False)"
    by (simp add: write_fallible_def Let_def del: takeWhile_eq_all_conv) (simp add: min_def)
  then show ?thesis using False ok by simp
next
  case True
  define t where "t = takeWhile id (take (min (length w) (length bytes)) w)"
  have "take (min (length w) (length bytes)) w = take (length bytes) w" by (simp add: min_def)
  then have "t \<noteq> take (length bytes) w"
    using True takeWhile_eq_all_conv [of id "take (length bytes) w"] by (auto simp: t_def)
  moreover have "t = take (length t) (take (length bytes) w)"
    unfolding t_def by (metis min_def takeWhile_eq_take take_all_iff linorder_linear)
  ultimately have "length t < min (length w) (length bytes)"
    by (metis linorder_not_le length_take min.commute take_all_iff)
  then show ?thesis using fault True by (simp add: write_fallible_def Let_def t_def)
qed

lemma multi_write_correct:
  "case multi_write ws bytes of (c, ws', fault) \<Rightarrow>
     (fault \<longleftrightarrow> \<not> writable ws (length bytes)) \<and> concat ws' = drop (length c) (concat ws) \<and>
     c = take (length c) bytes \<and> (\<not> fault \<longrightarrow> length c = min (sum_lens ws) (length bytes))"
proof (induction ws arbitrary: bytes)
  case Nil
  then show ?case by (simp add: writable_def)
next
  case (Cons w ws)
  show ?case
  proof (cases rule: write_fallible_cases [of bytes w])
    case ok
    show ?thesis
    proof (cases "length w < length bytes")
      case False
      then show ?thesis using ok by (auto simp: writable_def min_def)
    next
      case True
      obtain c' ws' f where rec: "multi_write ws (drop (length w) bytes) = (c', ws', f)"
        by (metis prod_cases3)
      have c': "c' = take (length c') (drop (length w) bytes)"
        using Cons.IH [of "drop (length w) bytes"] rec by simp
      then have "take (length w) bytes @ c' = take (length w + length c') bytes"
        by (metis take_add)
      with Cons.IH [of "drop (length w) bytes"] rec ok True c' show ?thesis
        by (auto simp: writable_def min_def)
    qed
  next
    case (fault n)
    then have "False \<in> set (take (length bytes) (concat (w # ws)))" by auto
    then show ?thesis using fault by (auto simp: writable_def min_def split: if_splits)
  qed
qed

lemma skip_some_concat: "concat (skip_some rs n) = drop n (concat rs)"
  by (induction rs arbitrary: n) (auto simp: Let_def min_def)

text \<open>Two copies in a row are one copy with the room of both.\<close>

lemma multi_read_split:
  assumes 1: "multi_read rs a = (c1, rs1, False)" and 2: "multi_read rs1 b = (c2, rs2, f)"
  shows "f \<longleftrightarrow> \<not> mapped rs (a + b)" "length c1 = a \<or> c2 = []" "length c1 \<le> a" "length c2 \<le> b"
    "concat rs2 = drop (length c1 + length c2) (concat rs)"
    "map Some (c1 @ c2) = take (length c1 + length c2) (concat rs)"
    "\<not> f \<Longrightarrow> length c1 + length c2 = min (sum_lens rs) (a + b)"
proof -
  note R1 = multi_read_correct [of rs a, unfolded 1 prod.case]
  note R2 = multi_read_correct [of rs1 b, unfolded 2 prod.case]
  have l1: "length c1 = min (length (concat rs)) a" and d1: "concat rs1 = drop (length c1) (concat rs)"
    using R1 by (simp_all add: sum_lens_concat)
  then have rs1: "concat rs1 = drop a (concat rs)" by (simp add: min_def)
  have "mapped rs (a + b) \<longleftrightarrow> mapped rs a \<and> mapped rs1 b"
    by (auto simp: mapped_def rs1 take_add)
  then show "f \<longleftrightarrow> \<not> mapped rs (a + b)" using R1 R2 by blast
  show "length c1 \<le> a" "length c2 \<le> b" using R1 R2 by auto
  show c: "length c1 = a \<or> c2 = []"
  proof (cases "length c1 = a")
    case False
    then have "concat rs1 = []" using l1 d1 by simp
    moreover have "map Some c2 = take (length c2) (concat rs1)" using R2 by blast
    ultimately show ?thesis by (metis map_is_Nil_conv take_Nil)
  qed simp
  show "concat rs2 = drop (length c1 + length c2) (concat rs)" using R1 R2 by (simp add: add.commute)
  show "map Some (c1 @ c2) = take (length c1 + length c2) (concat rs)"
    using R1 R2 by (simp add: take_add)
  show "length c1 + length c2 = min (sum_lens rs) (a + b)" if "\<not> f"
  proof -
    have "length c2 = min (length (concat rs1)) b" using R2 that by (simp add: sum_lens_concat)
    then show ?thesis using l1 d1 by (simp add: sum_lens_concat)
  qed
qed

lemma multi_write_split:
  assumes 1: "multi_write ws b1 = (c1, ws1, False)" and 2: "multi_write ws1 b2 = (c2, ws2, f)"
  shows "f \<longleftrightarrow> \<not> writable ws (length b1 + length b2)"
    "concat ws2 = drop (length c1 + length c2) (concat ws)"
    "c1 @ c2 = take (length c1 + length c2) (b1 @ b2)"
    "\<not> f \<Longrightarrow> length c1 + length c2 = min (sum_lens ws) (length b1 + length b2)"
proof -
  note R1 = multi_write_correct [of ws b1, unfolded 1 prod.case]
  note R2 = multi_write_correct [of ws1 b2, unfolded 2 prod.case]
  have l1: "length c1 = min (length (concat ws)) (length b1)" and d1: "concat ws1 = drop (length c1) (concat ws)"
    using R1 unfolding sum_lens_concat by blast+
  have t1: "c1 = take (length c1) b1" and t2: "c2 = take (length c2) b2" using R1 R2 by blast+
  have ws1: "concat ws1 = drop (length b1) (concat ws)" using l1 d1 by (simp add: min_def)
  have "writable ws (length b1 + length b2) \<longleftrightarrow> writable ws (length b1) \<and> writable ws1 (length b2)"
    by (auto simp: writable_def ws1 take_add)
  then show "f \<longleftrightarrow> \<not> writable ws (length b1 + length b2)" using R1 R2 by blast
  show "concat ws2 = drop (length c1 + length c2) (concat ws)" using R1 R2 by (simp add: add.commute)
  have l2: "length c2 = min (length (concat ws1)) (length b2)" if "\<not> f"
    using R2 that by (simp add: sum_lens_concat)
  show "c1 @ c2 = take (length c1 + length c2) (b1 @ b2)"
  proof (cases "length c1 = length b1")
    case True
    then have "c1 = b1" using t1 by (metis order_refl take_all)
    then show ?thesis using t2 by simp
  next
    case False
    then have e: "concat ws1 = []" using l1 d1 by simp
    have "writable ws1 (length b2)" unfolding writable_def e by simp
    then have "\<not> f" using R2 by blast
    then have "c2 = []" using l2 e by simp
    moreover have "length c1 \<le> length b1" using l1 by simp
    ultimately show ?thesis using t1 by simp
  qed
  show "length c1 + length c2 = min (sum_lens ws) (length b1 + length b2)" if "\<not> f"
    using l1 d1 l2 [OF that] by (simp add: sum_lens_concat)
qed

lemma iovec_try_from_ok: "iovec_try_from u = Inr iov \<Longrightarrow> 0 \<le> snd u \<and> iov_base iov = fst u"
  by (auto simp: iovec_try_from_def split: if_splits)

lemma vm_space_reader_ok:
  "vm_space_reader active max_user va n = Inr iov \<Longrightarrow> max_user < 2 ^ 64 - 1 \<Longrightarrow>
    iov_base iov = va \<and> iov_len iov = n \<and> va + n \<le> max_user"
  by (auto simp: vm_space_reader_def split: if_splits)

lemma copy_iovs_bounds:
  assumes "copy_iovs active max_user fetch start idxs max_len = Inr v" "max_user < 2 ^ 64 - 1"
  shows "sum_list (map iov_len v) \<le> max_len \<and> length v \<le> length idxs \<and>
    (\<forall>iov\<in>set v. 0 < iov_len iov \<and> iov_base iov + iov_len iov \<le> max_user)"
  using assms(1)
proof (induction idxs arbitrary: max_len v)
  case (Cons idx idxs)
  then obtain addr iov0 where fetch: "uadd start (idx * 16) = Inr addr"
    "(case fetch addr of None \<Rightarrow> Inl (Errno EFAULT) | Some u \<Rightarrow> iovec_try_from u) = Inr iov0"
    by (auto simp: rust_simps)
  define iov where "iov = (if iov_len iov0 > max_len then iov0\<lparr>iov_len := max_len\<rparr> else iov0)"
  have le: "iov_len iov \<le> max_len" by (simp add: iov_def)
  show ?case
  proof (cases "iovec_is_empty iov")
    case True
    then have "copy_iovs active max_user fetch start idxs (max_len - iov_len iov) = Inr v"
      using Cons.prems fetch by (auto simp: rust_simps Let_def iov_def)
    from Cons.IH [OF this] show ?thesis by auto
  next
    case False
    then obtain conv v' where v: "v = conv # v'"
      "vm_space_reader active max_user (iov_base iov) (iov_len iov) = Inr conv"
      "copy_iovs active max_user fetch start idxs (max_len - iov_len iov) = Inr v'"
      using Cons.prems fetch by (auto simp: rust_simps Let_def iov_def split: if_splits)
    from Cons.IH [OF v(3)] vm_space_reader_ok [OF v(2) assms(2)] le v(1) False
    show ?thesis by (auto simp: iovec_is_empty_def)
  qed
qed simp

section \<open>Properties\<close>

text \<open>C25. Copies from a vector of user buffers. \<open>MultiRead::read\<close> copies the bytes of the buffers in
  order and leaves the buffers with exactly the bytes not copied; it faults exactly when a page
  within the first \<open>avail\<close> bytes is not mapped, and otherwise copies the documented number of
  bytes, the lesser of the bytes there are and the room there is. \<open>skip_some\<close> is the same without
  the copy.\<close>

theorem multi_read_exact:
  "case multi_read rs avail of (c, rs', fault) \<Rightarrow>
     (fault \<longleftrightarrow> \<not> mapped rs avail) \<and> map Some c @ concat rs' = concat rs \<and> length c \<le> avail \<and>
     (fault \<or> length c = min (sum_lens rs) avail \<and>
       concat (skip_some rs (length c)) = concat rs')"
proof -
  obtain c rs' f where eq: "multi_read rs avail = (c, rs', f)" by (metis prod_cases3)
  show ?thesis using multi_read_correct [of rs avail] by (simp add: eq skip_some_concat)
qed

text \<open>C33. Bounds of an I/O vector. When the vector of user buffers is accepted, it has at most 1024
  buffers, every buffer is non-empty and lies in user space, and the total length does not exceed
  \<open>isize::MAX\<close>, so that no sum of lengths overflows.\<close>

theorem copy_iovs_and_convert_bounds:
  assumes "copy_iovs_and_convert active max_user fetch start_addr cnt = Inr v" "max_user < 2 ^ 64 - 1"
  shows "cnt \<le> 1024 \<and> length v \<le> cnt \<and> sum_list (map iov_len v) \<le> 2 ^ 63 - 1 \<and>
    (\<forall>iov\<in>set v. 0 < iov_len iov \<and> iov_base iov + iov_len iov \<le> max_user)"
proof -
  have "cnt \<le> 1024" and run: "copy_iovs active max_user fetch start_addr [0..<cnt] (2 ^ 63 - 1) = Inr v"
    using assms(1) by (auto simp: copy_iovs_and_convert_def MAX_IO_VECTOR_LENGTH_def
        MAX_TOTAL_IOV_BYTES_def split: if_splits)
  then show ?thesis using copy_iovs_bounds [OF run assms(2)] by simp
qed

theorem copy_iovs_and_convert_bounds_witness:
  "copy_iovs_and_convert True 4000 (\<lambda>addr. if addr = 16 then Some (1000, 0) else Some (2000, 8)) 0 2 =
     Inr [\<lparr>iov_base = 2000, iov_len = 8\<rparr>] \<and> iov_base \<lparr>iov_base = 2000, iov_len = 8\<rparr> + 8 \<le> 4000"
proof -
  have "copy_iovs_and_convert True 4000 (\<lambda>addr. if addr = 16 then Some (1000, 0) else Some (2000, 8)) 0 2 =
     Inr [\<lparr>iov_base = 2000, iov_len = 8\<rparr>]"
    by (simp add: copy_iovs_and_convert_def MAX_IO_VECTOR_LENGTH_def MAX_TOTAL_IOV_BYTES_def uadd_def
        vm_space_reader_def iovec_try_from_def iovec_is_empty_def upt_rec)
  from copy_iovs_and_convert_bounds [OF this] this show ?thesis by simp
qed

end
