(* ===== verification/Ring_Buffer.thy ===== *)
theory Ring_Buffer
  imports Align Vm_Io
begin

text \<open>
  The lock-free ring buffer of pipes and sockets, \<open>kernel/src/util/ring_buffer.rs\<close>: the buffer,
  the operations of its producer and consumer on single items, on slices and on user memory, and
  the interleaving of one producer with one consumer at the granularity of their loads and stores.

  \<open>head\<close> and \<open>tail\<close> are the wrapping 64-bit counters of the code. The segment is the list of its
  item slots: slot \<open>i\<close> stands for the bytes from \<open>i * T_SIZE\<close>, and the segment may have more slots
  than the capacity, since whole frames are allocated.
\<close>

section \<open>The buffer\<close>

record 'a ring_buffer =
  segment :: "'a list"
  capacity :: nat
  tail :: usize
  head :: usize

text \<open>\<open>fill\<close> stands for the bytes the fresh frames happen to hold; \<open>alloc_segment(..).unwrap()\<close> panics
  when the frames cannot be allocated.\<close>

definition rb_new :: "bool \<Rightarrow> (nat \<Rightarrow> 'a) \<Rightarrow> nat \<Rightarrow> nat \<Rightarrow> 'a ring_buffer result" where
  "rb_new alloc_ok fill t_size cap =
     rbind (rassert (is_power_of_two (of_nat cap :: usize))) (\<lambda>_.
     rbind (umul cap t_size) (\<lambda>bytes.
       let nframes = (bytes + 4095) div 4096 in
       if alloc_ok
       then Inr \<lparr>segment = map fill [0..<nframes * 4096 div t_size], capacity = cap, tail = 0, head = 0\<rparr>
       else Inl Panic))"

definition rb_len :: "'a ring_buffer \<Rightarrow> nat" where
  "rb_len rb = unat (tail rb - head rb)"

definition rb_is_empty :: "'a ring_buffer \<Rightarrow> bool" where
  "rb_is_empty rb \<longleftrightarrow> rb_len rb = 0"

definition free_len :: "'a ring_buffer \<Rightarrow> nat result" where
  "free_len rb = usub (capacity rb) (rb_len rb)"

definition rb_is_full :: "'a ring_buffer \<Rightarrow> bool result" where
  "rb_is_full rb = rbind (free_len rb) (\<lambda>n. Inr (n = 0))"

definition rb_clear :: "'a ring_buffer \<Rightarrow> 'a ring_buffer" where
  "rb_clear rb = rb\<lparr>tail := 0, head := 0\<rparr>"

definition advance_tail :: "'a ring_buffer \<Rightarrow> usize \<Rightarrow> nat \<Rightarrow> 'a ring_buffer" where
  "advance_tail rb t n = rb\<lparr>tail := t + of_nat n\<rparr>"

definition advance_head :: "'a ring_buffer \<Rightarrow> usize \<Rightarrow> nat \<Rightarrow> 'a ring_buffer" where
  "advance_head rb h n = rb\<lparr>head := h + of_nat n\<rparr>"

text \<open>\<open>w.0 & (rb.capacity - 1)\<close>\<close>

definition slot :: "nat \<Rightarrow> usize \<Rightarrow> nat" where
  "slot cap w = unat (w AND of_nat (cap - 1))"

text \<open>\<open>write_slice(offset, ..).unwrap()\<close> and \<open>read_slice(offset, ..).unwrap()\<close> on the segment.\<close>

definition seg_write :: "nat \<Rightarrow> 'a list \<Rightarrow> 'a list \<Rightarrow> 'a list result" where
  "seg_write off xs seg =
     (if off + length xs \<le> length seg then Inr (take off seg @ xs @ drop (off + length xs) seg)
      else Inl Panic)"

definition seg_read :: "nat \<Rightarrow> nat \<Rightarrow> 'a list \<Rightarrow> 'a list result" where
  "seg_read off n seg = (if off + n \<le> length seg then Inr (take n (drop off seg)) else Inl Panic)"

section \<open>The producer\<close>

definition push :: "'a \<Rightarrow> 'a ring_buffer \<Rightarrow> ('a ring_buffer \<times> bool) result" where
  "push x rb =
     rbind (rb_is_full rb) (\<lambda>full.
       if full then Inr (rb, False)
       else
         rbind (seg_write (slot (capacity rb) (tail rb)) [x] (segment rb)) (\<lambda>seg.
           Inr (advance_tail (rb\<lparr>segment := seg\<rparr>) (tail rb) 1, True)))"

definition push_slice :: "'a list \<Rightarrow> 'a ring_buffer \<Rightarrow> ('a ring_buffer \<times> bool) result" where
  "push_slice items rb =
     rbind (free_len rb) (\<lambda>free.
       if free < length items then Inr (rb, False)
       else
         let offset = slot (capacity rb) (tail rb) in
         rbind (uadd offset (length items)) (\<lambda>total.
         rbind
           (if total > capacity rb
            then rbind (seg_write offset (take (capacity rb - offset) items) (segment rb))
                   (seg_write 0 (drop (capacity rb - offset) items))
            else seg_write offset items (segment rb))
           (\<lambda>seg. Inr (advance_tail (rb\<lparr>segment := seg\<rparr>) (tail rb) (length items), True))))"

text \<open>A kernel writer over the segment, after \<open>skip(offset)\<close> and \<open>limit(n)\<close>, has room for
  \<open>seg_room\<close> bytes.\<close>

definition seg_room :: "nat \<Rightarrow> nat \<Rightarrow> 'a list \<Rightarrow> nat result" where
  "seg_room off n seg = (if off \<le> length seg then Inr (min n (length seg - off)) else Inl Panic)"

text \<open>The result carries the outcome, the buffer, and what remains of the user buffers. On a page
  fault the bytes copied before it are in the segment, and the tail is not advanced.\<close>

definition write_fallible_with_max_len ::
  "'a ring_buffer \<Rightarrow> 'a user_reader list \<Rightarrow> nat \<Rightarrow>
    ((errno + nat) \<times> 'a ring_buffer \<times> 'a user_reader list) result" where
  "write_fallible_with_max_len rb rs max_len =
     rbind (free_len rb) (\<lambda>free.
       let free_len = min free max_len; offset = slot (capacity rb) (tail rb) in
       rbind (uadd offset free_len) (\<lambda>total.
         if total > capacity rb then
           rbind (seg_room offset (capacity rb - offset) (segment rb)) (\<lambda>room1.
             case multi_read rs room1 of (c1, rs1, fault1) \<Rightarrow>
             rbind (seg_write offset c1 (segment rb)) (\<lambda>seg1.
               if fault1 then Inr (Inl EFAULT, rb\<lparr>segment := seg1\<rparr>, rs1)
               else
                 rbind (seg_room 0 (free_len - (capacity rb - offset)) seg1) (\<lambda>room2.
                   case multi_read rs1 room2 of (c2, rs2, fault2) \<Rightarrow>
                   rbind (seg_write 0 c2 seg1) (\<lambda>seg2.
                     if fault2 then Inr (Inl EFAULT, rb\<lparr>segment := seg2\<rparr>, rs2)
                     else Inr (Inr (length c1 + length c2),
                            advance_tail (rb\<lparr>segment := seg2\<rparr>) (tail rb) (length c1 + length c2), rs2)))))
         else
           rbind (seg_room offset free_len (segment rb)) (\<lambda>room.
             case multi_read rs room of (c, rs', fault) \<Rightarrow>
             rbind (seg_write offset c (segment rb)) (\<lambda>seg.
               if fault then Inr (Inl EFAULT, rb\<lparr>segment := seg\<rparr>, rs')
               else Inr (Inr (length c), advance_tail (rb\<lparr>segment := seg\<rparr>) (tail rb) (length c), rs')))))"

section \<open>The consumer\<close>

definition pop :: "'a ring_buffer \<Rightarrow> ('a ring_buffer \<times> 'a option) result" where
  "pop rb =
     (if rb_is_empty rb then Inr (rb, None)
      else
        rbind (seg_read (slot (capacity rb) (head rb)) 1 (segment rb)) (\<lambda>xs.
          Inr (advance_head rb (head rb) 1, Some (hd xs))))"

definition pop_slice :: "nat \<Rightarrow> 'a ring_buffer \<Rightarrow> ('a ring_buffer \<times> 'a list option) result" where
  "pop_slice nitems rb =
     (if rb_len rb < nitems then Inr (rb, None)
      else
        let offset = slot (capacity rb) (head rb) in
        rbind (uadd offset nitems) (\<lambda>total.
        rbind
          (if total > capacity rb
           then rbind (seg_read offset (capacity rb - offset) (segment rb)) (\<lambda>xs.
                rbind (seg_read 0 (nitems - (capacity rb - offset)) (segment rb)) (\<lambda>ys.
                  Inr (xs @ ys)))
           else seg_read offset nitems (segment rb))
          (\<lambda>items. Inr (advance_head rb (head rb) nitems, Some items))))"

text \<open>The result carries the outcome, the buffer, the bytes written to user memory, and what remains
  of the user buffers.\<close>

definition read_fallible_with_max_len ::
  "'a ring_buffer \<Rightarrow> user_writer list \<Rightarrow> nat \<Rightarrow>
    ((errno + nat) \<times> 'a ring_buffer \<times> 'a list \<times> user_writer list) result" where
  "read_fallible_with_max_len rb ws max_len =
     (let len = min (rb_len rb) max_len; offset = slot (capacity rb) (head rb) in
      rbind (uadd offset len) (\<lambda>total.
        if total > capacity rb then
          rbind (seg_room offset (capacity rb - offset) (segment rb)) (\<lambda>room1.
          rbind (seg_read offset room1 (segment rb)) (\<lambda>bytes1.
            case multi_write ws bytes1 of (c1, ws1, fault1) \<Rightarrow>
            if fault1 then Inr (Inl EFAULT, rb, c1, ws1)
            else
              rbind (seg_room 0 (len - (capacity rb - offset)) (segment rb)) (\<lambda>room2.
              rbind (seg_read 0 room2 (segment rb)) (\<lambda>bytes2.
                case multi_write ws1 bytes2 of (c2, ws2, fault2) \<Rightarrow>
                if fault2 then Inr (Inl EFAULT, rb, c1 @ c2, ws2)
                else Inr (Inr (length c1 + length c2),
                       advance_head rb (head rb) (length c1 + length c2), c1 @ c2, ws2)))))
        else
          rbind (seg_room offset len (segment rb)) (\<lambda>room.
          rbind (seg_read offset room (segment rb)) (\<lambda>bytes.
            case multi_write ws bytes of (c, ws', fault) \<Rightarrow>
            if fault then Inr (Inl EFAULT, rb, c, ws')
            else Inr (Inr (length c), advance_head rb (head rb) (length c), c, ws')))))"

definition rb_skip :: "nat \<Rightarrow> 'a ring_buffer \<Rightarrow> 'a ring_buffer result" where
  "rb_skip cnt rb =
     rbind (rassert (rb_len rb \<ge> cnt)) (\<lambda>_. Inr (advance_head rb (head rb) cnt))"

section \<open>What the buffer holds\<close>

definition rb_inv :: "'a ring_buffer \<Rightarrow> bool" where
  "rb_inv rb \<longleftrightarrow> is_power_of_two (of_nat (capacity rb) :: usize) \<and> capacity rb < 2 ^ 64 \<and>
     capacity rb \<le> length (segment rb) \<and> rb_len rb \<le> capacity rb"

definition contents :: "'a ring_buffer \<Rightarrow> 'a list" where
  "contents rb = map (\<lambda>i. segment rb ! ((slot (capacity rb) (head rb) + i) mod capacity rb)) [0..<rb_len rb]"

lemma length_contents [simp]: "length (contents rb) = rb_len rb"
  by (simp add: contents_def)

lemma pow2_cap:
  assumes "is_power_of_two (of_nat cap :: usize)" "cap < 2 ^ 64"
  obtains k where "k < 64" "cap = 2 ^ k"
proof -
  obtain k where k: "k < 64" "(of_nat cap :: usize) = 2 ^ k"
    using assms(1) by (auto simp: is_power_of_two_iff)
  then have "unat (of_nat cap :: usize) = unat ((2::usize) ^ k)" by simp
  moreover have "unat (of_nat cap :: usize) = cap"
    using assms(2) by (simp add: unat_of_nat)
  moreover have "unat ((2::usize) ^ k) = 2 ^ k" using k(1) by (simp add: unat_pow2)
  ultimately show ?thesis using that k(1) by simp
qed

lemma slot_mod:
  assumes "k < 64"
  shows "slot (2 ^ k) w = unat w mod 2 ^ k"
proof -
  have "(of_nat (2 ^ k - 1) :: usize) = mask k"
    by (simp add: mask_eq_exp_minus_1 of_nat_diff)
  then have "slot (2 ^ k) w = unat (take_bit k w)"
    by (simp only: slot_def take_bit_eq_mask)
  also have "\<dots> = take_bit k (unat w)" by (rule unsigned_take_bit_eq)
  finally show ?thesis by (simp add: take_bit_eq_mod)
qed

lemma slot_add:
  assumes "k < 64"
  shows "slot (2 ^ k) (w + of_nat n) = (slot (2 ^ k) w + n) mod 2 ^ k"
proof -
  have dvd: "(2::nat) ^ k dvd 2 ^ 64" using assms le_imp_power_dvd [of k 64 "2::nat"] by simp
  have "unat (w + of_nat n) = (unat w + n mod 2 ^ 64) mod 2 ^ 64"
    by (simp add: unat_word_ariths unat_of_nat)
  then have "unat (w + of_nat n) mod 2 ^ k = (unat w + n mod 2 ^ 64) mod 2 ^ k"
    using dvd by (simp add: mod_mod_cancel)
  also have "\<dots> = (unat w + n) mod 2 ^ k"
    using dvd by (metis mod_add_right_eq mod_mod_cancel)
  finally show ?thesis using assms by (simp add: slot_mod mod_add_left_eq)
qed

lemma cap_slot:
  assumes "rb_inv rb"
  shows "0 < capacity rb" "slot (capacity rb) w < capacity rb"
    "slot (capacity rb) (w + of_nat n) = (slot (capacity rb) w + n) mod capacity rb"
proof -
  obtain k where "k < 64" "capacity rb = 2 ^ k"
    using assms pow2_cap by (auto simp: rb_inv_def)
  then show "0 < capacity rb" "slot (capacity rb) w < capacity rb"
    "slot (capacity rb) (w + of_nat n) = (slot (capacity rb) w + n) mod capacity rb"
    by (simp_all add: slot_add) (simp add: slot_mod)
qed

lemma mod_offset_inj:
  fixes a b c h :: nat
  assumes "(h + a) mod c = (h + b) mod c" "a < c" "b < c"
  shows "a = b"
proof -
  have "a = b" if "(h + b) mod c = (h + a) mod c" "a \<le> b" "b < c" for a b
  proof -
    have "c dvd (h + b) - (h + a)" using that by (subst mod_eq_dvd_iff_nat [symmetric]) auto
    then have "c dvd b - a" by simp
    then have "b - a = 0" using that(2,3) by (metis dvd_imp_le leD less_imp_diff_less neq0_conv)
    then show ?thesis using that(2) by simp
  qed
  then show ?thesis using assms by (metis nle_le)
qed

lemma unat_add_of_nat: "unat (w :: usize) + n < 2 ^ 64 \<Longrightarrow> unat (w + of_nat n) = unat w + n"
  by (simp add: unat_word_ariths unat_of_nat)

lemma unat_sub_of_nat:
  assumes "n \<le> unat (w :: usize)"
  shows "unat (w - of_nat n) = unat w - n"
proof -
  have "w = of_nat (unat w - n) + of_nat n" using assms by (simp flip: of_nat_add)
  then have "w - of_nat n = of_nat (unat w - n)" by (metis add_diff_cancel_right')
  moreover have "unat w < 2 ^ LENGTH(64)" by (rule unsigned_less)
  ultimately show ?thesis by (simp add: unat_of_nat)
qed

text \<open>\<open>ring_written\<close>: the items were written to consecutive slots from \<open>off\<close> on, cyclically, and the
  other slots of the ring are as before.\<close>

definition ring_written :: "nat \<Rightarrow> nat \<Rightarrow> 'a list \<Rightarrow> 'a list \<Rightarrow> 'a list \<Rightarrow> bool" where
  "ring_written cap off xs seg seg' \<longleftrightarrow> length seg' = length seg \<and>
     (\<forall>i<length xs. seg' ! ((off + i) mod cap) = xs ! i) \<and>
     (\<forall>j<cap. (\<forall>i<length xs. j \<noteq> (off + i) mod cap) \<longrightarrow> seg' ! j = seg ! j)"

lemma contents_written:
  assumes inv: "rb_inv rb"
    and w: "ring_written (capacity rb) (slot (capacity rb) (tail rb)) xs (segment rb) seg"
    and fit: "rb_len rb + length xs \<le> capacity rb" and n: "n \<le> length xs"
  defines "rb' \<equiv> advance_tail (rb\<lparr>segment := seg\<rparr>) (tail rb) n"
  shows "rb_inv rb' \<and> contents rb' = contents rb @ take n xs"
proof -
  let ?c = "capacity rb" and ?h = "slot (capacity rb) (head rb)"
  have len: "rb_len rb' = rb_len rb + n"
    using unat_add_of_nat [of "tail rb - head rb" n] fit n inv
    by (simp add: rb_len_def rb'_def advance_tail_def rb_inv_def algebra_simps)
  have "tail rb = head rb + of_nat (rb_len rb)" by (simp add: rb_len_def)
  then have tl: "slot ?c (tail rb) = (?h + rb_len rb) mod ?c" using cap_slot(3) [OF inv] by metis
  have inv': "rb_inv rb'"
    using inv w fit n len by (simp add: rb_inv_def ring_written_def rb'_def advance_tail_def)
  have old: "seg ! ((?h + i) mod ?c) = segment rb ! ((?h + i) mod ?c)" if "i < rb_len rb" for i
  proof -
    have "(?h + i) mod ?c \<noteq> (slot ?c (tail rb) + j) mod ?c" if "j < length xs" for j
      unfolding tl mod_add_left_eq add.assoc
      using mod_offset_inj [of ?h i ?c "rb_len rb + j"] that \<open>i < rb_len rb\<close> fit by auto
    then show ?thesis using w cap_slot(1) [OF inv] by (simp add: ring_written_def)
  qed
  have new: "seg ! ((?h + (rb_len rb + i)) mod ?c) = xs ! i" if "i < n" for i
  proof -
    have "seg ! ((slot ?c (tail rb) + i) mod ?c) = xs ! i"
      using w that n by (simp add: ring_written_def)
    then show ?thesis by (simp add: tl mod_add_left_eq add.assoc)
  qed
  have "contents rb' ! i = (contents rb @ take n xs) ! i" if "i < rb_len rb'" for i
    using that old [of i] new [of "i - rb_len rb"] n len
    by (auto simp: contents_def nth_append rb'_def advance_tail_def)
  then show ?thesis using inv' len n by (auto intro!: nth_equalityI)
qed

lemma contents_advanced:
  assumes inv: "rb_inv rb" and n: "n \<le> rb_len rb"
  defines "rb' \<equiv> advance_head rb (head rb) n"
  shows "rb_inv rb' \<and> contents rb' = drop n (contents rb)"
proof -
  have len: "rb_len rb' = rb_len rb - n"
    using unat_sub_of_nat [of n "tail rb - head rb"] n
    by (simp add: rb_len_def rb'_def advance_head_def diff_diff_eq)
  have "(slot (capacity rb) (head rb + of_nat n) + i) mod capacity rb =
      (slot (capacity rb) (head rb) + (n + i)) mod capacity rb" for i
    by (simp add: cap_slot(3) [OF inv] mod_add_left_eq add.assoc)
  then have "contents rb' = drop n (contents rb)"
    using len n by (auto intro!: nth_equalityI simp: contents_def rb'_def advance_head_def)
  moreover have "rb_inv rb'" using inv len by (auto simp: rb_inv_def rb'_def advance_head_def)
  ultimately show ?thesis by simp
qed

section \<open>Writing and reading across the end of the segment\<close>

lemma seg_write_ok: "off + length xs \<le> length seg \<Longrightarrow>
    \<exists>seg'. seg_write off xs seg = Inr seg' \<and> length seg' = length seg \<and>
      (\<forall>j<length seg. seg' ! j = (if off \<le> j \<and> j < off + length xs then xs ! (j - off) else seg ! j))"
  by (auto simp: seg_write_def nth_append)

lemma ring_written_one:
  assumes "seg_write off xs seg = Inr seg'" "off + length xs \<le> cap" "cap \<le> length seg"
  shows "ring_written cap off xs seg seg'"
proof -
  have nth: "length seg' = length seg"
    "\<forall>j<length seg. seg' ! j = (if off \<le> j \<and> j < off + length xs then xs ! (j - off) else seg ! j)"
    using assms seg_write_ok [of off xs seg] by auto
  have "(off + i) mod cap = off + i" if "i < length xs" for i using that assms by simp
  moreover have "\<exists>i<length xs. j = off + i" if "off \<le> j" "j < off + length xs" for j
    using that by (intro exI [of _ "j - off"]) auto
  ultimately show ?thesis using nth assms unfolding ring_written_def by auto
qed

lemma ring_written_two:
  assumes "seg_write off xs seg = Inr seg1" "seg_write 0 ys seg1 = Inr seg'"
    "off + length xs = cap" "length ys \<le> off" "cap \<le> length seg" "0 < cap"
  shows "ring_written cap off (xs @ ys) seg seg'"
proof -
  have 1: "length seg1 = length seg"
    "\<forall>j<length seg. seg1 ! j = (if off \<le> j \<and> j < off + length xs then xs ! (j - off) else seg ! j)"
    using assms seg_write_ok [of off xs seg] by auto
  have 2: "length seg' = length seg"
    "\<forall>j<length seg. seg' ! j = (if j < length ys then ys ! j else seg1 ! j)"
    using assms 1 seg_write_ok [of 0 ys seg1] by auto
  have lo: "(off + i) mod cap = off + i" if "i < length xs" for i using that assms by simp
  have hi: "(off + i) mod cap = i - length xs" if "\<not> i < length xs" "i < length xs + length ys" for i
  proof -
    have "off + i = cap + (i - length xs)" using that assms(3) by linarith
    moreover have "(cap + (i - length xs)) mod cap = i - length xs"
      unfolding mod_add_self1 by (rule mod_less) (use that assms(3,4,6) in linarith)
    ultimately show ?thesis by metis
  qed
  have "seg' ! ((off + i) mod cap) = (xs @ ys) ! i" if "i < length (xs @ ys)" for i
    using that lo [of i] hi [of i] 1 2 assms(3-5) by (cases "i < length xs") (auto simp: nth_append)
  moreover have "seg' ! j = seg ! j"
    if j: "j < cap" and out: "\<forall>i<length (xs @ ys). j \<noteq> (off + i) mod cap" for j
  proof -
    have "\<not> j < length ys"
    proof
      assume "j < length ys"
      then have "length xs + j < length (xs @ ys)" "(off + (length xs + j)) mod cap = j"
        using hi [of "length xs + j"] by auto
      with out show False by metis
    qed
    moreover have "\<not> off \<le> j"
    proof
      assume "off \<le> j"
      then have "j - off < length (xs @ ys)" "(off + (j - off)) mod cap = j"
        using j assms(3) by auto
      with out show False by metis
    qed
    ultimately show ?thesis using 1 2 j assms(5) by simp
  qed
  ultimately show ?thesis using 2(1) by (simp add: ring_written_def)
qed

lemma cap_le: "rb_inv rb \<Longrightarrow> capacity rb \<le> 2 ^ 63"
proof -
  assume "rb_inv rb"
  then obtain k where "k < 64" "capacity rb = 2 ^ k" using pow2_cap by (auto simp: rb_inv_def)
  moreover have "(2::nat) ^ k \<le> 2 ^ 63" using \<open>k < 64\<close> by (intro power_increasing) auto
  ultimately show ?thesis by simp
qed

lemma uadd_slot:
  assumes "rb_inv rb" "n \<le> capacity rb"
  shows "uadd (slot (capacity rb) w) n = Inr (slot (capacity rb) w + n)"
  using cap_le [OF assms(1)] cap_slot(2) [OF assms(1), of w] assms(2) by (intro uadd_ok) simp

lemma free_len_ok: "rb_inv rb \<Longrightarrow> free_len rb = Inr (capacity rb - rb_len rb)"
  by (simp add: free_len_def rb_inv_def)

text \<open>The two-part and the one-part read agree on the contents.\<close>

lemma contents_read_one:
  assumes "rb_inv rb" "n \<le> rb_len rb" "slot (capacity rb) (head rb) + n \<le> capacity rb"
  shows "take n (drop (slot (capacity rb) (head rb)) (segment rb)) = take n (contents rb)"
proof (rule nth_equalityI)
  show "length (take n (drop (slot (capacity rb) (head rb)) (segment rb))) = length (take n (contents rb))"
    using assms by (auto simp: rb_inv_def min_def)
  fix i assume "i < length (take n (drop (slot (capacity rb) (head rb)) (segment rb)))"
  then show "take n (drop (slot (capacity rb) (head rb)) (segment rb)) ! i = take n (contents rb) ! i"
    using assms by (auto simp: contents_def)
qed

lemma contents_read_two:
  assumes inv: "rb_inv rb" and n: "n \<le> rb_len rb" and wrap: "capacity rb < slot (capacity rb) (head rb) + n"
  defines "off \<equiv> slot (capacity rb) (head rb)"
  shows "take (capacity rb - off) (drop off (segment rb)) @ take (n - (capacity rb - off)) (segment rb) =
    take n (contents rb)"
proof -
  have off: "off < capacity rb" using cap_slot(2) [OF inv] by (simp add: off_def)
  have first: "take (capacity rb - off) (drop off (segment rb)) = take (capacity rb - off) (contents rb)"
    unfolding off_def by (rule contents_read_one) (use inv n wrap off in \<open>auto simp: off_def\<close>)
  have "take (n - (capacity rb - off)) (segment rb) =
      take (n - (capacity rb - off)) (drop (capacity rb - off) (contents rb))"
  proof (rule nth_equalityI)
    show "length (take (n - (capacity rb - off)) (segment rb)) =
        length (take (n - (capacity rb - off)) (drop (capacity rb - off) (contents rb)))"
      using n inv diff_le_mono [OF n, of "capacity rb - off"] by (auto simp: rb_inv_def min_def)
    fix i assume i: "i < length (take (n - (capacity rb - off)) (segment rb))"
    have "(off + (capacity rb - off + i)) mod capacity rb = i mod capacity rb"
      using off by (metis add.assoc le_add_diff_inverse less_imp_le mod_add_self1)
    moreover have "i < capacity rb" using i n inv by (auto simp: rb_inv_def)
    ultimately show "take (n - (capacity rb - off)) (segment rb) ! i =
        take (n - (capacity rb - off)) (drop (capacity rb - off) (contents rb)) ! i"
      using i n by (simp add: contents_def off_def nth_drop less_diff_conv)
  qed
  with first have "take (capacity rb - off) (drop off (segment rb)) @ take (n - (capacity rb - off)) (segment rb) =
      take (capacity rb - off + (n - (capacity rb - off))) (contents rb)"
    by (simp add: take_add)
  then show ?thesis using wrap off by (simp add: off_def)
qed

section \<open>Slices and single items\<close>

lemma push_slice_ok:
  assumes inv: "rb_inv rb"
  shows "\<exists>rb'. push_slice xs rb = Inr (rb', rb_len rb + length xs \<le> capacity rb) \<and> rb_inv rb' \<and>
    capacity rb' = capacity rb \<and>
    contents rb' = (if rb_len rb + length xs \<le> capacity rb then contents rb @ xs else contents rb)"
proof (cases "rb_len rb + length xs \<le> capacity rb")
  case False
  then show ?thesis using inv by (simp add: push_slice_def free_len_ok) (auto simp: rb_inv_def)
next
  case fit: True
  let ?c = "capacity rb" and ?off = "slot (capacity rb) (tail rb)"
  have len: "?c \<le> length (segment rb)" "0 < ?c" "?off < ?c"
    using inv cap_slot [OF inv] by (auto simp: rb_inv_def)
  have "\<exists>seg. (if ?off + length xs > ?c
        then rbind (seg_write ?off (take (?c - ?off) xs) (segment rb)) (seg_write 0 (drop (?c - ?off) xs))
        else seg_write ?off xs (segment rb)) = Inr seg \<and> ring_written ?c ?off xs (segment rb) seg"
  proof (cases "?off + length xs > ?c")
    case True
    then have tl: "?off + length (take (?c - ?off) xs) = ?c" "length (drop (?c - ?off) xs) \<le> ?off"
      using fit len by auto
    obtain seg1 where s1: "seg_write ?off (take (?c - ?off) xs) (segment rb) = Inr seg1"
      "length seg1 = length (segment rb)"
      using seg_write_ok [of ?off "take (?c - ?off) xs" "segment rb"] tl len by auto
    obtain seg where s2: "seg_write 0 (drop (?c - ?off) xs) seg1 = Inr seg"
      using seg_write_ok [of 0 "drop (?c - ?off) xs" seg1] tl len s1 by auto
    have "ring_written ?c ?off (take (?c - ?off) xs @ drop (?c - ?off) xs) (segment rb) seg"
      by (rule ring_written_two [OF s1(1) s2 tl len(1,2)])
    then show ?thesis using True s1 s2 by simp
  next
    case False
    then obtain seg where "seg_write ?off xs (segment rb) = Inr seg"
      using seg_write_ok [of ?off xs "segment rb"] len by auto
    then show ?thesis using False ring_written_one [of ?off xs "segment rb" seg ?c] len by simp
  qed
  then obtain seg where seg: "(if ?off + length xs > ?c
        then rbind (seg_write ?off (take (?c - ?off) xs) (segment rb)) (seg_write 0 (drop (?c - ?off) xs))
        else seg_write ?off xs (segment rb)) = Inr seg" "ring_written ?c ?off xs (segment rb) seg" by blast
  have "push_slice xs rb = Inr (advance_tail (rb\<lparr>segment := seg\<rparr>) (tail rb) (length xs), True)"
    using seg(1) fit inv uadd_slot [OF inv, of "length xs" "tail rb"]
    by (simp add: push_slice_def free_len_ok Let_def)
  then show ?thesis
    using contents_written [OF inv seg(2) fit, of "length xs"] fit by (simp add: advance_tail_def)
qed

lemma pop_slice_ok:
  assumes inv: "rb_inv rb"
  shows "\<exists>rb'. pop_slice n rb = Inr (rb', if n \<le> rb_len rb then Some (take n (contents rb)) else None) \<and>
    rb_inv rb' \<and> capacity rb' = capacity rb \<and>
    contents rb' = (if n \<le> rb_len rb then drop n (contents rb) else contents rb)"
proof (cases "n \<le> rb_len rb")
  case False
  then show ?thesis using inv by (simp add: pop_slice_def)
next
  case n: True
  let ?c = "capacity rb" and ?off = "slot (capacity rb) (head rb)"
  have len: "?c \<le> length (segment rb)" "?off < ?c" "n \<le> ?c"
    using inv cap_slot [OF inv] n by (auto simp: rb_inv_def)
  have "(if ?off + n > ?c
      then rbind (seg_read ?off (?c - ?off) (segment rb)) (\<lambda>xs.
           rbind (seg_read 0 (n - (?c - ?off)) (segment rb)) (\<lambda>ys. Inr (xs @ ys)))
      else seg_read ?off n (segment rb)) = Inr (take n (contents rb))"
    using contents_read_one [OF inv n] contents_read_two [OF inv n] len by (auto simp: seg_read_def)
  then have "pop_slice n rb = Inr (advance_head rb (head rb) n, Some (take n (contents rb)))"
    using n uadd_slot [OF inv len(3), of "head rb"] by (simp add: pop_slice_def Let_def)
  then show ?thesis
    using contents_advanced [OF inv n] n by (simp add: advance_head_def)
qed

lemma push_as_slice: "rb_inv rb \<Longrightarrow> push x rb = push_slice [x] rb"
proof -
  assume inv: "rb_inv rb"
  have "\<not> slot (capacity rb) (tail rb) + 1 > capacity rb" using cap_slot(2) [OF inv, of "tail rb"] by simp
  then show ?thesis
    using inv uadd_slot [OF inv, of 1 "tail rb"] cap_slot(1) [OF inv]
    by (simp add: push_def push_slice_def rb_is_full_def free_len_ok Let_def)
qed

lemma pop_as_slice:
  assumes inv: "rb_inv rb"
  shows "pop rb = rbind (pop_slice 1 rb) (\<lambda>(rb', items). Inr (rb', map_option hd items))"
proof -
  have "\<not> slot (capacity rb) (head rb) + 1 > capacity rb" using cap_slot(2) [OF inv, of "head rb"] by simp
  moreover have "uadd (slot (capacity rb) (head rb)) 1 = Inr (slot (capacity rb) (head rb) + 1)"
    using uadd_slot [OF inv, of 1 "head rb"] cap_slot(1) [OF inv] by simp
  ultimately have "pop_slice 1 rb = (if rb_len rb < 1 then Inr (rb, None)
      else rbind (seg_read (slot (capacity rb) (head rb)) 1 (segment rb)) (\<lambda>items.
        Inr (advance_head rb (head rb) 1, Some items)))"
    by (simp add: pop_slice_def Let_def)
  then show ?thesis by (simp add: pop_def rb_is_empty_def seg_read_def)
qed

section \<open>A bounded queue and its histories\<close>

text \<open>What a pipe or a socket needs of its buffer: requests that fit are accepted in full and in
  order, requests that do not fit leave the queue alone, and nothing panics.\<close>

datatype 'a queue_op = Enq "'a list" | Deq nat

locale bounded_queue =
  fixes inv :: "'q \<Rightarrow> bool" and abs :: "'q \<Rightarrow> 'a list" and bound :: "'q \<Rightarrow> nat"
    and enq :: "'a list \<Rightarrow> 'q \<Rightarrow> ('q \<times> bool) result"
    and deq :: "nat \<Rightarrow> 'q \<Rightarrow> ('q \<times> 'a list option) result"
  assumes enq_law: "inv q \<Longrightarrow> \<exists>q'. enq xs q = Inr (q', length (abs q) + length xs \<le> bound q) \<and> inv q' \<and>
      bound q' = bound q \<and> abs q' = (if length (abs q) + length xs \<le> bound q then abs q @ xs else abs q)"
    and deq_law: "inv q \<Longrightarrow> \<exists>q'. deq n q = Inr (q', if n \<le> length (abs q) then Some (take n (abs q)) else None) \<and>
      inv q' \<and> bound q' = bound q \<and> abs q' = (if n \<le> length (abs q) then drop n (abs q) else abs q)"
begin

lemma histories:
  fixes run :: "'a queue_op list \<Rightarrow> 'q \<Rightarrow> ('q \<times> 'a list \<times> 'a list) result"
  assumes nil: "\<And>q. run [] q = Inr (q, [], [])"
    and enq: "\<And>xs ops q. run (Enq xs # ops) q = rbind (enq xs q) (\<lambda>(q', ok).
      rbind (run ops q') (\<lambda>(q'', ins, outs). Inr (q'', (if ok then xs else []) @ ins, outs)))"
    and deq: "\<And>n ops q. run (Deq n # ops) q = rbind (deq n q) (\<lambda>(q', items).
      rbind (run ops q') (\<lambda>(q'', ins, outs). Inr (q'', ins, (case items of None \<Rightarrow> [] | Some ys \<Rightarrow> ys) @ outs)))"
    and "inv q"
  shows "\<exists>q' ins outs. run ops q = Inr (q', ins, outs) \<and> inv q' \<and> abs q @ ins = outs @ abs q'"
  using \<open>inv q\<close>
proof (induction ops arbitrary: q)
  case Nil
  then show ?case by (simp add: nil)
next
  case (Cons a ops)
  show ?case
  proof (cases a)
    case (Enq xs)
    obtain q1 ok where q1: "enq xs q = Inr (q1, ok)" "inv q1" "abs q1 = (if ok then abs q @ xs else abs q)"
      using enq_law [OF Cons.prems, of xs] by auto
    with Cons.IH [OF q1(2)] Enq show ?thesis by (auto simp: enq)
  next
    case (Deq n)
    define items where "items = (if n \<le> length (abs q) then Some (take n (abs q)) else None)"
    obtain q1 where q1: "deq n q = Inr (q1, items)" "inv q1"
      "abs q1 = (if n \<le> length (abs q) then drop n (abs q) else abs q)"
      using deq_law [OF Cons.prems, of n] unfolding items_def by blast
    then have "abs q = (case items of None \<Rightarrow> [] | Some ys \<Rightarrow> ys) @ abs q1" by (simp add: items_def)
    with q1 Cons.IH [OF q1(2)] Deq show ?thesis by (auto simp: deq)
  qed
qed

end

interpretation rbq: bounded_queue rb_inv contents capacity push_slice pop_slice
proof unfold_locales
  fix q :: "'b ring_buffer" and xs :: "'b list" and n :: nat
  assume inv: "rb_inv q"
  show "\<exists>q'. push_slice xs q = Inr (q', length (contents q) + length xs \<le> capacity q) \<and> rb_inv q' \<and>
      capacity q' = capacity q \<and>
      contents q' = (if length (contents q) + length xs \<le> capacity q then contents q @ xs else contents q)"
    using push_slice_ok [OF inv, of xs] by simp
  show "\<exists>q'. pop_slice n q =
        Inr (q', if n \<le> length (contents q) then Some (take n (contents q)) else None) \<and>
      rb_inv q' \<and> capacity q' = capacity q \<and>
      contents q' = (if n \<le> length (contents q) then drop n (contents q) else contents q)"
    using pop_slice_ok [OF inv, of n] by simp
qed

section \<open>User memory\<close>

lemma seg_room_ok: "off + n \<le> length seg \<Longrightarrow> seg_room off n seg = Inr n"
  by (simp add: seg_room_def)

lemma write_outcome:
  assumes inv: "rb_inv rb" and fit: "rb_len rb + length c \<le> capacity rb"
    and w: "ring_written (capacity rb) (slot (capacity rb) (tail rb)) c (segment rb) seg"
  shows "rb_inv (rb\<lparr>segment := seg\<rparr>)" "contents (rb\<lparr>segment := seg\<rparr>) = contents rb"
    "rb_inv (advance_tail (rb\<lparr>segment := seg\<rparr>) (tail rb) (length c))"
    "contents (advance_tail (rb\<lparr>segment := seg\<rparr>) (tail rb) (length c)) = contents rb @ c"
  using contents_written [OF inv w fit, of 0] contents_written [OF inv w fit, of "length c"]
  by (simp_all add: advance_tail_def)

definition write_post ::
  "'a ring_buffer \<Rightarrow> 'a user_reader list \<Rightarrow> nat \<Rightarrow> (errno + nat) \<times> 'a ring_buffer \<times> 'a user_reader list \<Rightarrow> bool" where
  "write_post rb rs m r \<longleftrightarrow> (case r of (out, rb', rs') \<Rightarrow> rb_inv rb' \<and> capacity rb' = capacity rb \<and>
     (if mapped rs m
      then out = Inr (min (sum_lens rs) m) \<and> contents rb' = contents rb @ map the (take m (concat rs)) \<and>
        concat rs' = drop m (concat rs)
      else out = Inl EFAULT \<and> contents rb' = contents rb))"

lemma write_postI:
  assumes inv: "rb_inv rb" and fit: "rb_len rb + length c \<le> capacity rb"
    and w: "ring_written (capacity rb) (slot (capacity rb) (tail rb)) c (segment rb) seg"
    and f: "f \<longleftrightarrow> \<not> mapped rs m" and c: "map Some c = take (length c) (concat rs)"
    and l: "\<not> f \<Longrightarrow> length c = min (sum_lens rs) m" and rs': "concat rs' = drop (length c) (concat rs)"
  shows "write_post rb rs m
    (if f then (Inl EFAULT, rb\<lparr>segment := seg\<rparr>, rs')
     else (Inr (length c), advance_tail (rb\<lparr>segment := seg\<rparr>) (tail rb) (length c), rs'))"
proof (cases f)
  case True
  then show ?thesis using f write_outcome [OF inv fit w] by (simp add: write_post_def)
next
  case False
  have "take (length c) (concat rs) = take m (concat rs)" "drop (length c) (concat rs) = drop m (concat rs)"
    using l [OF False] by (auto simp: sum_lens_concat min_def)
  moreover have "c = map the (take (length c) (concat rs))"
    by (simp flip: c)
  ultimately show ?thesis
    using False f l rs' write_outcome [OF inv fit w] by (simp add: write_post_def advance_tail_def)
qed

lemma write_fallible_ok:
  assumes inv: "rb_inv rb"
  shows "\<exists>r. write_fallible_with_max_len rb rs max_len = Inr r \<and>
    write_post rb rs (min (capacity rb - rb_len rb) max_len) r"
proof -
  define m where "m = min (capacity rb - rb_len rb) max_len"
  let ?c = "capacity rb" and ?off = "slot (capacity rb) (tail rb)"
  have len: "?c \<le> length (segment rb)" "0 < ?c" "?off < ?c" "rb_len rb \<le> ?c"
    using inv cap_slot [OF inv] by (auto simp: rb_inv_def)
  have m: "rb_len rb + m \<le> ?c" "m \<le> ?c" using len by (auto simp: m_def)
  have u: "uadd ?off m = Inr (?off + m)" by (rule uadd_slot [OF inv m(2)])
  show ?thesis
  proof (cases "?off + m > ?c")
    case False
    obtain c rs' f where r: "multi_read rs m = (c, rs', f)" by (metis prod_cases3)
    note R = multi_read_correct [of rs m, unfolded r prod.case]
    obtain seg where seg: "seg_write ?off c (segment rb) = Inr seg"
      using seg_write_ok [of ?off c "segment rb"] R False len by auto
    have "write_post rb rs m (if f then (Inl EFAULT, rb\<lparr>segment := seg\<rparr>, rs')
        else (Inr (length c), advance_tail (rb\<lparr>segment := seg\<rparr>) (tail rb) (length c), rs'))"
      by (rule write_postI [OF inv _ ring_written_one [OF seg]]) (use R m len False in auto)
    moreover have "write_fallible_with_max_len rb rs max_len = Inr
        (if f then (Inl EFAULT, rb\<lparr>segment := seg\<rparr>, rs')
         else (Inr (length c), advance_tail (rb\<lparr>segment := seg\<rparr>) (tail rb) (length c), rs'))"
      using False u r seg len inv
      by (simp add: write_fallible_with_max_len_def free_len_ok Let_def seg_room_ok flip: m_def)
    ultimately show ?thesis by (simp flip: m_def)
  next
    case True
    define a b where "a = ?c - ?off" and "b = m - a"
    have ab: "a + b = m" "?off + a = ?c" "b \<le> ?off" using True len m by (auto simp: a_def b_def)
    obtain c1 rs1 f1 where r1: "multi_read rs a = (c1, rs1, f1)" by (metis prod_cases3)
    obtain c2 rs2 f2 where r2: "multi_read rs1 b = (c2, rs2, f2)" by (metis prod_cases3)
    note R1 = multi_read_correct [of rs a, unfolded r1 prod.case]
    have c1: "length c1 \<le> a" using R1 by blast
    obtain seg1 where s1: "seg_write ?off c1 (segment rb) = Inr seg1" "length seg1 = length (segment rb)"
      using seg_write_ok [of ?off c1 "segment rb"] c1 ab len by auto
    have w1: "ring_written ?c ?off c1 (segment rb) seg1"
      by (rule ring_written_one [OF s1(1)]) (use c1 ab len in auto)
    have eq: "write_fallible_with_max_len rb rs max_len =
        (if f1 then Inr (Inl EFAULT, rb\<lparr>segment := seg1\<rparr>, rs1)
         else rbind (seg_write 0 c2 seg1) (\<lambda>seg2. Inr
           (if f2 then (Inl EFAULT, rb\<lparr>segment := seg2\<rparr>, rs2)
            else (Inr (length c1 + length c2),
              advance_tail (rb\<lparr>segment := seg2\<rparr>) (tail rb) (length c1 + length c2), rs2))))"
      using True u r1 r2 s1 len inv ab
      by (simp add: write_fallible_with_max_len_def free_len_ok Let_def seg_room_ok if_distrib
          flip: m_def a_def b_def cong: if_cong)
    show ?thesis
    proof (cases f1)
      case f1: True
      have "\<not> mapped rs m"
        using R1 f1 ab(1) by (metis mapped_def le_add1 set_take_subset_set_take subsetD)
      then show ?thesis
        using write_outcome [OF inv _ w1] c1 ab m f1 eq by (simp add: write_post_def flip: m_def)
    next
      case f1: False
      have "multi_read rs a = (c1, rs1, False)" using r1 f1 by simp
      note S = multi_read_split [OF this r2]
      obtain seg2 where s2: "seg_write 0 c2 seg1 = Inr seg2"
        using seg_write_ok [of 0 c2 seg1] S(4) ab len s1 by auto
      have "ring_written ?c ?off (c1 @ c2) (segment rb) seg2"
      proof (cases "length c1 = a")
        case True
        then show ?thesis by (intro ring_written_two [OF s1(1) s2]) (use ab len S(4) in auto)
      next
        case False
        then have "c2 = []" using S(2) by simp
        then show ?thesis using s2 w1 by (simp add: seg_write_def)
      qed
      then have "write_post rb rs m (if f2 then (Inl EFAULT, rb\<lparr>segment := seg2\<rparr>, rs2)
          else (Inr (length (c1 @ c2)), advance_tail (rb\<lparr>segment := seg2\<rparr>) (tail rb) (length (c1 @ c2)), rs2))"
        by (rule write_postI [OF inv, rotated]) (use S ab m in auto)
      then show ?thesis using eq f1 s2 unfolding length_append by (simp flip: m_def)
    qed
  qed
qed

definition read_post ::
  "'a ring_buffer \<Rightarrow> user_writer list \<Rightarrow> nat \<Rightarrow>
    (errno + nat) \<times> 'a ring_buffer \<times> 'a list \<times> user_writer list \<Rightarrow> bool" where
  "read_post rb ws m r \<longleftrightarrow> (case r of (out, rb', bytes, ws') \<Rightarrow>
     (if writable ws m
      then (let n = min (sum_lens ws) m in
        out = Inr n \<and> rb_inv rb' \<and> capacity rb' = capacity rb \<and> bytes @ contents rb' = contents rb \<and>
        length bytes = n \<and> concat ws' = drop n (concat ws))
      else out = Inl EFAULT \<and> rb' = rb))"

lemma read_postI:
  assumes inv: "rb_inv rb" and m: "m \<le> rb_len rb" and f: "f \<longleftrightarrow> \<not> writable ws m"
    and c: "c = take (length c) (take m (contents rb))"
    and l: "\<not> f \<Longrightarrow> length c = min (sum_lens ws) m" and ws': "concat ws' = drop (length c) (concat ws)"
  shows "read_post rb ws m
    (if f then (Inl EFAULT, rb, c, ws') else (Inr (length c), advance_head rb (head rb) (length c), c, ws'))"
proof (cases f)
  case True
  then show ?thesis using f by (simp add: read_post_def)
next
  case False
  have n: "length c \<le> m" using l [OF False] by simp
  then have "c = take (length c) (contents rb)" using c by (simp add: min_def)
  then have "c @ drop (length c) (contents rb) = contents rb" by (metis append_take_drop_id)
  then show ?thesis
    using False f l [OF False] ws' contents_advanced [OF inv, of "length c"] n m
    by (simp add: read_post_def Let_def advance_head_def)
qed

lemma read_fallible_ok:
  assumes inv: "rb_inv rb"
  shows "\<exists>r. read_fallible_with_max_len rb ws max_len = Inr r \<and>
    read_post rb ws (min (rb_len rb) max_len) r"
proof -
  define m where "m = min (rb_len rb) max_len"
  let ?c = "capacity rb" and ?off = "slot (capacity rb) (head rb)"
  have len: "?c \<le> length (segment rb)" "0 < ?c" "?off < ?c" "rb_len rb \<le> ?c"
    using inv cap_slot [OF inv] by (auto simp: rb_inv_def)
  have m: "m \<le> rb_len rb" "m \<le> ?c" using len by (auto simp: m_def)
  have u: "uadd ?off m = Inr (?off + m)" by (rule uadd_slot [OF inv m(2)])
  show ?thesis
  proof (cases "?off + m > ?c")
    case False
    define bytes where "bytes = take m (contents rb)"
    have b: "seg_read ?off m (segment rb) = Inr bytes" "length bytes = m"
      using contents_read_one [OF inv m(1)] False len m by (auto simp: seg_read_def bytes_def)
    obtain c ws' f where r: "multi_write ws bytes = (c, ws', f)" by (metis prod_cases3)
    note R = multi_write_correct [of ws bytes, unfolded r prod.case b(2)]
    have "read_post rb ws m (if f then (Inl EFAULT, rb, c, ws')
        else (Inr (length c), advance_head rb (head rb) (length c), c, ws'))"
      by (rule read_postI [OF inv m(1)]) (use R in \<open>auto simp flip: bytes_def\<close>)
    moreover have "read_fallible_with_max_len rb ws max_len = Inr (if f then (Inl EFAULT, rb, c, ws')
        else (Inr (length c), advance_head rb (head rb) (length c), c, ws'))"
      using False u r b len
      by (simp add: read_fallible_with_max_len_def Let_def seg_room_ok flip: m_def)
    ultimately show ?thesis by (simp flip: m_def)
  next
    case True
    define a b where "a = ?c - ?off" and "b = m - a"
    have ab: "a + b = m" "?off + a = ?c" "b \<le> ?off" using True len m by (auto simp: a_def b_def)
    define b1 b2 where "b1 = take a (drop ?off (segment rb))" and "b2 = take b (segment rb)"
    have cont: "b1 @ b2 = take m (contents rb)"
      using contents_read_two [OF inv m(1) True] by (simp add: b1_def b2_def a_def b_def)
    have bl: "length b1 = a" "length b2 = b" using ab len by (auto simp: b1_def b2_def)
    have sr: "seg_read ?off a (segment rb) = Inr b1" "seg_read 0 b (segment rb) = Inr b2"
      using ab len by (auto simp: seg_read_def b1_def b2_def)
    obtain c1 ws1 f1 where r1: "multi_write ws b1 = (c1, ws1, f1)" by (metis prod_cases3)
    obtain c2 ws2 f2 where r2: "multi_write ws1 b2 = (c2, ws2, f2)" by (metis prod_cases3)
    have eq: "read_fallible_with_max_len rb ws max_len = Inr
        (if f1 then (Inl EFAULT, rb, c1, ws1)
         else if f2 then (Inl EFAULT, rb, c1 @ c2, ws2)
         else (Inr (length c1 + length c2), advance_head rb (head rb) (length c1 + length c2), c1 @ c2, ws2))"
      using True u r1 r2 sr len ab
      by (simp add: read_fallible_with_max_len_def Let_def seg_room_ok flip: m_def a_def b_def)
    show ?thesis
    proof (cases f1)
      case f1: True
      have "\<not> writable ws a"
        using multi_write_correct [of ws b1, unfolded r1 prod.case bl] f1 by blast
      then have "\<not> writable ws m"
        using ab(1) by (metis writable_def le_add1 set_take_subset_set_take subsetD)
      then show ?thesis using f1 eq by (simp add: read_post_def flip: m_def)
    next
      case f1: False
      have "multi_write ws b1 = (c1, ws1, False)" using r1 f1 by simp
      note S = multi_write_split [OF this r2, unfolded bl ab(1) cont]
      have "read_post rb ws m (if f2 then (Inl EFAULT, rb, c1 @ c2, ws2)
          else (Inr (length (c1 @ c2)), advance_head rb (head rb) (length (c1 @ c2)), c1 @ c2, ws2))"
        by (rule read_postI [OF inv m(1) S(1)], unfold length_append) (rule S(3), erule S(4), rule S(2))
      then show ?thesis using eq f1 unfolding length_append by (simp flip: m_def)
    qed
  qed
qed

section \<open>One producer and one consumer\<close>

text \<open>\<open>push\<close> and \<open>pop\<close> cut at their shared accesses. The producer alone stores the tail and the consumer
  alone the head, so a load of one's own counter can be joined with the load of the other's: the
  producer loads the counters and checks for room, writes the slot, and stores the tail; the
  consumer loads the counters and checks for an item, reads the slot, and stores the head. \<open>sent\<close> and
  \<open>received\<close> record the items whose \<open>push\<close> and \<open>pop\<close> succeeded.\<close>

datatype 'a producer_pc = PIdle | PWrite 'a | PPublish 'a

datatype 'a consumer_pc = CIdle | CRead | CPublish 'a

record 'a spsc =
  buf :: "'a ring_buffer"
  prod :: "'a producer_pc"
  cons :: "'a consumer_pc"
  sent :: "'a list"
  received :: "'a list"

fun producer_step :: "'a \<Rightarrow> 'a spsc \<Rightarrow> 'a spsc result" where
  "producer_step x s = (case prod s of
     PIdle \<Rightarrow> rbind (rb_is_full (buf s)) (\<lambda>full. Inr (if full then s else s\<lparr>prod := PWrite x\<rparr>))
   | PWrite y \<Rightarrow>
       rbind (seg_write (slot (capacity (buf s)) (tail (buf s))) [y] (segment (buf s))) (\<lambda>seg.
         Inr (s\<lparr>buf := (buf s)\<lparr>segment := seg\<rparr>, prod := PPublish y\<rparr>))
   | PPublish y \<Rightarrow>
       Inr (s\<lparr>buf := advance_tail (buf s) (tail (buf s)) 1, prod := PIdle, sent := sent s @ [y]\<rparr>))"

fun consumer_step :: "'a spsc \<Rightarrow> 'a spsc result" where
  "consumer_step s = (case cons s of
     CIdle \<Rightarrow> Inr (if rb_is_empty (buf s) then s else s\<lparr>cons := CRead\<rparr>)
   | CRead \<Rightarrow>
       rbind (seg_read (slot (capacity (buf s)) (head (buf s))) 1 (segment (buf s))) (\<lambda>xs.
         Inr (s\<lparr>cons := CPublish (hd xs)\<rparr>))
   | CPublish y \<Rightarrow>
       Inr (s\<lparr>buf := advance_head (buf s) (head (buf s)) 1, cons := CIdle, received := received s @ [y]\<rparr>))"

inductive spsc_run :: "'a ring_buffer \<Rightarrow> 'a spsc \<Rightarrow> bool" for rb where
  init: "spsc_run rb \<lparr>buf = rb, prod = PIdle, cons = CIdle, sent = [], received = []\<rparr>"
| produce: "spsc_run rb s \<Longrightarrow> producer_step x s = Inr s' \<Longrightarrow> spsc_run rb s'"
| consume: "spsc_run rb s \<Longrightarrow> consumer_step s = Inr s' \<Longrightarrow> spsc_run rb s'"

definition spsc_inv :: "'a spsc \<Rightarrow> bool" where
  "spsc_inv s \<longleftrightarrow> rb_inv (buf s) \<and> sent s = received s @ contents (buf s) \<and>
     (case prod s of PIdle \<Rightarrow> True | PWrite _ \<Rightarrow> rb_len (buf s) < capacity (buf s)
      | PPublish y \<Rightarrow> rb_len (buf s) < capacity (buf s) \<and>
          segment (buf s) ! slot (capacity (buf s)) (tail (buf s)) = y) \<and>
     (case cons s of CIdle \<Rightarrow> True | CRead \<Rightarrow> 0 < rb_len (buf s)
      | CPublish y \<Rightarrow> 0 < rb_len (buf s) \<and> hd (contents (buf s)) = y)"

lemma hd_contents: "rb_inv rb \<Longrightarrow> 0 < rb_len rb \<Longrightarrow>
    hd (contents rb) = segment rb ! slot (capacity rb) (head rb)"
  using cap_slot(2) [of rb "head rb"] by (simp add: contents_def hd_map upt_conv_Cons)

lemma len_contents_eq: "contents rb' = contents rb \<Longrightarrow> rb_len rb' = rb_len rb"
  by (metis length_contents)

lemma producer_step_inv:
  assumes inv: "spsc_inv s"
  shows "\<exists>s'. producer_step x s = Inr s' \<and> spsc_inv s'"
proof -
  let ?rb = "buf s"
  let ?off = "slot (capacity ?rb) (tail ?rb)"
  have rb: "rb_inv ?rb" using inv by (simp add: spsc_inv_def)
  then have off: "?off < capacity ?rb" "capacity ?rb \<le> length (segment ?rb)" "rb_len ?rb \<le> capacity ?rb"
    using cap_slot(2) by (auto simp: rb_inv_def)
  show ?thesis
  proof (cases "prod s")
    case PIdle
    then show ?thesis using inv rb off 
      by (auto simp: rb_is_full_def free_len_ok spsc_inv_def split: consumer_pc.splits)
  next
    case (PWrite y)
    then have room: "rb_len ?rb + length [y] \<le> capacity ?rb" using inv by (simp add: spsc_inv_def)
    obtain seg where seg: "seg_write ?off [y] (segment ?rb) = Inr seg"
      using seg_write_ok [of ?off "[y]" "segment ?rb"] off by auto
    then have w: "ring_written (capacity ?rb) ?off [y] (segment ?rb) seg"
      by (rule ring_written_one) (use off in auto)
    have "seg ! ?off = y" using w off by (auto simp: ring_written_def)
    with write_outcome(1,2) [OF rb room w] inv PWrite seg off show ?thesis
      by (auto simp: spsc_inv_def len_contents_eq [OF write_outcome(2) [OF rb room w]] split: consumer_pc.splits)
  next
    case (PPublish y)
    then have room: "rb_len ?rb + length [y] \<le> capacity ?rb" and y: "segment ?rb ! ?off = y"
      using inv by (simp_all add: spsc_inv_def)
    have "ring_written (capacity ?rb) ?off [y] (segment ?rb) (segment ?rb)"
      using y off by (simp add: ring_written_def)
    from write_outcome(3,4) [OF rb room this] have
      adv: "rb_inv (advance_tail ?rb (tail ?rb) 1)" "contents (advance_tail ?rb (tail ?rb) 1) = contents ?rb @ [y]"
      by simp_all
    have "rb_len (advance_tail ?rb (tail ?rb) 1) = rb_len ?rb + 1"
      using arg_cong [OF adv(2), of length] by simp
    moreover have "hd (contents ?rb @ [y]) = hd (contents ?rb)" if "0 < rb_len ?rb"
      using that by (metis hd_append2 length_contents length_greater_0_conv)
    ultimately show ?thesis
      using adv inv PPublish by (auto simp: spsc_inv_def split: consumer_pc.splits)
  qed
qed

lemma consumer_step_inv:
  assumes inv: "spsc_inv s"
  shows "\<exists>s'. consumer_step s = Inr s' \<and> spsc_inv s'"
proof -
  let ?rb = "buf s"
  let ?off = "slot (capacity ?rb) (head ?rb)"
  have rb: "rb_inv ?rb" using inv by (simp add: spsc_inv_def)
  then have off: "?off < capacity ?rb" "capacity ?rb \<le> length (segment ?rb)"
    using cap_slot(2) by (auto simp: rb_inv_def)
  show ?thesis
  proof (cases "cons s")
    case CIdle
    then show ?thesis using inv 
      by (auto simp: rb_is_empty_def spsc_inv_def split: producer_pc.splits)
  next
    case CRead
    have "seg_read ?off 1 (segment ?rb) = Inr [segment ?rb ! ?off]"
      using off by (simp add: seg_read_def take_Suc_conv_app_nth)
    then show ?thesis using inv CRead hd_contents [OF rb]
      by (auto simp: spsc_inv_def split: producer_pc.splits)
  next
    case (CPublish y)
    then have ne: "1 \<le> rb_len ?rb" and y: "hd (contents ?rb) = y" using inv by (simp_all add: spsc_inv_def)
    note adv = contents_advanced [OF rb ne]
    have len: "rb_len (advance_head ?rb (head ?rb) 1) = rb_len ?rb - 1"
      using arg_cong [OF conjunct2 [OF adv], of length] by simp
    have "contents ?rb = y # drop 1 (contents ?rb)"
      using ne y by (metis drop0 drop_Suc length_contents list.collapse list.size(3) not_one_le_zero One_nat_def)
    then show ?thesis
      using adv inv CPublish len ne
      by (auto simp: spsc_inv_def advance_head_def split: producer_pc.splits)
  qed
qed

lemma spsc_run_inv: "spsc_run rb s \<Longrightarrow> rb_inv rb \<Longrightarrow> rb_len rb = 0 \<Longrightarrow> spsc_inv s"
proof (induction rule: spsc_run.induct)
  case init
  then show ?case by (simp add: spsc_inv_def contents_def)
next
  case (produce s x s')
  then show ?case using producer_step_inv [of s x] by auto
next
  case (consume s s')
  then show ?case using consumer_step_inv [of s] by auto
qed

section \<open>Properties\<close>

definition small_rb :: "nat ring_buffer" where
  "small_rb = \<lparr>segment = [0, 0], capacity = 2, tail = - 1, head = - 1\<rparr>"

lemma small_rb_inv: "rb_inv small_rb" "rb_len small_rb = 0" "contents small_rb = []"
  by (auto simp: rb_inv_def small_rb_def rb_len_def contents_def is_power_of_two_iff intro: exI [of _ 1])

text \<open>C2. The ring buffer is a FIFO channel between one producer and one consumer that run
  concurrently. In every interleaving of the loads and stores of \<open>push\<close> and \<open>pop\<close>, started on an
  empty buffer, the items received so far followed by the items in the buffer are exactly the
  items sent, in order; the number of items never exceeds the capacity, also when the counters
  wrap around; and neither side can panic in its next step.\<close>

theorem ring_buffer_concurrent_fifo:
  assumes "rb_inv rb" "rb_len rb = 0" "spsc_run rb s"
  shows "sent s = received s @ contents (buf s) \<and> rb_len (buf s) \<le> capacity (buf s) \<and>
    (\<exists>s'. producer_step x s = Inr s') \<and> (\<exists>s'. consumer_step s = Inr s')"
proof -
  have inv: "spsc_inv s" by (rule spsc_run_inv) (use assms in auto)
  then show ?thesis
    using producer_step_inv [OF inv, of x] consumer_step_inv [OF inv]
    by (auto simp: spsc_inv_def rb_inv_def simp del: producer_step.simps consumer_step.simps)
qed

theorem ring_buffer_concurrent_fifo_witness:
  "spsc_run small_rb \<lparr>buf = small_rb, prod = PWrite 5, cons = CIdle, sent = [], received = []\<rparr> \<and>
   (\<exists>s'. producer_step 7 \<lparr>buf = small_rb, prod = PWrite 5, cons = CIdle, sent = [], received = []\<rparr> = Inr s')"
proof -
  let ?s = "\<lparr>buf = small_rb, prod = PWrite 5, cons = CIdle, sent = [], received = []\<rparr>"
  have run: "spsc_run small_rb ?s"
    by (rule spsc_run.produce [OF spsc_run.init, where x = 5])
      (simp add: rb_is_full_def free_len_def small_rb_inv, simp add: small_rb_def)
  then show ?thesis using ring_buffer_concurrent_fifo [OF small_rb_inv(1,2) run] by blast
qed

text \<open>C13. Functional refinement to a list. On a well-formed buffer \<open>push_slice\<close> and \<open>pop_slice\<close> never panic
  and implement the bounded queue: a slice is appended whole when it fits and refused otherwise,
  and the oldest items are taken when there are enough. \<open>push\<close> and \<open>pop\<close> are the slices of one
  item, and \<open>clear\<close> empties the buffer.\<close>

theorem ring_buffer_refines_queue:
  assumes "rb_inv rb"
  shows "(\<exists>rb'. push_slice xs rb = Inr (rb', rb_len rb + length xs \<le> capacity rb) \<and> rb_inv rb' \<and>
      contents rb' = (if rb_len rb + length xs \<le> capacity rb then contents rb @ xs else contents rb)) \<and>
    (\<exists>rb'. pop_slice n rb = Inr (rb', if n \<le> rb_len rb then Some (take n (contents rb)) else None) \<and>
      rb_inv rb' \<and> contents rb' = (if n \<le> rb_len rb then drop n (contents rb) else contents rb)) \<and>
    push x rb = push_slice [x] rb \<and>
    pop rb = rbind (pop_slice 1 rb) (\<lambda>(rb', items). Inr (rb', map_option hd items)) \<and>
    rb_inv (rb_clear rb) \<and> contents (rb_clear rb) = []"
proof -
  have "rb_inv (rb_clear rb)" "contents (rb_clear rb) = []"
    using assms by (simp_all add: rb_inv_def rb_clear_def rb_len_def contents_def)
  then show ?thesis
    using push_slice_ok [OF assms] pop_slice_ok [OF assms] push_as_slice [OF assms] pop_as_slice [OF assms]
    by blast
qed

theorem ring_buffer_refines_queue_witness:
  "rb_inv small_rb \<and> (\<exists>rb'. push_slice [4, 5] small_rb = Inr (rb', True) \<and> contents rb' = [4, 5])"
proof -
  have "rb_len small_rb + length [4, 5 :: nat] \<le> capacity small_rb"
    using small_rb_inv(2) by (simp add: small_rb_def)
  then show ?thesis
    using ring_buffer_refines_queue [OF small_rb_inv(1), of "[4, 5]" 0 0] small_rb_inv by auto
qed

text \<open>Histories of slices. Whatever sequence of \<open>push_slice\<close> and \<open>pop_slice\<close> is run on a well-formed
  buffer, none panics, and what was in the buffer together with what was accepted is what was
  delivered followed by what is left.\<close>

fun run_ops :: "'a queue_op list \<Rightarrow> 'a ring_buffer \<Rightarrow> ('a ring_buffer \<times> 'a list \<times> 'a list) result" where
  "run_ops [] rb = Inr (rb, [], [])"
| "run_ops (Enq xs # ops) rb = rbind (push_slice xs rb) (\<lambda>(rb', ok).
     rbind (run_ops ops rb') (\<lambda>(rb'', ins, outs). Inr (rb'', (if ok then xs else []) @ ins, outs)))"
| "run_ops (Deq n # ops) rb = rbind (pop_slice n rb) (\<lambda>(rb', items).
     rbind (run_ops ops rb') (\<lambda>(rb'', ins, outs).
       Inr (rb'', ins, (case items of None \<Rightarrow> [] | Some ys \<Rightarrow> ys) @ outs)))"

theorem ring_buffer_histories:
  assumes "rb_inv rb"
  shows "\<exists>rb' ins outs. run_ops ops rb = Inr (rb', ins, outs) \<and> rb_inv rb' \<and>
    contents rb @ ins = outs @ contents rb'"
  by (rule rbq.histories [of run_ops, OF _ _ _ assms]) simp_all

theorem ring_buffer_histories_witness:
  "rb_inv small_rb \<and> (\<exists>rb' ins outs. run_ops [Enq [4, 5], Deq 1, Enq [6], Deq 5] small_rb =
     Inr (rb', ins, outs) \<and> rb_inv rb' \<and> ins = outs @ contents rb')"
  using small_rb_inv ring_buffer_histories [OF small_rb_inv(1), of "[Enq [4, 5], Deq 1, Enq [6], Deq 5]"] by simp

text \<open>C26. Copies between the buffer and user memory. \<open>write_fallible\<close> appends the first bytes of the
  user buffers, as many as there are, as there is room for and as the limit allows, and
  \<open>read_fallible\<close> delivers the oldest bytes likewise and removes them. When a page within that
  number of bytes is not mapped, the result is EFAULT and the contents of the buffer are as before,
  although part of the bytes was copied.\<close>

theorem ring_buffer_user_copies:
  assumes "rb_inv rb"
  shows "(\<exists>r. write_fallible_with_max_len rb rs max_len = Inr r \<and>
      write_post rb rs (min (capacity rb - rb_len rb) max_len) r) \<and>
    (\<exists>r. read_fallible_with_max_len rb ws max_len = Inr r \<and> read_post rb ws (min (rb_len rb) max_len) r)"
  using write_fallible_ok [OF assms] read_fallible_ok [OF assms] by blast

theorem ring_buffer_user_copies_witness:
  "rb_inv small_rb \<and> (\<exists>r. write_fallible_with_max_len small_rb [[Some 3], [Some 4, None]] 9 = Inr r \<and>
     fst r = Inr 2 \<and> contents (fst (snd r)) = [3, 4])"
proof -
  have "min (capacity small_rb - rb_len small_rb) 9 = 2" using small_rb_inv(2) by (simp add: small_rb_def)
  then obtain r where r: "write_fallible_with_max_len small_rb [[Some 3], [Some 4, None]] 9 = Inr r"
    "write_post small_rb [[Some 3], [Some 4, None]] 2 r"
    using ring_buffer_user_copies [OF small_rb_inv(1), of "[[Some 3], [Some 4, None]]" 9 "[]"] by auto
  then show ?thesis using small_rb_inv by (auto simp: write_post_def mapped_def split: prod.splits)
qed

end
