(* ===== verification/Credentials.thy ===== *)
theory Credentials
  imports Prelude
begin

text \<open>
  The credentials of a thread and the system calls that change them:
  \<open>kernel/src/process/credentials/credentials_.rs\<close>, \<open>capabilities.rs\<close>, \<open>user.rs\<close>, \<open>group.rs\<close>, the calls
  \<open>setuid\<close>, \<open>setreuid\<close>, \<open>setresuid\<close>, \<open>setfsuid\<close>, their group counterparts, \<open>setgroups\<close> and \<open>capset\<close> of
  \<open>kernel/src/syscall\<close>, and the change of credentials on \<open>execve\<close>.

  A capability set is its 64 flag bits. A call that returns \<open>Inl\<close> leaves the credentials as they
  were.
\<close>

section \<open>Identifiers and capability sets\<close>

type_synonym uid = "32 word"
type_synonym gid = "32 word"
type_synonym cap_set = "64 word"

definition ROOT_UID :: "32 word" where
  "ROOT_UID = 0"

definition is_root :: "uid \<Rightarrow> bool" where
  "is_root u \<longleftrightarrow> u = ROOT_UID"

definition most_significant_bit :: nat where
  "most_significant_bit = 40"

definition CAP_MASK :: cap_set where
  "CAP_MASK = push_bit (most_significant_bit + 1) 1 - 1"

definition cap :: "nat \<Rightarrow> cap_set" where
  "cap n = push_bit n 1"

definition CAP_CHOWN :: cap_set where "CAP_CHOWN = cap 0"
definition CAP_DAC_OVERRIDE :: cap_set where "CAP_DAC_OVERRIDE = cap 1"
definition CAP_DAC_READ_SEARCH :: cap_set where "CAP_DAC_READ_SEARCH = cap 2"
definition CAP_FOWNER :: cap_set where "CAP_FOWNER = cap 3"
definition CAP_FSETID :: cap_set where "CAP_FSETID = cap 4"
definition CAP_SETPCAP :: cap_set where "CAP_SETPCAP = cap 8"
definition CAP_LINUX_IMMUTABLE :: cap_set where "CAP_LINUX_IMMUTABLE = cap 9"
definition CAP_MKNOD :: cap_set where "CAP_MKNOD = cap 27"
definition CAP_MAC_OVERRIDE :: cap_set where "CAP_MAC_OVERRIDE = cap 32"

definition cap_new_root :: cap_set where
  "cap_new_root = CAP_MASK"

definition cap_try_from :: "cap_set \<Rightarrow> cap_set option" where
  "cap_try_from v = (if v AND NOT CAP_MASK \<noteq> 0 then None else Some v)"

definition from_bits_truncate :: "cap_set \<Rightarrow> cap_set" where
  "from_bits_truncate v = v AND CAP_MASK"

definition cap_contains :: "cap_set \<Rightarrow> cap_set \<Rightarrow> bool" where
  "cap_contains s c \<longleftrightarrow> s AND c = c"

definition cap_diff :: "cap_set \<Rightarrow> cap_set \<Rightarrow> cap_set" where
  "cap_diff a b = a AND NOT b"

section \<open>Credentials\<close>

record credentials =
  ruid :: uid
  euid :: uid
  suid :: uid
  fsuid :: uid
  rgid :: gid
  egid :: gid
  sgid :: gid
  fsgid :: gid
  supplementary_gids :: "gid set"
  inheritable_capset :: cap_set
  permitted_capset :: cap_set
  effective_capset :: cap_set
  keep_capabilities :: bool

definition cred_new :: "uid \<Rightarrow> gid \<Rightarrow> cap_set \<Rightarrow> credentials" where
  "cred_new u g cs =
     \<lparr>ruid = u, euid = u, suid = u, fsuid = u, rgid = g, egid = g, sgid = g, fsgid = g,
      supplementary_gids = {g}, inheritable_capset = cs, permitted_capset = cs,
      effective_capset = cs, keep_capabilities = False\<rparr>"

definition is_privileged :: "credentials \<Rightarrow> bool" where
  "is_privileged c \<longleftrightarrow> is_root (euid c)"

definition or_old :: "'a option \<Rightarrow> 'a \<Rightarrow> 'a" where
  "or_old x old = (case x of Some v \<Rightarrow> v | None \<Rightarrow> old)"

definition set_resuid_unchecked ::
  "credentials \<Rightarrow> uid option \<Rightarrow> uid option \<Rightarrow> uid option \<Rightarrow> credentials" where
  "set_resuid_unchecked c r e s =
     (let new_ruid = or_old r (ruid c); new_euid = or_old e (euid c); new_suid = or_old s (suid c);
          c1 = c\<lparr>ruid := new_ruid, euid := new_euid, suid := new_suid\<rparr>;
          had_root = is_root (ruid c) \<or> is_root (euid c) \<or> is_root (suid c);
          all_nonroot = (\<not> is_root new_ruid \<and> \<not> is_root new_euid \<and> \<not> is_root new_suid)
      in if had_root \<and> all_nonroot then
           (if \<not> keep_capabilities c1
            then c1\<lparr>permitted_capset := 0, inheritable_capset := 0\<rparr> else c1)\<lparr>effective_capset := 0\<rparr>
         else
           let c2 = (if is_root (euid c) \<and> \<not> is_root new_euid then c1\<lparr>effective_capset := 0\<rparr> else c1)
           in if \<not> is_root (euid c) \<and> is_root new_euid
              then c2\<lparr>effective_capset := permitted_capset c2\<rparr> else c2)"

definition fs_caps :: cap_set where
  "fs_caps = CAP_CHOWN OR CAP_DAC_OVERRIDE OR CAP_FOWNER OR CAP_DAC_READ_SEARCH OR CAP_FSETID OR
     CAP_LINUX_IMMUTABLE OR CAP_MAC_OVERRIDE OR CAP_MKNOD"

definition set_fsuid_unchecked :: "credentials \<Rightarrow> uid \<Rightarrow> credentials" where
  "set_fsuid_unchecked c u =
     (let c1 = c\<lparr>fsuid := u\<rparr> in
      if is_root (fsuid c) \<and> \<not> is_root u
      then c1\<lparr>effective_capset := cap_diff (effective_capset c1) fs_caps\<rparr> else c1)"

definition check_uid_perm ::
  "credentials \<Rightarrow> uid option \<Rightarrow> uid option \<Rightarrow> uid option \<Rightarrow> bool \<Rightarrow> unit result" where
  "check_uid_perm c r e s ruid_may_be_old_suid =
     (if is_privileged c then Inr ()
      else if (case r of Some u \<Rightarrow> u \<noteq> ruid c \<and> u \<noteq> euid c \<and> (\<not> ruid_may_be_old_suid \<or> u \<noteq> suid c)
               | None \<Rightarrow> False) then Inl (Errno EPERM)
      else if (case e of Some u \<Rightarrow> u \<noteq> ruid c \<and> u \<noteq> euid c \<and> u \<noteq> suid c | None \<Rightarrow> False)
        then Inl (Errno EPERM)
      else if (case s of Some u \<Rightarrow> u \<noteq> ruid c \<and> u \<noteq> euid c \<and> u \<noteq> suid c | None \<Rightarrow> False)
        then Inl (Errno EPERM)
      else Inr ())"

definition set_uid :: "credentials \<Rightarrow> uid \<Rightarrow> credentials" where
  "set_uid c u =
     (if is_privileged c
      then set_fsuid_unchecked (set_resuid_unchecked c (Some u) (Some u) (Some u)) u
      else if u \<noteq> ruid c \<and> u \<noteq> euid c \<and> u \<noteq> suid c then c
      else set_fsuid_unchecked (set_resuid_unchecked c None (Some u) None) u)"

definition set_reuid :: "credentials \<Rightarrow> uid option \<Rightarrow> uid option \<Rightarrow> credentials result" where
  "set_reuid c r e =
     rbind (check_uid_perm c r e None False) (\<lambda>_.
       let should_set_suid = (r \<noteq> None \<or> (case e of Some u \<Rightarrow> u \<noteq> ruid c | None \<Rightarrow> False));
           c1 = set_resuid_unchecked c r e None;
           c2 = (if should_set_suid then c1\<lparr>suid := euid c1\<rparr> else c1)
       in Inr (set_fsuid_unchecked c2 (euid c2)))"

definition set_resuid ::
  "credentials \<Rightarrow> uid option \<Rightarrow> uid option \<Rightarrow> uid option \<Rightarrow> credentials result" where
  "set_resuid c r e s =
     rbind (check_uid_perm c r e s True) (\<lambda>_.
       let c1 = set_resuid_unchecked c r e s in Inr (set_fsuid_unchecked c1 (euid c1)))"

definition set_fsuid :: "credentials \<Rightarrow> uid option \<Rightarrow> (uid \<times> credentials) result" where
  "set_fsuid c f =
     (case f of
        None \<Rightarrow> Inr (fsuid c, c)
      | Some u \<Rightarrow>
          if is_privileged c then Inr (fsuid c, c\<lparr>fsuid := u\<rparr>)
          else if u \<noteq> ruid c \<and> u \<noteq> euid c \<and> u \<noteq> suid c then Inl (Errno EPERM)
          else Inr (fsuid c, set_fsuid_unchecked c u))"

definition set_euid :: "credentials \<Rightarrow> uid \<Rightarrow> credentials" where
  "set_euid c u = set_resuid_unchecked c None (Some u) None"

definition set_suid :: "credentials \<Rightarrow> uid \<Rightarrow> credentials" where
  "set_suid c u = set_resuid_unchecked c None None (Some u)"

section \<open>Groups\<close>

definition set_gid :: "credentials \<Rightarrow> gid \<Rightarrow> credentials" where
  "set_gid c g =
     (if is_privileged c then c\<lparr>rgid := g, egid := g, sgid := g, fsgid := g\<rparr>
      else c\<lparr>egid := g, fsgid := g\<rparr>)"

definition check_gid_perm ::
  "credentials \<Rightarrow> gid option \<Rightarrow> gid option \<Rightarrow> gid option \<Rightarrow> bool \<Rightarrow> unit result" where
  "check_gid_perm c r e s rgid_may_be_old_sgid =
     (if is_privileged c then Inr ()
      else if (case r of Some u \<Rightarrow> u \<noteq> rgid c \<and> u \<noteq> egid c \<and> (\<not> rgid_may_be_old_sgid \<or> u \<noteq> sgid c)
               | None \<Rightarrow> False) then Inl (Errno EPERM)
      else if (case e of Some u \<Rightarrow> u \<noteq> rgid c \<and> u \<noteq> egid c \<and> u \<noteq> sgid c | None \<Rightarrow> False)
        then Inl (Errno EPERM)
      else if (case s of Some u \<Rightarrow> u \<noteq> rgid c \<and> u \<noteq> egid c \<and> u \<noteq> sgid c | None \<Rightarrow> False)
        then Inl (Errno EPERM)
      else Inr ())"

definition set_resgid_unchecked ::
  "credentials \<Rightarrow> gid option \<Rightarrow> gid option \<Rightarrow> gid option \<Rightarrow> credentials" where
  "set_resgid_unchecked c r e s =
     c\<lparr>rgid := or_old r (rgid c), egid := or_old e (egid c), sgid := or_old s (sgid c)\<rparr>"

definition set_regid :: "credentials \<Rightarrow> gid option \<Rightarrow> gid option \<Rightarrow> credentials result" where
  "set_regid c r e =
     rbind (check_gid_perm c r e None False) (\<lambda>_.
       let should_set_sgid = (r \<noteq> None \<or> (case e of Some g \<Rightarrow> g \<noteq> rgid c | None \<Rightarrow> False));
           c1 = set_resgid_unchecked c r e None;
           c2 = (if should_set_sgid then c1\<lparr>sgid := egid c1\<rparr> else c1)
       in Inr (c2\<lparr>fsgid := egid c2\<rparr>))"

definition set_resgid ::
  "credentials \<Rightarrow> gid option \<Rightarrow> gid option \<Rightarrow> gid option \<Rightarrow> credentials result" where
  "set_resgid c r e s =
     rbind (check_gid_perm c r e s True) (\<lambda>_.
       let c1 = set_resgid_unchecked c r e s in Inr (c1\<lparr>fsgid := egid c1\<rparr>))"

definition set_fsgid :: "credentials \<Rightarrow> gid option \<Rightarrow> (gid \<times> credentials) result" where
  "set_fsgid c f =
     (case f of
        None \<Rightarrow> Inr (fsgid c, c)
      | Some g \<Rightarrow>
          if is_privileged c then Inr (fsgid c, c\<lparr>fsgid := g\<rparr>)
          else if g \<noteq> rgid c \<and> g \<noteq> egid c \<and> g \<noteq> sgid c then Inl (Errno EPERM)
          else Inr (fsgid c, c\<lparr>fsgid := g\<rparr>))"

section \<open>System calls\<close>

text \<open>An argument is an \<open>i32\<close>; \<open>as u32\<close> reads its bits.\<close>

definition as_id :: "int \<Rightarrow> 32 word" where
  "as_id n = word_of_int n"

definition positive_id :: "int \<Rightarrow> 32 word option" where
  "positive_id n = (if n > 0 then Some (as_id n) else None)"

definition sys_setuid :: "int \<Rightarrow> credentials \<Rightarrow> credentials result" where
  "sys_setuid u c = (if u < 0 then Inl (Errno EINVAL) else Inr (set_uid c (as_id u)))"

definition sys_setgid :: "int \<Rightarrow> credentials \<Rightarrow> credentials result" where
  "sys_setgid g c = (if g < 0 then Inl (Errno EINVAL) else Inr (set_gid c (as_id g)))"

definition sys_setreuid :: "int \<Rightarrow> int \<Rightarrow> credentials \<Rightarrow> credentials result" where
  "sys_setreuid r e c = set_reuid c (positive_id r) (positive_id e)"

definition sys_setresuid :: "int \<Rightarrow> int \<Rightarrow> int \<Rightarrow> credentials \<Rightarrow> credentials result" where
  "sys_setresuid r e s c = set_resuid c (positive_id r) (positive_id e) (positive_id s)"

definition sys_setregid :: "int \<Rightarrow> int \<Rightarrow> credentials \<Rightarrow> credentials result" where
  "sys_setregid r e c = set_regid c (positive_id r) (positive_id e)"

definition sys_setresgid :: "int \<Rightarrow> int \<Rightarrow> int \<Rightarrow> credentials \<Rightarrow> credentials result" where
  "sys_setresgid r e s c = set_resgid c (positive_id r) (positive_id e) (positive_id s)"

definition sys_setfsuid :: "int \<Rightarrow> credentials \<Rightarrow> credentials result" where
  "sys_setfsuid u c = rbind (set_fsuid c (if u < 0 then None else Some (as_id u))) (\<lambda>(_, c'). Inr c')"

definition sys_setfsgid :: "int \<Rightarrow> credentials \<Rightarrow> credentials result" where
  "sys_setfsgid g c = rbind (set_fsgid c (if g < 0 then None else Some (as_id g))) (\<lambda>(_, c'). Inr c')"

definition NGROUPS_MAX :: nat where
  "NGROUPS_MAX = 65536"

text \<open>The group list is what user memory holds, \<open>None\<close> where it cannot be read.\<close>

fun read_groups :: "gid option list \<Rightarrow> gid set \<Rightarrow> gid set result" where
  "read_groups [] acc = Inr acc"
| "read_groups (None # gs) acc = Inl (Errno EFAULT)"
| "read_groups (Some g # gs) acc = read_groups gs (insert g acc)"

definition sys_setgroups :: "gid option list \<Rightarrow> credentials \<Rightarrow> credentials result" where
  "sys_setgroups gs c =
     (if length gs > NGROUPS_MAX then Inl (Errno EINVAL)
      else rbind (read_groups gs {}) (\<lambda>new_groups. Inr (c\<lparr>supplementary_gids := new_groups\<rparr>)))"

definition sys_set_keepcaps :: "nat \<Rightarrow> credentials \<Rightarrow> credentials result" where
  "sys_set_keepcaps k c = (if k > 1 then Inl (Errno EINVAL) else Inr (c\<lparr>keep_capabilities := (k \<noteq> 0)\<rparr>))"

definition make_kernel_cap :: "32 word \<Rightarrow> 32 word \<Rightarrow> cap_set" where
  "make_kernel_cap low high =
     (ucast low OR push_bit 32 (ucast high)) AND
       (push_bit (most_significant_bit + 1) 1 - 1)"

definition LINUX_CAPABILITY_VERSION_3 :: nat where
  "LINUX_CAPABILITY_VERSION_3 = 0x20080522"

text \<open>The header holds the version and a pid, the data the three low words: effective, permitted,
  inheritable.\<close>

definition sys_capset ::
  "nat \<Rightarrow> nat \<times> nat \<Rightarrow> 32 word \<times> 32 word \<times> 32 word \<Rightarrow> credentials \<Rightarrow> credentials result" where
  "sys_capset own_pid hdr dat c =
     (case hdr of (version, pid) \<Rightarrow>
      if version \<noteq> LINUX_CAPABILITY_VERSION_3 then Inl (Errno EINVAL)
      else if pid \<noteq> 0 \<and> pid \<noteq> own_pid then Inl (Errno EINVAL)
      else if \<not> cap_contains (permitted_capset c) CAP_SETPCAP then Inl (Errno EPERM)
      else case dat of (effective, permitted, inheritable) \<Rightarrow>
        Inr (c\<lparr>inheritable_capset := from_bits_truncate (make_kernel_cap inheritable 0),
               permitted_capset := from_bits_truncate (make_kernel_cap permitted 0),
               effective_capset := from_bits_truncate (make_kernel_cap effective 0)\<rparr>))"

text \<open>\<open>apply_caps_from_exec\<close>: the file is given by its setuid and setgid bits and its owner.\<close>

definition set_uid_from_elf :: "bool \<Rightarrow> uid \<Rightarrow> credentials \<Rightarrow> credentials" where
  "set_uid_from_elf has_set_uid file_uid c =
     (let c1 = (if has_set_uid then set_euid c file_uid else c) in set_suid c1 (euid c1))"

definition set_gid_from_elf :: "bool \<Rightarrow> gid \<Rightarrow> credentials \<Rightarrow> credentials" where
  "set_gid_from_elf has_set_gid file_gid c =
     (let c1 = (if has_set_gid then c\<lparr>egid := file_gid\<rparr> else c) in c1\<lparr>sgid := egid c1\<rparr>)"

definition apply_caps_from_exec :: "bool \<Rightarrow> uid \<Rightarrow> bool \<Rightarrow> gid \<Rightarrow> credentials \<Rightarrow> credentials" where
  "apply_caps_from_exec su u sg g c =
     (set_gid_from_elf sg g (set_uid_from_elf su u c))\<lparr>keep_capabilities := False\<rparr>"

text \<open>One call of a thread; a refused call changes nothing.\<close>

datatype cred_call =
    Setuid int | Setreuid int int | Setresuid int int int | Setfsuid int
  | Setgid int | Setregid int int | Setresgid int int int | Setfsgid int
  | Setgroups "gid option list" | Set_keepcaps nat
  | Capset nat "nat \<times> nat" "32 word \<times> 32 word \<times> 32 word"

fun cred_syscall :: "cred_call \<Rightarrow> credentials \<Rightarrow> credentials result" where
  "cred_syscall (Setuid u) c = sys_setuid u c"
| "cred_syscall (Setreuid r e) c = sys_setreuid r e c"
| "cred_syscall (Setresuid r e s) c = sys_setresuid r e s c"
| "cred_syscall (Setfsuid u) c = sys_setfsuid u c"
| "cred_syscall (Setgid g) c = sys_setgid g c"
| "cred_syscall (Setregid r e) c = sys_setregid r e c"
| "cred_syscall (Setresgid r e s) c = sys_setresgid r e s c"
| "cred_syscall (Setfsgid g) c = sys_setfsgid g c"
| "cred_syscall (Setgroups gs) c = sys_setgroups gs c"
| "cred_syscall (Set_keepcaps k) c = sys_set_keepcaps k c"
| "cred_syscall (Capset pid hdr dat) c = sys_capset pid hdr dat c"

definition cred_step :: "cred_call \<Rightarrow> credentials \<Rightarrow> credentials" where
  "cred_step call c = (case cred_syscall call c of Inr c' \<Rightarrow> c' | Inl _ \<Rightarrow> c)"

section \<open>Sets of capabilities\<close>

definition cap_sub :: "cap_set \<Rightarrow> cap_set \<Rightarrow> bool" where
  "cap_sub a b \<longleftrightarrow> a AND NOT b = 0"

lemma cap_sub_bits: "cap_sub a b \<longleftrightarrow> (\<forall>n<64. bit a n \<longrightarrow> bit b n)"
proof -
  have "cap_sub a b \<longleftrightarrow> (\<forall>n<64. \<not> bit (a AND NOT b) n)"
    unfolding cap_sub_def by (simp add: bit_eq_iff)
  then show ?thesis by (auto simp: bit_simps)
qed

lemma cap_sub_simps [simp]:
  "cap_sub 0 b" "cap_sub a a" "cap_sub (a AND b) b" "cap_sub a c \<Longrightarrow> cap_sub (cap_diff a b) c"
  by (auto simp: cap_sub_bits cap_diff_def bit_simps)

lemma cap_sub_trans: "cap_sub a b \<Longrightarrow> cap_sub b c \<Longrightarrow> cap_sub a c"
  by (auto simp: cap_sub_bits)

lemma cap_try_from_sub: "cap_try_from v = Some v \<longleftrightarrow> cap_sub v CAP_MASK"
  by (simp add: cap_try_from_def cap_sub_def)

section \<open>What the operations change\<close>

definition caps_ok :: "credentials \<Rightarrow> bool" where
  "caps_ok c \<longleftrightarrow> cap_sub (inheritable_capset c) CAP_MASK \<and> cap_sub (permitted_capset c) CAP_MASK \<and>
     cap_sub (effective_capset c) CAP_MASK"

definition eff_ok :: "credentials \<Rightarrow> bool" where
  "eff_ok c \<longleftrightarrow> cap_sub (effective_capset c) (permitted_capset c)"

definition uids :: "credentials \<Rightarrow> uid set" where
  "uids c = {ruid c, euid c, suid c}"

definition rootless :: "credentials \<Rightarrow> bool" where
  "rootless c \<longleftrightarrow> ROOT_UID \<notin> uids c"

text \<open>What a call of a thread without a root identity may do: it moves the identities around within
  the old ones and gives up effective capabilities.\<close>

definition no_gain :: "credentials \<Rightarrow> credentials \<Rightarrow> bool" where
  "no_gain c c' \<longleftrightarrow> uids c' \<subseteq> uids c \<and> permitted_capset c' = permitted_capset c \<and>
     inheritable_capset c' = inheritable_capset c \<and> cap_sub (effective_capset c') (effective_capset c)"

lemma no_gain_refl [simp]: "no_gain c c"
  by (simp add: no_gain_def)

lemma no_gain_trans: "no_gain c c' \<Longrightarrow> no_gain c' c'' \<Longrightarrow> no_gain c c''"
  by (auto simp: no_gain_def intro: cap_sub_trans)

lemma rootless_no_gain: "rootless c \<Longrightarrow> no_gain c c' \<Longrightarrow> rootless c'"
  by (auto simp: rootless_def no_gain_def)

named_theorems cred_simps \<open>unfolding of the credential operations\<close>

lemmas [cred_simps] = is_root_def rootless_def uids_def or_old_def Let_def

lemma resuid_rootless:
  assumes "rootless c" "or_old r (ruid c) \<in> uids c" "or_old e (euid c) \<in> uids c" "or_old s (suid c) \<in> uids c"
  shows "set_resuid_unchecked c r e s =
    c\<lparr>ruid := or_old r (ruid c), euid := or_old e (euid c), suid := or_old s (suid c)\<rparr>"
proof -
  have "\<not> is_root (ruid c)" "\<not> is_root (euid c)" "\<not> is_root (suid c)"
    "\<not> is_root (or_old e (euid c))"
    using assms(1,3) by (auto simp: rootless_def uids_def is_root_def)
  then show ?thesis by (simp add: set_resuid_unchecked_def Let_def)
qed

lemma fsuid_no_gain: "no_gain c (set_fsuid_unchecked c u)"
  by (simp add: set_fsuid_unchecked_def no_gain_def Let_def uids_def)

lemma resuid_no_gain:
  assumes "rootless c" "or_old r (ruid c) \<in> uids c" "or_old e (euid c) \<in> uids c" "or_old s (suid c) \<in> uids c"
  shows "no_gain c (set_resuid_unchecked c r e s)"
  using assms(2-) by (simp add: resuid_rootless [OF assms]) (auto simp: no_gain_def uids_def)

lemma rootless_unprivileged: "rootless c \<Longrightarrow> \<not> is_privileged c"
  by (auto simp: cred_simps is_privileged_def)

lemma check_uid_perm_members:
  assumes "check_uid_perm c r e s b = Inr x" "\<not> is_privileged c"
  shows "or_old r (ruid c) \<in> uids c" "or_old e (euid c) \<in> uids c" "or_old s (suid c) \<in> uids c"
  using assms by (auto simp: check_uid_perm_def uids_def or_old_def split: if_splits option.splits)

lemma set_uid_no_gain: "rootless c \<Longrightarrow> no_gain c (set_uid c u)"
proof (cases "u \<in> uids c")
  case True
  assume rl: "rootless c"
  have "no_gain c (set_resuid_unchecked c None (Some u) None)"
    by (rule resuid_no_gain [OF rl]) (use True in \<open>auto simp: or_old_def uids_def\<close>)
  then show ?thesis
    using True rootless_unprivileged [OF rl] fsuid_no_gain no_gain_trans
    by (auto simp: set_uid_def uids_def)
next
  case False
  assume rl: "rootless c"
  then show ?thesis using False rootless_unprivileged [OF rl] by (simp add: set_uid_def uids_def)
qed

lemma set_resuid_no_gain:
  assumes "rootless c" "set_resuid c r e s = Inr c'"
  shows "no_gain c c'"
proof -
  have "check_uid_perm c r e s True = Inr ()" using assms(2) by (auto simp: set_resuid_def rust_simps)
  from resuid_no_gain [OF assms(1) check_uid_perm_members [OF this rootless_unprivileged [OF assms(1)]]]
  show ?thesis using assms(2) fsuid_no_gain no_gain_trans by (auto simp: set_resuid_def rust_simps Let_def)
qed

lemma set_reuid_no_gain:
  assumes "rootless c" "set_reuid c r e = Inr c'"
  shows "no_gain c c'"
proof -
  have perm: "check_uid_perm c r e None False = Inr ()" using assms(2) by (auto simp: set_reuid_def rust_simps)
  define c1 where "c1 = set_resuid_unchecked c r e None"
  have c1: "no_gain c c1" unfolding c1_def
    by (rule resuid_no_gain [OF assms(1) check_uid_perm_members [OF perm rootless_unprivileged [OF assms(1)]]])
  have "no_gain c1 (c1\<lparr>suid := euid c1\<rparr>)" by (auto simp: no_gain_def uids_def)
  with c1 have c2: "no_gain c (if b then c1\<lparr>suid := euid c1\<rparr> else c1)" for b
    using no_gain_trans by simp
  obtain b where "c' = set_fsuid_unchecked (if b then c1\<lparr>suid := euid c1\<rparr> else c1)
      (euid (if b then c1\<lparr>suid := euid c1\<rparr> else c1))"
    using assms(2) by (simp add: set_reuid_def perm Let_def flip: c1_def) blast
  then show ?thesis using no_gain_trans [OF c2 fsuid_no_gain] by simp
qed

lemma set_fsuid_no_gain: "rootless c \<Longrightarrow> set_fsuid c f = Inr (old, c') \<Longrightarrow> no_gain c c'"
  using fsuid_no_gain rootless_unprivileged
  by (auto simp: set_fsuid_def split: option.splits if_splits)

lemma no_gain_groups:
  "no_gain c (set_gid c g)" "set_regid c r e = Inr c' \<Longrightarrow> no_gain c c'"
  "set_resgid c r e s = Inr c' \<Longrightarrow> no_gain c c'" "set_fsgid c f = Inr (old, c') \<Longrightarrow> no_gain c c'"
  by (auto simp: set_gid_def set_regid_def set_resgid_def set_fsgid_def set_resgid_unchecked_def
      no_gain_def uids_def rust_simps Let_def split: option.splits if_splits)

lemma cred_syscall_no_gain:
  assumes "rootless c" "\<not> cap_contains (permitted_capset c) CAP_SETPCAP" "cred_syscall call c = Inr c'"
  shows "no_gain c c'"
proof (cases call)
  case (Setgroups gs)
  then show ?thesis using assms(3)
    by (auto simp: sys_setgroups_def no_gain_def uids_def rust_simps split: if_splits)
next
  case (Set_keepcaps k)
  then show ?thesis using assms(3)
    by (auto simp: sys_set_keepcaps_def no_gain_def uids_def split: if_splits)
next
  case (Capset pid hdr dat)
  then show ?thesis using assms(2,3)
    by (auto simp: sys_capset_def split: prod.splits if_splits)
qed (use assms in \<open>auto simp: sys_setuid_def sys_setreuid_def sys_setresuid_def sys_setfsuid_def
    sys_setgid_def sys_setregid_def sys_setresgid_def sys_setfsgid_def rust_simps
    intro: set_uid_no_gain set_reuid_no_gain set_resuid_no_gain set_fsuid_no_gain no_gain_groups
    split: if_splits\<close>)

lemma cred_step_no_gain:
  "rootless c \<Longrightarrow> \<not> cap_contains (permitted_capset c) CAP_SETPCAP \<Longrightarrow> no_gain c (cred_step call c)"
  using cred_syscall_no_gain by (auto simp: cred_step_def split: sum.splits)

lemma cred_steps_no_gain:
  assumes "rootless c" "\<not> cap_contains (permitted_capset c) CAP_SETPCAP"
  shows "no_gain c (fold cred_step calls c)"
  using assms
proof (induction calls arbitrary: c)
  case (Cons call calls)
  then have step: "no_gain c (cred_step call c)" by (simp add: cred_step_no_gain)
  then have "permitted_capset (cred_step call c) = permitted_capset c" by (simp add: no_gain_def)
  with step Cons.IH [of "cred_step call c"] Cons.prems rootless_no_gain
  show ?case using no_gain_trans by auto
qed simp

lemma resuid_caps:
  "caps_ok c \<Longrightarrow> caps_ok (set_resuid_unchecked c r e s)"
  "eff_ok c \<Longrightarrow> eff_ok (set_resuid_unchecked c r e s)"
  by (simp_all add: set_resuid_unchecked_def caps_ok_def eff_ok_def Let_def)

lemma fsuid_caps:
  "caps_ok c \<Longrightarrow> caps_ok (set_fsuid_unchecked c u)" "eff_ok c \<Longrightarrow> eff_ok (set_fsuid_unchecked c u)"
  by (simp_all add: set_fsuid_unchecked_def caps_ok_def eff_ok_def Let_def)

lemma caps_frame [simp]:
  "caps_ok (c\<lparr>suid := u\<rparr>) = caps_ok c" "eff_ok (c\<lparr>suid := u\<rparr>) = eff_ok c"
  "caps_ok (c\<lparr>fsuid := u\<rparr>) = caps_ok c" "eff_ok (c\<lparr>fsuid := u\<rparr>) = eff_ok c"
  by (simp_all add: caps_ok_def eff_ok_def)

lemma set_uid_caps:
  "caps_ok c \<Longrightarrow> caps_ok (set_uid c u)" "eff_ok c \<Longrightarrow> eff_ok (set_uid c u)"
  by (simp_all add: set_uid_def resuid_caps fsuid_caps)

lemma set_reuid_caps:
  "set_reuid c r e = Inr c' \<Longrightarrow> caps_ok c \<Longrightarrow> caps_ok c'"
  "set_reuid c r e = Inr c' \<Longrightarrow> eff_ok c \<Longrightarrow> eff_ok c'"
  by (auto simp: set_reuid_def rust_simps Let_def resuid_caps fsuid_caps split: if_splits)

lemma set_resuid_caps:
  "set_resuid c r e s = Inr c' \<Longrightarrow> caps_ok c \<Longrightarrow> caps_ok c'"
  "set_resuid c r e s = Inr c' \<Longrightarrow> eff_ok c \<Longrightarrow> eff_ok c'"
  by (auto simp: set_resuid_def rust_simps Let_def resuid_caps fsuid_caps)

lemma set_fsuid_caps:
  "set_fsuid c f = Inr (old, c') \<Longrightarrow> caps_ok c \<Longrightarrow> caps_ok c'"
  "set_fsuid c f = Inr (old, c') \<Longrightarrow> eff_ok c \<Longrightarrow> eff_ok c'"
  by (auto simp: set_fsuid_def fsuid_caps split: option.splits if_splits)

lemma no_gain_caps_groups:
  assumes "effective_capset c' = effective_capset c" "permitted_capset c' = permitted_capset c"
    "inheritable_capset c' = inheritable_capset c"
  shows "caps_ok c' = caps_ok c" "eff_ok c' = eff_ok c"
  using assms by (simp_all add: caps_ok_def eff_ok_def)

lemma groups_caps:
  "caps_ok (set_gid c g) = caps_ok c" "eff_ok (set_gid c g) = eff_ok c"
  "set_regid c r e = Inr c' \<Longrightarrow> caps_ok c' = caps_ok c" "set_regid c r e = Inr c' \<Longrightarrow> eff_ok c' = eff_ok c"
  "set_resgid c r e s = Inr c' \<Longrightarrow> caps_ok c' = caps_ok c" "set_resgid c r e s = Inr c' \<Longrightarrow> eff_ok c' = eff_ok c"
  "set_fsgid c f = Inr (old, c') \<Longrightarrow> caps_ok c' = caps_ok c"
  "set_fsgid c f = Inr (old, c') \<Longrightarrow> eff_ok c' = eff_ok c"
  by (auto simp: set_gid_def set_regid_def set_resgid_def set_fsgid_def set_resgid_unchecked_def
      caps_ok_def eff_ok_def rust_simps Let_def split: option.splits if_splits)

lemmas sys_defs = sys_setuid_def sys_setreuid_def sys_setresuid_def sys_setfsuid_def
  sys_setgid_def sys_setregid_def sys_setresgid_def sys_setfsgid_def

lemma cred_syscall_caps_ok: "cred_syscall call c = Inr c' \<Longrightarrow> caps_ok c \<Longrightarrow> caps_ok c'"
proof (cases call)
  case (Setgroups gs)
  assume "cred_syscall call c = Inr c'" "caps_ok c"
  then show ?thesis using Setgroups
    by (auto simp: sys_setgroups_def caps_ok_def rust_simps split: if_splits)
next
  case (Set_keepcaps k)
  assume "cred_syscall call c = Inr c'" "caps_ok c"
  then show ?thesis using Set_keepcaps
    by (auto simp: sys_set_keepcaps_def caps_ok_def split: if_splits)
next
  case (Capset pid hdr dat)
  assume "cred_syscall call c = Inr c'" "caps_ok c"
  then show ?thesis using Capset
    by (auto simp: sys_capset_def caps_ok_def from_bits_truncate_def split: prod.splits if_splits)
qed (auto simp: sys_defs rust_simps groups_caps set_uid_caps
    dest: set_reuid_caps set_resuid_caps set_fsuid_caps split: if_splits)

lemma cred_syscall_eff_ok:
  "cred_syscall call c = Inr c' \<Longrightarrow> (\<nexists>pid hdr dat. call = Capset pid hdr dat) \<Longrightarrow> eff_ok c \<Longrightarrow> eff_ok c'"
proof (cases call)
  case (Setgroups gs)
  assume "cred_syscall call c = Inr c'" "eff_ok c"
  then show ?thesis using Setgroups
    by (auto simp: sys_setgroups_def eff_ok_def rust_simps split: if_splits)
next
  case (Set_keepcaps k)
  assume "cred_syscall call c = Inr c'" "eff_ok c"
  then show ?thesis using Set_keepcaps
    by (auto simp: sys_set_keepcaps_def eff_ok_def split: if_splits)
qed (auto simp: sys_defs rust_simps groups_caps set_uid_caps
    dest: set_reuid_caps set_resuid_caps set_fsuid_caps split: if_splits)

lemma cred_steps_caps_ok: "caps_ok c \<Longrightarrow> caps_ok (fold cred_step calls c)"
proof (induction calls arbitrary: c)
  case (Cons call calls)
  then have "caps_ok (cred_step call c)"
    using cred_syscall_caps_ok by (auto simp: cred_step_def split: sum.splits)
  with Cons.IH show ?case by simp
qed simp

lemma cred_steps_eff_ok:
  "eff_ok c \<Longrightarrow> list_all (\<lambda>call. case call of Capset _ _ _ \<Rightarrow> False | _ \<Rightarrow> True) calls \<Longrightarrow>
    eff_ok (fold cred_step calls c)"
proof (induction calls arbitrary: c)
  case (Cons call calls)
  then have "\<nexists>pid hdr dat. call = Capset pid hdr dat" by auto
  then have "eff_ok (cred_step call c)"
    using Cons.prems(1) cred_syscall_eff_ok by (auto simp: cred_step_def split: sum.splits)
  with Cons show ?case by simp
qed simp

lemma as_id_nonroot:
  assumes "0 < u" "u < 2 ^ 31"
  shows "as_id u \<noteq> ROOT_UID"
proof
  assume "as_id u = ROOT_UID"
  then have "uint (word_of_int u :: 32 word) = 0" by (simp add: as_id_def ROOT_UID_def)
  then show False using assms by (simp add: uint_word_of_int)
qed

section \<open>Properties\<close>

definition user_cred :: "uid \<Rightarrow> cap_set \<Rightarrow> credentials" where
  "user_cred u cs = cred_new u 100 cs"



text \<open>C23. The capability sets are well formed. From credentials whose three sets hold only defined
  capabilities, every sequence of credential calls leads to such credentials, so that the
  conversion of a stored set back to \<open>CapSet\<close> never fails; and as long as \<open>capset\<close> is not among the
  calls, the effective set stays within the permitted set.\<close>

theorem capability_sets_well_formed:
  assumes "cap_try_from (inheritable_capset c) = Some (inheritable_capset c)"
    "cap_try_from (permitted_capset c) = Some (permitted_capset c)"
    "cap_try_from (effective_capset c) = Some (effective_capset c)"
  shows "let c' = fold cred_step calls c in
    cap_try_from (inheritable_capset c') = Some (inheritable_capset c') \<and>
    cap_try_from (permitted_capset c') = Some (permitted_capset c') \<and>
    cap_try_from (effective_capset c') = Some (effective_capset c') \<and>
    (effective_capset c AND NOT (permitted_capset c) = 0 \<and>
     list_all (\<lambda>call. case call of Capset _ _ _ \<Rightarrow> False | _ \<Rightarrow> True) calls \<longrightarrow>
     effective_capset c' AND NOT (permitted_capset c') = 0)"
proof -
  have "caps_ok c" using assms by (simp add: caps_ok_def cap_try_from_sub)
  then have "caps_ok (fold cred_step calls c)" by (rule cred_steps_caps_ok)
  then show ?thesis
    using cred_steps_eff_ok [of c calls] unfolding Let_def caps_ok_def cap_try_from_sub eff_ok_def cap_sub_def
    by blast
qed

theorem capability_sets_well_formed_witness:
  "cap_try_from (permitted_capset (user_cred 0 CAP_MASK)) = Some CAP_MASK \<and>
   (let c' = fold cred_step [Setuid 5, Setfsuid 0] (user_cred 0 CAP_MASK) in
     effective_capset c' AND NOT (permitted_capset c') = 0)"
proof -
  have ok: "cap_try_from CAP_MASK = Some CAP_MASK" by (simp add: cap_try_from_def)
  have "inheritable_capset (user_cred 0 CAP_MASK) = CAP_MASK" "permitted_capset (user_cred 0 CAP_MASK) = CAP_MASK"
    "effective_capset (user_cred 0 CAP_MASK) = CAP_MASK" by (simp_all add: user_cred_def cred_new_def)
  with ok show ?thesis
    using capability_sets_well_formed [of "user_cred 0 CAP_MASK" "[Setuid 5, Setfsuid 0]"]
    unfolding Let_def by simp
qed

text \<open>Dropping root with \<open>setuid\<close> or \<open>setresuid\<close>. When a privileged thread sets all its user ids to a
  non-root user, all four ids are that user and the effective set is empty; the permitted and
  inheritable sets are empty too, unless the thread asked to keep its capabilities. An unprivileged
  \<open>setuid\<close> to a user that is none of its three ids changes nothing.\<close>

theorem drop_root_exact:
  assumes "0 < u" "u < 2 ^ 31"
  shows "(if is_privileged c then
      \<exists>c'. sys_setuid u c = Inr c' \<and> sys_setresuid u u u c = Inr c' \<and>
        ruid c' = as_id u \<and> euid c' = as_id u \<and> suid c' = as_id u \<and> fsuid c' = as_id u \<and>
        effective_capset c' = 0 \<and>
        permitted_capset c' = (if keep_capabilities c then permitted_capset c else 0) \<and>
        inheritable_capset c' = (if keep_capabilities c then inheritable_capset c else 0)
    else if as_id u \<notin> {ruid c, euid c, suid c} then
      sys_setuid u c = Inr c \<and> sys_setresuid u u u c = Inl (Errno EPERM)
    else True)"
proof -
  have nz: "as_id u \<noteq> ROOT_UID" using assms by (simp add: as_id_nonroot)
  show ?thesis
    using assms nz
    by (auto simp: sys_setuid_def sys_setresuid_def set_uid_def set_resuid_def check_uid_perm_def
        positive_id_def is_privileged_def set_resuid_unchecked_def set_fsuid_unchecked_def or_old_def
        is_root_def cap_diff_def Let_def)
qed

theorem drop_root_exact_witness:
  "is_privileged (user_cred 0 CAP_MASK) \<and>
   (\<exists>c'. sys_setuid 5 (user_cred 0 CAP_MASK) = Inr c' \<and> euid c' = as_id 5 \<and> permitted_capset c' = 0)"
proof -
  have "is_privileged (user_cred 0 CAP_MASK)" "\<not> keep_capabilities (user_cred 0 CAP_MASK)"
    by (simp_all add: is_privileged_def is_root_def ROOT_UID_def user_cred_def cred_new_def)
  then show ?thesis using drop_root_exact [of 5 "user_cred 0 CAP_MASK"] by auto
qed

text \<open>C34. Dropping root with \<open>setreuid\<close> keeps the permitted capabilities. \<open>set_reuid\<close> decides on the
  capabilities before it moves the saved user id, so a root thread that gives up all its root ids
  by \<open>setreuid(u, u)\<close> ends with no root id and an empty effective set, but with all its permitted and
  inheritable capabilities, even if it did not ask to keep them.\<close>

theorem setreuid_keeps_permitted:
  assumes "0 < u" "u < 2 ^ 31" "euid c = ROOT_UID" "suid c = ROOT_UID"
  shows "\<exists>c'. sys_setreuid u u c = Inr c' \<and> ROOT_UID \<notin> {ruid c', euid c', suid c', fsuid c'} \<and>
    permitted_capset c' = permitted_capset c \<and> inheritable_capset c' = inheritable_capset c"
proof -
  have nz: "as_id u \<noteq> ROOT_UID" using assms by (simp add: as_id_nonroot)
  show ?thesis
    using assms nz
    by (auto simp: sys_setreuid_def set_reuid_def check_uid_perm_def positive_id_def is_privileged_def
        set_resuid_unchecked_def set_fsuid_unchecked_def or_old_def is_root_def Let_def)
qed

theorem setreuid_keeps_permitted_witness:
  "\<exists>c'. sys_setreuid 5 5 (user_cred 0 CAP_MASK) = Inr c' \<and> ROOT_UID \<notin> {ruid c', euid c', suid c', fsuid c'} \<and>
    permitted_capset c' = CAP_MASK"
  using setreuid_keeps_permitted [of 5 "user_cred 0 CAP_MASK"]
  by (auto simp: user_cred_def cred_new_def ROOT_UID_def)

text \<open>C35. Three gaps of the calls. User id 0 is taken for "unchanged" by \<open>setresuid\<close>, so a thread cannot
  return to root by it and is told that it did; an unprivileged thread can set its effective group
  and its file-system group to any group by \<open>setgid\<close>; and a thread with the capability to set
  capabilities can give itself permitted capabilities it did not have.\<close>

theorem credential_call_gaps:
  "sys_setresuid 0 0 0 c = Inr (set_fsuid_unchecked c (euid c)) \<and>
   (0 \<le> g \<longrightarrow> (\<exists>c'. sys_setgid g c = Inr c' \<and> egid c' = as_id g \<and> fsgid c' = as_id g)) \<and>
   (cap_contains (permitted_capset c) CAP_SETPCAP \<longrightarrow>
     (\<exists>c'. sys_capset pid (LINUX_CAPABILITY_VERSION_3, 0) (w, w, w) c = Inr c' \<and>
        permitted_capset c' = make_kernel_cap w 0))"
proof -
  have "set_resuid_unchecked c None None None = c"
    by (cases c) (auto simp: set_resuid_unchecked_def or_old_def Let_def)
  then have "sys_setresuid 0 0 0 c = Inr (set_fsuid_unchecked c (euid c))"
    by (simp add: sys_setresuid_def set_resuid_def positive_id_def check_uid_perm_def Let_def)
  moreover have "from_bits_truncate (make_kernel_cap w 0) = make_kernel_cap w 0"
    by (simp add: from_bits_truncate_def make_kernel_cap_def CAP_MASK_def and.assoc)
  ultimately show ?thesis by (simp add: sys_setgid_def set_gid_def sys_capset_def)
qed

theorem credential_call_gaps_witness:
  "cap_contains (permitted_capset (user_cred 7 CAP_SETPCAP)) CAP_SETPCAP \<and>
   (\<exists>c'. sys_setgid 0 (user_cred 7 0) = Inr c' \<and> egid c' = as_id 0) \<and>
   (\<exists>c'. sys_capset 1 (LINUX_CAPABILITY_VERSION_3, 0) (255, 255, 255) (user_cred 7 CAP_SETPCAP) = Inr c' \<and>
      permitted_capset c' = make_kernel_cap 255 0)"
proof -
  have "cap_contains (permitted_capset (user_cred 7 CAP_SETPCAP)) CAP_SETPCAP"
    by (simp add: user_cred_def cred_new_def cap_contains_def)
  then show ?thesis
    using credential_call_gaps [of "user_cred 7 0" 0]
      credential_call_gaps [of "user_cred 7 CAP_SETPCAP" 0 1 255] by auto
qed

end
