(* ===== verification/Signals.thy ===== *)
theory Signals
  imports Prelude
begin

text \<open>
  Signals, \<open>kernel/src/process/signal\<close>: signal numbers and sets (\<open>sig_num.rs\<close>, \<open>sig_mask.rs\<close>,
  \<open>constants.rs\<close>), actions and dispositions (\<open>sig_action.rs\<close>, \<open>sig_disposition.rs\<close>), the queues of
  pending signals (\<open>sig_queues.rs\<close>, \<open>pending.rs\<close>) and the change of the signal mask by
  \<open>rt_sigprocmask\<close>.

  A signal is its number and its information, which the queues only carry. The queues are
  specified by the list of pending signals of each number.
\<close>

section \<open>Signal numbers\<close>

definition MIN_STD_SIG_NUM :: nat where "MIN_STD_SIG_NUM = 1"
definition MAX_STD_SIG_NUM :: nat where "MAX_STD_SIG_NUM = 31"
definition MIN_RT_SIG_NUM :: nat where "MIN_RT_SIG_NUM = 32"
definition MAX_RT_SIG_NUM :: nat where "MAX_RT_SIG_NUM = 64"
definition COUNT_STD_SIGS :: nat where "COUNT_STD_SIGS = 31"
definition COUNT_RT_SIGS :: nat where "COUNT_RT_SIGS = 33"
definition COUNT_ALL_SIGS :: nat where "COUNT_ALL_SIGS = 64"

definition SIGKILL :: nat where "SIGKILL = 9"
definition SIGSTOP :: nat where "SIGSTOP = 19"

lemmas sig_consts = MIN_STD_SIG_NUM_def MAX_STD_SIG_NUM_def MIN_RT_SIG_NUM_def MAX_RT_SIG_NUM_def
  COUNT_STD_SIGS_def COUNT_RT_SIGS_def COUNT_ALL_SIGS_def SIGKILL_def SIGSTOP_def

definition signum_try_from :: "nat \<Rightarrow> nat result" where
  "signum_try_from n =
     (if MIN_STD_SIG_NUM \<le> n \<and> n \<le> MAX_RT_SIG_NUM then Inr n else Inl (Errno EINVAL))"

definition signum_from_u8 :: "nat \<Rightarrow> nat result" where
  "signum_from_u8 n = (if n > MAX_RT_SIG_NUM \<or> n < MIN_STD_SIG_NUM then Inl Panic else Inr n)"

definition is_std :: "nat \<Rightarrow> bool" where
  "is_std n \<longleftrightarrow> n \<le> MAX_STD_SIG_NUM"

definition is_real_time :: "nat \<Rightarrow> bool" where
  "is_real_time n \<longleftrightarrow> n \<ge> MIN_RT_SIG_NUM"

section \<open>Signal sets\<close>

type_synonym sig_set = "64 word"

definition sig_bit :: "nat \<Rightarrow> sig_set" where
  "sig_bit n = push_bit (n - MIN_STD_SIG_NUM) 1"

definition sig_add :: "sig_set \<Rightarrow> sig_set \<Rightarrow> sig_set" where
  "sig_add a b = a OR b"

definition sig_sub :: "sig_set \<Rightarrow> sig_set \<Rightarrow> sig_set" where
  "sig_sub a b = a AND NOT b"

definition sig_contains :: "sig_set \<Rightarrow> sig_set \<Rightarrow> bool" where
  "sig_contains s t \<longleftrightarrow> s AND t = t"

definition sig_intersects :: "sig_set \<Rightarrow> sig_set \<Rightarrow> bool" where
  "sig_intersects s t \<longleftrightarrow> s AND t \<noteq> 0"

section \<open>Actions and dispositions\<close>

datatype sig_default_action = Term | DIgn | Core | Stop | Cont

definition default_action :: "nat \<Rightarrow> sig_default_action" where
  "default_action n =
     (if n \<in> set [6, 7, 8, 4, 3, 11, 31, 5, 24, 25] then Core
      else if n \<in> set [17, 23, 28] then DIgn
      else if n = 18 then Cont
      else if n \<in> set [19, 20, 21, 22] then Stop
      else Term)"

datatype sig_action =
    Dfl
  | Ign
  | User (handler_addr: nat) (flags: "32 word") (restorer_addr: nat) (mask: sig_set)

record sigaction_t =
  handler_ptr :: nat
  c_flags :: "32 word"
  restorer_ptr :: nat
  c_mask :: sig_set

definition SA_ALL :: "32 word" where
  "SA_ALL = 1 OR 2 OR 4 OR 0x08000000 OR 0x10000000 OR 0x40000000 OR 0x80000000 OR 0x04000000"

definition SA_RESTORER :: "32 word" where
  "SA_RESTORER = 0x04000000"

definition SIG_DFL :: nat where "SIG_DFL = 0"
definition SIG_IGN :: nat where "SIG_IGN = 1"

definition sig_action_from :: "sigaction_t \<Rightarrow> sig_action" where
  "sig_action_from c =
     (if handler_ptr c = SIG_DFL then Dfl
      else if handler_ptr c = SIG_IGN then Ign
      else User (handler_ptr c) (c_flags c AND SA_ALL) (restorer_ptr c)
             (sig_sub (sig_sub (c_mask c) (sig_bit SIGSTOP)) (sig_bit SIGKILL)))"

definition as_c_type :: "sig_action \<Rightarrow> sigaction_t" where
  "as_c_type a =
     (case a of
        Dfl \<Rightarrow> \<lparr>handler_ptr = SIG_DFL, c_flags = 0, restorer_ptr = 0, c_mask = 0\<rparr>
      | Ign \<Rightarrow> \<lparr>handler_ptr = SIG_IGN, c_flags = 0, restorer_ptr = 0, c_mask = 0\<rparr>
      | User h f r m \<Rightarrow> \<lparr>handler_ptr = h, c_flags = f, restorer_ptr = r, c_mask = m\<rparr>)"

definition action_will_ignore :: "sig_action \<Rightarrow> nat \<Rightarrow> bool" where
  "action_will_ignore a n =
     (case a of Dfl \<Rightarrow> default_action n = DIgn | Ign \<Rightarrow> True | User _ _ _ _ \<Rightarrow> False)"

type_synonym sig_dispositions = "sig_action list"

definition disp_new :: sig_dispositions where
  "disp_new = replicate COUNT_ALL_SIGS Dfl"

definition num_to_idx :: "nat \<Rightarrow> nat" where
  "num_to_idx n = n - MIN_STD_SIG_NUM"

definition disp_get :: "sig_dispositions \<Rightarrow> nat \<Rightarrow> sig_action" where
  "disp_get d n = d ! num_to_idx n"

text \<open>The check is the one for x86-64, where a restorer is mandatory.\<close>

definition check_sigaction :: "sig_action \<Rightarrow> unit result" where
  "check_sigaction a =
     (case a of
        User h f r m \<Rightarrow>
          if f AND SA_RESTORER = SA_RESTORER \<and> r \<noteq> 0 then Inr () else Inl (Errno EINVAL)
      | _ \<Rightarrow> Inr ())"

definition disp_set :: "sig_dispositions \<Rightarrow> nat \<Rightarrow> sig_action \<Rightarrow> (sig_action \<times> sig_dispositions) result" where
  "disp_set d n a =
     rbind (check_sigaction a) (\<lambda>_. Inr (d ! num_to_idx n, d[num_to_idx n := a]))"

definition disp_set_default :: "sig_dispositions \<Rightarrow> nat \<Rightarrow> sig_dispositions" where
  "disp_set_default d n = d[num_to_idx n := Dfl]"

definition disp_inherit :: "sig_dispositions \<Rightarrow> sig_dispositions" where
  "disp_inherit d = map (\<lambda>a. case a of User _ _ _ _ \<Rightarrow> Dfl | _ \<Rightarrow> a) d"

definition will_ignore :: "sig_dispositions \<Rightarrow> nat \<Rightarrow> bool" where
  "will_ignore d n = action_will_ignore (disp_get d n) n"

section \<open>The mask of a thread\<close>

datatype mask_op = Block | Unblock | SetMask

definition mask_op_try_from :: "nat \<Rightarrow> mask_op result" where
  "mask_op_try_from how =
     (if how = 0 then Inr Block else if how = 1 then Inr Unblock else if how = 2 then Inr SetMask
      else Inl (Errno EINVAL))"

text \<open>\<open>new_set\<close> is the mask read from user memory: \<open>None\<close> for a null pointer.\<close>

definition do_rt_sigprocmask :: "mask_op \<Rightarrow> sig_set option \<Rightarrow> sig_set \<Rightarrow> sig_set" where
  "do_rt_sigprocmask op new_set old =
     (case new_set of
        None \<Rightarrow> old
      | Some read_mask \<Rightarrow>
          (case op of
             Block \<Rightarrow> sig_add old (sig_sub (sig_sub read_mask (sig_bit SIGKILL)) (sig_bit SIGSTOP))
           | Unblock \<Rightarrow> sig_sub old read_mask
           | SetMask \<Rightarrow> sig_sub (sig_sub read_mask (sig_bit SIGKILL)) (sig_bit SIGSTOP)))"

section \<open>Queues of pending signals\<close>

record 'i signal =
  num :: nat
  info :: 'i

record 'i queues =
  std_queues :: "'i signal option list"
  rt_queues :: "'i signal list list"

definition queues_new :: "'i queues" where
  "queues_new = \<lparr>std_queues = replicate COUNT_STD_SIGS None, rt_queues = replicate COUNT_RT_SIGS []\<rparr>"

definition std_idx :: "'i queues \<Rightarrow> nat \<Rightarrow> nat result" where
  "std_idx q n =
     rbind (rassert (is_std n)) (\<lambda>_. rbind (usub n MIN_STD_SIG_NUM) (\<lambda>i.
       if i < length (std_queues q) then Inr i else Inl Panic))"

definition rt_idx :: "'i queues \<Rightarrow> nat \<Rightarrow> nat result" where
  "rt_idx q n =
     rbind (rassert (is_real_time n)) (\<lambda>_. rbind (usub n MIN_RT_SIG_NUM) (\<lambda>i.
       if i < length (rt_queues q) then Inr i else Inl Panic))"

definition queues_enqueue :: "'i signal \<Rightarrow> 'i queues \<Rightarrow> (bool \<times> 'i queues) result" where
  "queues_enqueue s q =
     (if is_std (num s) then
        rbind (std_idx q (num s)) (\<lambda>i.
          if std_queues q ! i \<noteq> None then Inr (False, q)
          else Inr (True, q\<lparr>std_queues := (std_queues q)[i := Some s]\<rparr>))
      else
        rbind (rt_idx q (num s)) (\<lambda>i.
          Inr (True, q\<lparr>rt_queues := (rt_queues q)[i := rt_queues q ! i @ [s]]\<rparr>)))"

definition ORDERED_STD_SIGS :: "nat list" where
  "ORDERED_STD_SIGS =
     [9, 15, 19, 11, 4, 1, 18, 2, 3, 5, 6, 7, 8, 10, 12, 13, 14, 16, 17, 20, 21, 22, 23, 24, 25,
      26, 27, 28, 29, 30, 31]"

fun dequeue_std :: "sig_set \<Rightarrow> nat list \<Rightarrow> 'i queues \<Rightarrow> ('i signal option \<times> 'i queues) result" where
  "dequeue_std blocked [] q = Inr (None, q)"
| "dequeue_std blocked (n # ns) q =
     (if sig_contains blocked (sig_bit n) then dequeue_std blocked ns q
      else rbind (std_idx q n) (\<lambda>i.
        case std_queues q ! i of
          Some s \<Rightarrow> Inr (Some s, q\<lparr>std_queues := (std_queues q)[i := None]\<rparr>)
        | None \<Rightarrow> dequeue_std blocked ns q))"

fun dequeue_rt :: "sig_set \<Rightarrow> nat list \<Rightarrow> 'i queues \<Rightarrow> ('i signal option \<times> 'i queues) result" where
  "dequeue_rt blocked [] q = Inr (None, q)"
| "dequeue_rt blocked (n # ns) q =
     (if sig_contains blocked (sig_bit n) then dequeue_rt blocked ns q
      else rbind (rt_idx q n) (\<lambda>i.
        case rt_queues q ! i of
          s # rest \<Rightarrow> Inr (Some s, q\<lparr>rt_queues := (rt_queues q)[i := rest]\<rparr>)
        | [] \<Rightarrow> dequeue_rt blocked ns q))"

definition queues_dequeue :: "sig_set \<Rightarrow> 'i queues \<Rightarrow> ('i signal option \<times> 'i queues) result" where
  "queues_dequeue blocked q =
     rbind (dequeue_std blocked ORDERED_STD_SIGS q) (\<lambda>(s, q1).
       case s of
         Some _ \<Rightarrow> Inr (s, q1)
       | None \<Rightarrow> dequeue_rt blocked [MIN_RT_SIG_NUM..<MAX_RT_SIG_NUM + 1] q1)"

text \<open>The two \<open>any\<close> loops of \<open>has_pending\<close>: the number of signals dropped, the answer, the queues.\<close>

fun any_std :: "sig_set \<Rightarrow> sig_dispositions \<Rightarrow> 'i signal option list \<Rightarrow> nat \<times> bool \<times> 'i signal option list" where
  "any_std blocked d [] = (0, False, [])"
| "any_std blocked d (None # qs) = (case any_std blocked d qs of (k, r, qs') \<Rightarrow> (k, r, None # qs'))"
| "any_std blocked d (Some s # qs) =
     (if sig_contains blocked (sig_bit (num s))
      then (case any_std blocked d qs of (k, r, qs') \<Rightarrow> (k, r, Some s # qs'))
      else if will_ignore d (num s)
      then (case any_std blocked d qs of (k, r, qs') \<Rightarrow> (k + 1, r, None # qs'))
      else (0, True, Some s # qs))"

fun any_rt :: "sig_set \<Rightarrow> sig_dispositions \<Rightarrow> 'i signal list list \<Rightarrow> nat \<times> bool \<times> 'i signal list list" where
  "any_rt blocked d [] = (0, False, [])"
| "any_rt blocked d ([] # qs) = (case any_rt blocked d qs of (k, r, qs') \<Rightarrow> (k, r, [] # qs'))"
| "any_rt blocked d ((s # ss) # qs) =
     (if sig_contains blocked (sig_bit (num s))
      then (case any_rt blocked d qs of (k, r, qs') \<Rightarrow> (k, r, (s # ss) # qs'))
      else if will_ignore d (num s)
      then (case any_rt blocked d qs of (k, r, qs') \<Rightarrow> (k + length (s # ss), r, [] # qs'))
      else (0, True, (s # ss) # qs))"

definition queues_has_pending :: "sig_set \<Rightarrow> sig_dispositions \<Rightarrow> 'i queues \<Rightarrow> nat \<times> bool \<times> 'i queues" where
  "queues_has_pending blocked d q =
     (case any_std blocked d (std_queues q) of (k, r, std) \<Rightarrow>
        if r then (k, True, q\<lparr>std_queues := std\<rparr>)
        else case any_rt blocked d (rt_queues q) of (k', r', rt) \<Rightarrow>
          (k + k', r', q\<lparr>std_queues := std, rt_queues := rt\<rparr>))"

definition queues_has_pending_signal :: "nat \<Rightarrow> 'i queues \<Rightarrow> bool result" where
  "queues_has_pending_signal n q =
     (if is_std n then rbind (std_idx q n) (\<lambda>i. Inr (std_queues q ! i \<noteq> None))
      else if is_real_time n then rbind (rt_idx q n) (\<lambda>i. Inr (rt_queues q ! i \<noteq> []))
      else Inr False)"

definition queues_sig_pending :: "'i queues \<Rightarrow> sig_set result" where
  "queues_sig_pending q =
     rbind (rfold (\<lambda>(idx, s) p. if s \<noteq> None
         then rbind (signum_from_u8 (idx + MIN_STD_SIG_NUM)) (\<lambda>n. Inr (sig_add p (sig_bit n))) else Inr p)
       (enumerate 0 (std_queues q)) 0) (\<lambda>p.
     rfold (\<lambda>(idx, ss) p. if ss \<noteq> []
         then rbind (signum_from_u8 (idx + MIN_RT_SIG_NUM)) (\<lambda>n. Inr (sig_add p (sig_bit n))) else Inr p)
       (enumerate 0 (rt_queues q)) p)"

record 'i sig_queues =
  sig_count :: nat
  sq :: "'i queues"

definition sigq_new :: "'i sig_queues" where
  "sigq_new = \<lparr>sig_count = 0, sq = queues_new\<rparr>"

definition sigq_is_empty :: "'i sig_queues \<Rightarrow> bool" where
  "sigq_is_empty Q \<longleftrightarrow> sig_count Q = 0"

text \<open>The result tells whether the poll handle of \<open>signalfd\<close> is notified. The counter is an atomic, whose
  additions and subtractions wrap; they are written with the check.\<close>

definition sigq_enqueue :: "'i signal \<Rightarrow> 'i sig_queues \<Rightarrow> (bool \<times> 'i sig_queues) result" where
  "sigq_enqueue s Q =
     rbind (queues_enqueue s (sq Q)) (\<lambda>(added, q).
       if added then rbind (uadd (sig_count Q) 1) (\<lambda>c. Inr (True, \<lparr>sig_count = c, sq = q\<rparr>))
       else Inr (False, Q\<lparr>sq := q\<rparr>))"

definition sigq_dequeue :: "sig_set \<Rightarrow> 'i sig_queues \<Rightarrow> ('i signal option \<times> 'i sig_queues) result" where
  "sigq_dequeue blocked Q =
     (if sigq_is_empty Q then Inr (None, Q)
      else rbind (queues_dequeue blocked (sq Q)) (\<lambda>(s, q).
        if s \<noteq> None then rbind (usub (sig_count Q) 1) (\<lambda>c. Inr (s, \<lparr>sig_count = c, sq = q\<rparr>))
        else Inr (s, Q\<lparr>sq := q\<rparr>)))"

definition sigq_has_pending :: "sig_set \<Rightarrow> sig_dispositions \<Rightarrow> 'i sig_queues \<Rightarrow> (bool \<times> 'i sig_queues) result" where
  "sigq_has_pending blocked d Q =
     (case queues_has_pending blocked d (sq Q) of (k, r, q) \<Rightarrow>
        rbind (usub (sig_count Q) k) (\<lambda>c. Inr (r, \<lparr>sig_count = c, sq = q\<rparr>)))"

text \<open>\<open>dequeue_signal\<close> of \<open>pending.rs\<close>: the queues of the thread first, then those of the process.\<close>

definition dequeue_signal ::
  "sig_set \<Rightarrow> 'i sig_queues \<Rightarrow> 'i sig_queues \<Rightarrow> ('i signal option \<times> 'i sig_queues \<times> 'i sig_queues) result" where
  "dequeue_signal m T P =
     rbind (sigq_dequeue m T) (\<lambda>(s, T').
       case s of
         Some _ \<Rightarrow> Inr (s, T', P)
       | None \<Rightarrow> rbind (sigq_dequeue m P) (\<lambda>(s', P'). Inr (s', T', P')))"

section \<open>The pending signals of each number\<close>

fun opt_list :: "'a option \<Rightarrow> 'a list" where
  "opt_list None = []"
| "opt_list (Some x) = [x]"

definition all_queues :: "'i queues \<Rightarrow> 'i signal list list" where
  "all_queues q = map opt_list (std_queues q) @ rt_queues q"

definition queue_of :: "'i queues \<Rightarrow> nat \<Rightarrow> 'i signal list" where
  "queue_of q n = (if 1 \<le> n \<and> n \<le> 64 then all_queues q ! (n - 1) else [])"

definition queues_ok :: "'i queues \<Rightarrow> bool" where
  "queues_ok q \<longleftrightarrow> length (std_queues q) = 31 \<and> length (rt_queues q) = 33 \<and>
     (\<forall>n. \<forall>s\<in>set (queue_of q n). num s = n)"

definition n_pending :: "'i queues \<Rightarrow> nat" where
  "n_pending q = sum_list (map length (all_queues q))"

lemma opt_list_eq [simp]: "opt_list v = [] \<longleftrightarrow> v = None" "hd (opt_list (Some s)) = s"
  by (cases v) auto

lemma all_queues_std:
  "all_queues (q\<lparr>std_queues := (std_queues q)[i := v]\<rparr>) = (all_queues q)[i := opt_list v]"
  if "i < length (std_queues q)"
  using that by (simp add: all_queues_def list_update_append map_update)

lemma all_queues_rt:
  "all_queues (q\<lparr>rt_queues := (rt_queues q)[i := v]\<rparr>) = (all_queues q)[length (std_queues q) + i := v]"
  by (simp add: all_queues_def list_update_append)

lemma length_all_queues: "queues_ok q \<Longrightarrow> length (all_queues q) = 64"
  by (simp add: all_queues_def queues_ok_def)

lemma queue_of_upd:
  assumes "all_queues q' = (all_queues q)[n - 1 := v]" "queues_ok q" "1 \<le> n" "n \<le> 64"
  shows "queue_of q' = (queue_of q)(n := v)"
  using assms length_all_queues [OF assms(2)] by (auto simp: queue_of_def fun_eq_iff nth_list_update)

lemma total_upd:
  assumes "all_queues q' = (all_queues q)[n - 1 := v]" "queues_ok q" "1 \<le> n" "n \<le> 64"
  shows "n_pending q' = n_pending q + length v - length (queue_of q n)"
  using assms length_all_queues [OF assms(2)]
  by (simp add: n_pending_def map_update sum_list_update queue_of_def)

lemma queue_of_length_le: "queues_ok q \<Longrightarrow> length (queue_of q n) \<le> n_pending q"
  using length_all_queues [of q] member_le_sum_list [of "length (queue_of q n)" "map length (all_queues q)"]
  by (auto simp: n_pending_def queue_of_def)

lemma std_idx_ok: "queues_ok q \<Longrightarrow> 1 \<le> n \<Longrightarrow> n \<le> 31 \<Longrightarrow> std_idx q n = Inr (n - 1)"
  by (simp add: std_idx_def queues_ok_def is_std_def sig_consts)

lemma rt_idx_ok: "queues_ok q \<Longrightarrow> 32 \<le> n \<Longrightarrow> n \<le> 64 \<Longrightarrow> rt_idx q n = Inr (n - 32)"
  by (auto simp: rt_idx_def queues_ok_def is_real_time_def sig_consts)

lemma queue_of_std: "queues_ok q \<Longrightarrow> 1 \<le> n \<Longrightarrow> n \<le> 31 \<Longrightarrow> queue_of q n = opt_list (std_queues q ! (n - 1))"
  by (auto simp: queue_of_def all_queues_def nth_append queues_ok_def)

lemma queue_of_rt: "queues_ok q \<Longrightarrow> 32 \<le> n \<Longrightarrow> n \<le> 64 \<Longrightarrow> queue_of q n = rt_queues q ! (n - 32)"
  by (auto simp: queue_of_def all_queues_def nth_append queues_ok_def)

text \<open>Replacing the queue of one number.\<close>

lemma set_std_queue:
  assumes ok: "queues_ok q" and n: "1 \<le> n" "n \<le> 31" and v: "\<forall>s\<in>set (opt_list v). num s = n"
  defines "q' \<equiv> q\<lparr>std_queues := (std_queues q)[n - 1 := v]\<rparr>"
  shows "queues_ok q' \<and> queue_of q' = (queue_of q)(n := opt_list v) \<and>
    n_pending q' = n_pending q + length (opt_list v) - length (queue_of q n)"
proof -
  have "n - 1 < length (std_queues q)" using ok n by (simp add: queues_ok_def)
  then have all: "all_queues q' = (all_queues q)[n - 1 := opt_list v]"
    unfolding q'_def by (rule all_queues_std)
  have "n \<le> 64" using n by simp
  note upd = queue_of_upd [OF all ok n(1) this] total_upd [OF all ok n(1) this]
  have "queues_ok q'" using ok v upd(1) by (auto simp: queues_ok_def q'_def)
  then show ?thesis using upd by simp
qed

lemma set_rt_queue:
  assumes ok: "queues_ok q" and n: "32 \<le> n" "n \<le> 64" and v: "\<forall>s\<in>set v. num s = n"
  defines "q' \<equiv> q\<lparr>rt_queues := (rt_queues q)[n - 32 := v]\<rparr>"
  shows "queues_ok q' \<and> queue_of q' = (queue_of q)(n := v) \<and>
    n_pending q' = n_pending q + length v - length (queue_of q n)"
proof -
  have "length (std_queues q) + (n - 32) = n - 1" using ok n by (simp add: queues_ok_def)
  then have all: "all_queues q' = (all_queues q)[n - 1 := v]"
    unfolding q'_def by (simp add: all_queues_rt)
  have "1 \<le> n" using n by simp
  note upd = queue_of_upd [OF all ok this n(2)] total_upd [OF all ok this n(2)]
  have "queues_ok q'" using ok v upd(1) by (auto simp: queues_ok_def q'_def)
  then show ?thesis using upd by simp
qed

section \<open>Sending and receiving\<close>

lemma queues_enqueue_ok:
  assumes ok: "queues_ok q" and n: "1 \<le> num s" "num s \<le> 64"
  shows "\<exists>q'. queues_enqueue s q = Inr (\<not> (num s \<le> 31 \<and> queue_of q (num s) \<noteq> []), q') \<and> queues_ok q' \<and>
    queue_of q' = (if num s \<le> 31 \<and> queue_of q (num s) \<noteq> [] then queue_of q
      else (queue_of q)(num s := queue_of q (num s) @ [s])) \<and>
    n_pending q' = n_pending q + (if num s \<le> 31 \<and> queue_of q (num s) \<noteq> [] then 0 else 1)"
proof (cases "num s \<le> 31")
  case std: True
  show ?thesis
  proof (cases "queue_of q (num s) = []")
    case True
    then have "std_queues q ! (num s - 1) = None" using queue_of_std [OF ok n(1) std] by simp
    with set_std_queue [OF ok n(1) std, of "Some s"] True std show ?thesis
      by (simp add: queues_enqueue_def is_std_def sig_consts std_idx_ok [OF ok n(1) std])
  next
    case False
    then show ?thesis using queue_of_std [OF ok n(1) std] std ok
      by (simp add: queues_enqueue_def is_std_def sig_consts std_idx_ok [OF ok n(1) std])
  qed
next
  case False
  then have rt: "32 \<le> num s" by simp
  have "\<forall>t\<in>set (rt_queues q ! (num s - 32) @ [s]). num t = num s"
    using ok queue_of_rt [OF ok rt n(2)] by (auto simp: queues_ok_def)
  from set_rt_queue [OF ok rt n(2) this] queue_of_rt [OF ok rt n(2)] show ?thesis
    using False by (simp add: queues_enqueue_def is_std_def sig_consts rt_idx_ok [OF ok rt n(2)])
qed

definition ready :: "sig_set \<Rightarrow> 'i queues \<Rightarrow> nat \<Rightarrow> bool" where
  "ready blocked q n \<longleftrightarrow> \<not> sig_contains blocked (sig_bit n) \<and> queue_of q n \<noteq> []"

text \<open>What \<open>dequeue\<close> does when \<open>n\<close> is the first ready number of its order.\<close>

definition takes :: "'i queues \<Rightarrow> nat option \<Rightarrow> 'i signal option \<times> 'i queues \<Rightarrow> bool" where
  "takes q n r \<longleftrightarrow> (case n of
      None \<Rightarrow> r = (None, q)
    | Some n \<Rightarrow> fst r = Some (hd (queue_of q n)) \<and> queues_ok (snd r) \<and>
        queue_of (snd r) = (queue_of q)(n := tl (queue_of q n)) \<and> n_pending (snd r) + 1 = n_pending q)"

lemma dequeue_std_ok:
  assumes ok: "queues_ok q" and ns: "set ns \<subseteq> {1..31}"
  shows "\<exists>r. dequeue_std blocked ns q = Inr r \<and> takes q (find (ready blocked q) ns) r"
  using ns
proof (induction ns)
  case Nil
  then show ?case by (simp add: takes_def)
next
  case (Cons n ns)
  then have n: "1 \<le> n" "n \<le> 31" by auto
  show ?case
  proof (cases "ready blocked q n")
    case True
    then obtain s where s: "std_queues q ! (n - 1) = Some s"
      using queue_of_std [OF ok n] by (auto simp: ready_def)
    then show ?thesis
      using True set_std_queue [OF ok n, of None] queue_of_std [OF ok n] queue_of_length_le [OF ok, of n]
      by (simp add: ready_def takes_def std_idx_ok [OF ok n])
  next
    case False
    then show ?thesis
      using Cons queue_of_std [OF ok n] by (auto simp: ready_def std_idx_ok [OF ok n])
  qed
qed

lemma dequeue_rt_ok:
  assumes ok: "queues_ok q" and ns: "set ns \<subseteq> {32..64}"
  shows "\<exists>r. dequeue_rt blocked ns q = Inr r \<and> takes q (find (ready blocked q) ns) r"
  using ns
proof (induction ns)
  case Nil
  then show ?case by (simp add: takes_def)
next
  case (Cons n ns)
  then have n: "32 \<le> n" "n \<le> 64" by auto
  show ?case
  proof (cases "ready blocked q n")
    case True
    then obtain s ss where s: "rt_queues q ! (n - 32) = s # ss"
      using queue_of_rt [OF ok n] by (auto simp: ready_def neq_Nil_conv)
    then have "\<forall>t\<in>set ss. num t = n" using ok queue_of_rt [OF ok n] by (auto simp: queues_ok_def)
    then show ?thesis
      using True s set_rt_queue [OF ok n, of ss] queue_of_rt [OF ok n] queue_of_length_le [OF ok, of n]
      by (simp add: ready_def takes_def rt_idx_ok [OF ok n])
  next
    case False
    then show ?thesis
      using Cons queue_of_rt [OF ok n] by (auto simp: ready_def rt_idx_ok [OF ok n])
  qed
qed

definition sig_order :: "nat list" where
  "sig_order = ORDERED_STD_SIGS @ [32..<65]"

lemma find_append: "find P (xs @ ys) = (case find P xs of None \<Rightarrow> find P ys | Some x \<Rightarrow> Some x)"
  by (induction xs) auto

lemma queues_dequeue_ok:
  assumes ok: "queues_ok q"
  shows "\<exists>r. queues_dequeue blocked q = Inr r \<and> takes q (find (ready blocked q) sig_order) r"
proof -
  have "set ORDERED_STD_SIGS \<subseteq> {1..31}" by (simp add: ORDERED_STD_SIGS_def)
  from dequeue_std_ok [OF ok this, of blocked] obtain r where
    r: "dequeue_std blocked ORDERED_STD_SIGS q = Inr r" "takes q (find (ready blocked q) ORDERED_STD_SIGS) r"
    by blast
  have "set [32..<65] \<subseteq> {32..64}" by (simp only: set_upt) auto
  from dequeue_rt_ok [OF ok this, of blocked] obtain r' where
    r': "dequeue_rt blocked [32..<65] q = Inr r'" "takes q (find (ready blocked q) [32..<65]) r'" by blast
  show ?thesis
  proof (cases "find (ready blocked q) ORDERED_STD_SIGS")
    case None
    then have "r = (None, q)" using r(2) by (simp add: takes_def)
    then show ?thesis using r(1) r' None
      by (simp add: queues_dequeue_def sig_consts sig_order_def find_append)
  next
    case (Some n)
    then have "fst r = Some (hd (queue_of q n))" using r(2) by (simp add: takes_def)
    then show ?thesis using r Some
      by (cases r) (simp add: queues_dequeue_def sig_order_def find_append)
  qed
qed

section \<open>Looking for a signal to handle\<close>

definition live :: "sig_set \<Rightarrow> sig_dispositions \<Rightarrow> nat \<Rightarrow> bool" where
  "live blocked d n \<longleftrightarrow> \<not> sig_contains blocked (sig_bit n) \<and> \<not> will_ignore d n"

definition dropped :: "sig_set \<Rightarrow> sig_dispositions \<Rightarrow> nat \<Rightarrow> bool" where
  "dropped blocked d n \<longleftrightarrow> \<not> sig_contains blocked (sig_bit n) \<and> will_ignore d n"

lemma any_std_rt:
  "any_std blocked d qs = (k, r, qs') \<Longrightarrow> any_rt blocked d (map opt_list qs) = (k, r, map opt_list qs')"
proof (induction qs arbitrary: k r qs')
  case (Cons x qs)
  obtain k1 r1 q1 where rec: "any_std blocked d qs = (k1, r1, q1)" by (metis prod_cases3)
  from Cons.IH [OF this] Cons.prems rec show ?case
    by (cases x) (auto split: if_splits)
qed simp

lemma any_rt_append:
  "any_rt blocked d (qs1 @ qs2) =
     (case any_rt blocked d qs1 of (k, r, qs1') \<Rightarrow>
        if r then (k, True, qs1' @ qs2)
        else case any_rt blocked d qs2 of (k', r', qs2') \<Rightarrow> (k + k', r', qs1' @ qs2'))"
proof (induction qs1)
  case (Cons x qs1)
  then show ?case by (cases x) (auto split: prod.splits if_splits)
qed (auto split: prod.splits)

lemma has_pending_all:
  assumes "queues_has_pending blocked d q = (k, r, q')"
  shows "any_rt blocked d (all_queues q) = (k, r, all_queues q') \<and>
    length (std_queues q') = length (std_queues q) \<and> length (rt_queues q') = length (rt_queues q)"
proof -
  have len_std: "length qs' = length qs" if "any_std blocked d qs = (k', r', qs')" for k' r' and qs qs' :: "'a signal option list"
    using that by (induction blocked d qs arbitrary: k' r' qs' rule: any_std.induct)
      (auto split: prod.splits if_splits)
  have len_rt: "length qs' = length qs" if "any_rt blocked d qs = (k', r', qs')" for k' r' and qs qs' :: "'a signal list list"
    using that by (induction blocked d qs arbitrary: k' r' qs' rule: any_rt.induct)
      (auto split: prod.splits if_splits)
  obtain k1 r1 std where s: "any_std blocked d (std_queues q) = (k1, r1, std)" by (metis prod_cases3)
  obtain k2 r2 rt where t: "any_rt blocked d (rt_queues q) = (k2, r2, rt)" by (metis prod_cases3)
  show ?thesis
    using assms any_std_rt [OF s] t len_std [OF s] len_rt [OF t]
    by (auto simp: queues_has_pending_def s all_queues_def any_rt_append split: if_splits)
qed

lemma any_rt_ok:
  assumes "any_rt blocked d qs = (k, r, qs')"
  shows "length qs' = length qs \<and> k + sum_list (map length qs') = sum_list (map length qs) \<and>
    (r \<longleftrightarrow> (\<exists>ss\<in>set qs. ss \<noteq> [] \<and> live blocked d (num (hd ss)))) \<and>
    (\<forall>i<length qs. qs' ! i = qs ! i \<or> qs' ! i = [] \<and> qs ! i \<noteq> [] \<and> dropped blocked d (num (hd (qs ! i)))) \<and>
    (\<not> r \<longrightarrow> (\<forall>i<length qs. qs' ! i \<noteq> [] \<longrightarrow> \<not> dropped blocked d (num (hd (qs ! i)))))"
  using assms
proof (induction qs arbitrary: k r qs')
  case (Cons ss qs)
  obtain k1 r1 q1 where rec: "any_rt blocked d qs = (k1, r1, q1)" by (metis prod_cases3)
  note IH = Cons.IH [OF rec]
  show ?case
  proof (cases ss)
    case Nil
    then have "k = k1" "r = r1" "qs' = [] # q1" using Cons.prems rec by auto
    then show ?thesis using IH Nil by (simp add: All_less_Suc2)
  next
    case (Cons s sss)
    consider (blocked) "sig_contains blocked (sig_bit (num s))" | (drop) "dropped blocked d (num s)"
      | (live) "live blocked d (num s)" by (auto simp: live_def dropped_def)
    then show ?thesis
    proof cases
      case blocked
      then have "k = k1" "r = r1" "qs' = ss # q1" using Cons.prems rec Cons by auto
      then show ?thesis using IH Cons blocked by (simp add: All_less_Suc2 live_def dropped_def)
    next
      case drop
      then have "k = k1 + length ss" "r = r1" "qs' = [] # q1"
        using Cons.prems rec Cons by (auto simp: dropped_def)
      then show ?thesis using IH Cons drop by (simp add: All_less_Suc2 live_def dropped_def)
    next
      case live
      then have "k = 0" "r = True" "qs' = ss # qs" using Cons.prems Cons by (auto simp: live_def)
      then show ?thesis using Cons live by auto
    qed
  qed
qed simp

lemma queues_has_pending_ok:
  assumes ok: "queues_ok q" and run: "queues_has_pending blocked d q = (k, r, q')"
  shows "queues_ok q' \<and> k + n_pending q' = n_pending q \<and>
    (r \<longleftrightarrow> (\<exists>n. queue_of q n \<noteq> [] \<and> live blocked d n)) \<and>
    (\<forall>n. queue_of q' n = queue_of q n \<or> queue_of q' n = [] \<and> dropped blocked d n) \<and>
    (\<not> r \<longrightarrow> (\<forall>n. dropped blocked d n \<longrightarrow> queue_of q' n = []))"
proof -
  have all: "any_rt blocked d (all_queues q) = (k, r, all_queues q')"
    and len: "length (std_queues q') = 31" "length (rt_queues q') = 33"
    using has_pending_all [OF run] ok by (auto simp: queues_ok_def)
  note A = any_rt_ok [OF all] and L = length_all_queues [OF ok]
  have hd_num: "num (hd (queue_of q n)) = n" if "queue_of q n \<noteq> []" for n
    using ok that by (auto simp: queues_ok_def)
  have keep: "queue_of q' n = queue_of q n \<or> queue_of q' n = [] \<and> dropped blocked d n" for n
  proof (cases "1 \<le> n \<and> n \<le> 64")
    case True
    then have "n - 1 < length (all_queues q)" using L by auto
    with A have "all_queues q' ! (n - 1) = all_queues q ! (n - 1) \<or> all_queues q' ! (n - 1) = [] \<and>
        all_queues q ! (n - 1) \<noteq> [] \<and> dropped blocked d (num (hd (all_queues q ! (n - 1))))" by blast
    then show ?thesis using True hd_num [of n] by (auto simp: queue_of_def)
  next
    case False
    then have "queue_of q' n = queue_of q n" unfolding queue_of_def by auto
    then show ?thesis by simp
  qed
  have "r \<longleftrightarrow> (\<exists>i<64. all_queues q ! i \<noteq> [] \<and> live blocked d (num (hd (all_queues q ! i))))"
    using A L by (metis in_set_conv_nth)
  also have "\<dots> \<longleftrightarrow> (\<exists>n. queue_of q n \<noteq> [] \<and> live blocked d n)"
  proof
    assume "\<exists>i<64. all_queues q ! i \<noteq> [] \<and> live blocked d (num (hd (all_queues q ! i)))"
    then obtain i where "i < 64" "all_queues q ! i \<noteq> []" "live blocked d (num (hd (all_queues q ! i)))" by blast
    then show "\<exists>n. queue_of q n \<noteq> [] \<and> live blocked d n"
      using hd_num [of "Suc i"] by (intro exI [of _ "Suc i"]) (simp add: queue_of_def)
  next
    assume "\<exists>n. queue_of q n \<noteq> [] \<and> live blocked d n"
    then obtain n where "queue_of q n \<noteq> []" "live blocked d n" by blast
    then show "\<exists>i<64. all_queues q ! i \<noteq> [] \<and> live blocked d (num (hd (all_queues q ! i)))"
      using hd_num [of n] by (intro exI [of _ "n - 1"]) (auto simp: queue_of_def split: if_splits)
  qed
  finally have r: "r \<longleftrightarrow> (\<exists>n. queue_of q n \<noteq> [] \<and> live blocked d n)" .
  have gone: "queue_of q' n = []" if "\<not> r" "dropped blocked d n" for n
  proof (rule ccontr)
    assume ne: "queue_of q' n \<noteq> []"
    then have n: "1 \<le> n" "n \<le> 64" and "all_queues q' ! (n - 1) \<noteq> []"
      by (auto simp: queue_of_def split: if_splits)
    moreover have "n - 1 < length (all_queues q)" using n L by auto
    ultimately have "\<not> dropped blocked d (num (hd (all_queues q ! (n - 1))))" using A that(1) by blast
    then show False using ne keep [of n] hd_num [of n] that(2) n by (auto simp: queue_of_def)
  qed
  have "queues_ok q'"
    using ok len keep by (auto simp: queues_ok_def) (metis empty_iff list.set(1))
  then show ?thesis using A r keep gone by (simp add: n_pending_def)
qed

section \<open>The set of pending signals\<close>

lemma bit_sig_bit: "bit (sig_bit n) m \<longleftrightarrow> m = n - 1 \<and> m < 64"
  by (auto simp: sig_bit_def sig_consts bit_simps)

lemma sig_contains_bit:
  assumes "1 \<le> n" "n \<le> 64"
  shows "sig_contains s (sig_bit n) \<longleftrightarrow> bit s (n - 1)"
proof -
  have "sig_contains s (sig_bit n) \<longleftrightarrow> (\<forall>m<64. bit (sig_bit n) m \<longrightarrow> bit s m)"
    by (auto simp: sig_contains_def bit_eq_iff bit_and_iff)
  also have "\<dots> \<longleftrightarrow> bit s (n - 1)" using assms by (auto simp: bit_sig_bit)
  finally show ?thesis .
qed

lemma pending_fold:
  assumes "1 \<le> b" "i + length xs + b \<le> 65"
  shows "\<exists>p'. rfold (\<lambda>(idx, x) p. if P x then rbind (signum_from_u8 (idx + b)) (\<lambda>n. Inr (sig_add p (sig_bit n)))
      else Inr p) (enumerate i xs) p = Inr p' \<and>
    (\<forall>m. bit p' m \<longleftrightarrow> bit p m \<or> (\<exists>j<length xs. P (xs ! j) \<and> m = i + j + b - 1))"
  using assms(2)
proof (induction xs arbitrary: i p)
  case (Cons x xs)
  define p1 where "p1 = (if P x then sig_add p (sig_bit (i + b)) else p)"
  obtain p' where p': "rfold (\<lambda>(idx, x) p. if P x then rbind (signum_from_u8 (idx + b)) (\<lambda>n. Inr (sig_add p (sig_bit n)))
      else Inr p) (enumerate (Suc i) xs) p1 = Inr p'"
    "\<forall>m. bit p' m \<longleftrightarrow> bit p1 m \<or> (\<exists>j<length xs. P (xs ! j) \<and> m = Suc i + j + b - 1)"
    using Cons.IH [of "Suc i" p1] Cons.prems by auto
  have "bit p1 m \<longleftrightarrow> bit p m \<or> P x \<and> m = i + b - 1" for m
    using Cons.prems assms(1) by (auto simp: p1_def sig_add_def bit_or_iff bit_sig_bit)
  then have "bit p' m \<longleftrightarrow> bit p m \<or> (\<exists>j<length (x # xs). P ((x # xs) ! j) \<and> m = i + j + b - 1)" for m
    using p'(2) by (auto simp: Ex_less_Suc2)
  moreover have "signum_from_u8 (i + b) = Inr (i + b)"
    using Cons.prems assms(1) by (simp add: signum_from_u8_def sig_consts)
  ultimately show ?case using p'(1) by (auto simp: p1_def)
qed simp

lemma queues_sig_pending_ok:
  assumes ok: "queues_ok q"
  shows "\<exists>p. queues_sig_pending q = Inr p \<and> (\<forall>n\<in>{1..64}. sig_contains p (sig_bit n) \<longleftrightarrow> queue_of q n \<noteq> [])"
proof -
  have len: "length (std_queues q) = 31" "length (rt_queues q) = 33" using ok by (auto simp: queues_ok_def)
  obtain p1 where p1: "rfold (\<lambda>(idx, s) p. if s \<noteq> None then rbind (signum_from_u8 (idx + 1))
      (\<lambda>n. Inr (sig_add p (sig_bit n))) else Inr p) (enumerate 0 (std_queues q)) 0 = Inr p1"
    "\<forall>m. bit p1 m \<longleftrightarrow> bit 0 m \<or> (\<exists>j<31. std_queues q ! j \<noteq> None \<and> m = 0 + j + 1 - 1)"
    using pending_fold [of 1 0 "std_queues q" "\<lambda>x. x \<noteq> None" 0] len by (auto simp del: not_None_eq)
  obtain p where p: "rfold (\<lambda>(idx, ss) p. if ss \<noteq> [] then rbind (signum_from_u8 (idx + 32))
      (\<lambda>n. Inr (sig_add p (sig_bit n))) else Inr p) (enumerate 0 (rt_queues q)) p1 = Inr p"
    "\<forall>m. bit p m \<longleftrightarrow> bit p1 m \<or> (\<exists>j<33. rt_queues q ! j \<noteq> [] \<and> m = 0 + j + 32 - 1)"
    using pending_fold [of 32 0 "rt_queues q" "\<lambda>x. x \<noteq> []" p1] len by auto
  have "sig_contains p (sig_bit n) \<longleftrightarrow> queue_of q n \<noteq> []" if "n \<in> {1..64}" for n
  proof (cases "n \<le> 31")
    case True
    then have "bit p (n - 1) \<longleftrightarrow> std_queues q ! (n - 1) \<noteq> None"
      using p(2) p1(2) that by auto
    then show ?thesis using that True sig_contains_bit [of n p] queue_of_std [OF ok, of n] by simp
  next
    case False
    then have "n - 1 = 0 + j + 32 - 1 \<longleftrightarrow> j = n - 32" for j by auto
    then have "(\<exists>j<33. rt_queues q ! j \<noteq> [] \<and> n - 1 = 0 + j + 32 - 1) \<longleftrightarrow> rt_queues q ! (n - 32) \<noteq> []"
      using that by auto
    then have "bit p (n - 1) \<longleftrightarrow> rt_queues q ! (n - 32) \<noteq> []"
      using p(2) p1(2) that False by auto
    then show ?thesis using that False sig_contains_bit [of n p] queue_of_rt [OF ok, of n] by simp
  qed
  moreover have "queues_sig_pending q = Inr p"
    using p1(1) p(1) unfolding queues_sig_pending_def MIN_STD_SIG_NUM_def MIN_RT_SIG_NUM_def by simp
  ultimately show ?thesis by blast
qed

section \<open>Properties\<close>

definition sigq_ok :: "'i sig_queues \<Rightarrow> bool" where
  "sigq_ok Q \<longleftrightarrow> queues_ok (sq Q) \<and> sig_count Q = n_pending (sq Q)"

lemma queues_new_ok: "queues_ok (queues_new :: 'i queues) \<and> n_pending (queues_new :: 'i queues) = 0"
proof -
  let ?q = "queues_new :: 'i queues"
  have all: "all_queues ?q = replicate 64 []"
    by (simp add: all_queues_def queues_new_def sig_consts flip: replicate_add)
  have "queue_of ?q n = []" for n by (cases n) (simp_all add: queue_of_def all)
  moreover have "length (std_queues ?q) = 31" "length (rt_queues ?q) = 33"
    by (simp_all add: queues_new_def sig_consts)
  moreover have "n_pending ?q = 0" unfolding n_pending_def all map_replicate sum_list_replicate by simp
  ultimately show ?thesis by (simp add: queues_ok_def)
qed

lemma sigq_new_ok: "sigq_ok sigq_new"
  using queues_new_ok by (simp add: sigq_ok_def sigq_new_def)

lemma sigq_enqueue_ok:
  assumes ok: "sigq_ok Q" and n: "1 \<le> num s" "num s \<le> 64" and room: "sig_count Q + 1 < 2 ^ 64"
  shows "\<exists>Q'. sigq_enqueue s Q = Inr (\<not> (num s \<le> 31 \<and> queue_of (sq Q) (num s) \<noteq> []), Q') \<and> sigq_ok Q' \<and>
    queue_of (sq Q') = (if num s \<le> 31 \<and> queue_of (sq Q) (num s) \<noteq> [] then queue_of (sq Q)
      else (queue_of (sq Q))(num s := queue_of (sq Q) (num s) @ [s]))"
proof -
  have q: "queues_ok (sq Q)" "sig_count Q = n_pending (sq Q)" using ok by (auto simp: sigq_ok_def)
  obtain q' where "queues_enqueue s (sq Q) = Inr (\<not> (num s \<le> 31 \<and> queue_of (sq Q) (num s) \<noteq> []), q')"
    "queues_ok q'" "queue_of q' = (if num s \<le> 31 \<and> queue_of (sq Q) (num s) \<noteq> [] then queue_of (sq Q)
      else (queue_of (sq Q))(num s := queue_of (sq Q) (num s) @ [s]))"
    "n_pending q' = n_pending (sq Q) + (if num s \<le> 31 \<and> queue_of (sq Q) (num s) \<noteq> [] then 0 else 1)"
    using queues_enqueue_ok [OF q(1) n] by blast
  then show ?thesis using q room
    by (cases "num s \<le> 31 \<and> queue_of (sq Q) (num s) \<noteq> []") (auto simp: sigq_enqueue_def sigq_ok_def)
qed

lemma sigq_dequeue_ok:
  assumes ok: "sigq_ok Q"
  shows "case find (ready blocked (sq Q)) sig_order of
      None \<Rightarrow> sigq_dequeue blocked Q = Inr (None, Q)
    | Some n \<Rightarrow> \<exists>Q'. sigq_dequeue blocked Q = Inr (Some (hd (queue_of (sq Q) n)), Q') \<and> sigq_ok Q' \<and>
        queue_of (sq Q') = (queue_of (sq Q))(n := tl (queue_of (sq Q) n))"
proof -
  have q: "queues_ok (sq Q)" "sig_count Q = n_pending (sq Q)" using ok by (auto simp: sigq_ok_def)
  obtain r where r: "queues_dequeue blocked (sq Q) = Inr r"
    "takes (sq Q) (find (ready blocked (sq Q)) sig_order) r" using queues_dequeue_ok [OF q(1)] by blast
  show ?thesis
  proof (cases "find (ready blocked (sq Q)) sig_order")
    case None
    then show ?thesis using r by (simp add: takes_def sigq_dequeue_def)
  next
    case (Some n)
    then have "ready blocked (sq Q) n" using find_SomeD by fast
    then have "sig_count Q \<noteq> 0"
      using queue_of_length_le [OF q(1), of n] q(2) by (cases "queue_of (sq Q) n") (auto simp: ready_def)
    with r Some q(2) show ?thesis
      by (cases r) (auto simp: takes_def sigq_dequeue_def sigq_is_empty_def sigq_ok_def)
  qed
qed

text \<open>C8. The signal queues implement the pending lists. Sending a standard signal that is already
  pending changes nothing; any other signal is appended to the list of its number. Receiving takes
  the oldest signal of the first number, in the order of the code (SIGKILL first, standard before
  real-time, real-time in ascending order), that is pending and not blocked, and nothing when there
  is none. The counter of pending signals stays exact, so the fast path that reads only the
  counter never misses a signal, and neither operation panics.\<close>

theorem signal_queues_refine_lists:
  assumes "sigq_ok Q" "1 \<le> num s" "num s \<le> 64" "sig_count Q + 1 < 2 ^ 64"
  shows "(\<exists>Q'. sigq_enqueue s Q = Inr (\<not> (num s \<le> 31 \<and> queue_of (sq Q) (num s) \<noteq> []), Q') \<and> sigq_ok Q' \<and>
      queue_of (sq Q') = (if num s \<le> 31 \<and> queue_of (sq Q) (num s) \<noteq> [] then queue_of (sq Q)
        else (queue_of (sq Q))(num s := queue_of (sq Q) (num s) @ [s]))) \<and>
    (case find (ready blocked (sq Q)) sig_order of
      None \<Rightarrow> sigq_dequeue blocked Q = Inr (None, Q)
    | Some n \<Rightarrow> \<exists>Q'. sigq_dequeue blocked Q = Inr (Some (hd (queue_of (sq Q) n)), Q') \<and> sigq_ok Q' \<and>
        queue_of (sq Q') = (queue_of (sq Q))(n := tl (queue_of (sq Q) n)))"
  using sigq_enqueue_ok [OF assms] sigq_dequeue_ok [OF assms(1)] by blast

theorem signal_queues_refine_lists_witness:
  "\<exists>Q'. sigq_enqueue \<lparr>num = 34, info = ()\<rparr> sigq_new = Inr (True, Q') \<and> sigq_ok Q' \<and>
     queue_of (sq Q') 34 = queue_of (sq sigq_new) 34 @ [\<lparr>num = 34, info = ()\<rparr>]"
proof -
  have "sig_count (sigq_new :: unit sig_queues) = 0" by (simp add: sigq_new_def)
  then show ?thesis
    using signal_queues_refine_lists [OF sigq_new_ok, of "\<lparr>num = 34, info = ()\<rparr>" 0] by auto
qed



text \<open>The answers about pending signals are exact. \<open>has_pending\<close> tells whether a signal is pending
  that is neither blocked nor ignored; on the way it removes only signals that are ignored and not
  blocked, all of them when the answer is no, and keeps the counter exact. \<open>sig_pending\<close> is the set
  of the numbers with a pending signal.\<close>

theorem has_pending_exact:
  assumes "sigq_ok Q"
  shows "\<exists>r Q' p. sigq_has_pending blocked d Q = Inr (r, Q') \<and> sigq_ok Q' \<and>
    (r \<longleftrightarrow> (\<exists>n. queue_of (sq Q) n \<noteq> [] \<and> live blocked d n)) \<and>
    (\<forall>n. queue_of (sq Q') n = queue_of (sq Q) n \<or> queue_of (sq Q') n = [] \<and> dropped blocked d n) \<and>
    (r \<or> (\<forall>n. dropped blocked d n \<longrightarrow> queue_of (sq Q') n = [])) \<and>
    queues_sig_pending (sq Q) = Inr p \<and>
    (\<forall>n\<in>{1..64}. sig_contains p (sig_bit n) \<longleftrightarrow> queue_of (sq Q) n \<noteq> [])"
proof -
  have q: "queues_ok (sq Q)" "sig_count Q = n_pending (sq Q)" using assms by (auto simp: sigq_ok_def)
  obtain k r q' where run: "queues_has_pending blocked d (sq Q) = (k, r, q')" by (metis prod_cases3)
  note P = queues_has_pending_ok [OF q(1) run]
  have cnt: "sig_count Q - k = n_pending q'" "k \<le> sig_count Q" using P q(2) by auto
  then have "sigq_has_pending blocked d Q = Inr (r, \<lparr>sig_count = n_pending q', sq = q'\<rparr>)"
    by (simp add: sigq_has_pending_def run)
  moreover have "sigq_ok \<lparr>sig_count = n_pending q', sq = q'\<rparr>" using P by (simp add: sigq_ok_def)
  moreover obtain p where "queues_sig_pending (sq Q) = Inr p"
    "\<forall>n\<in>{1..64}. sig_contains p (sig_bit n) \<longleftrightarrow> queue_of (sq Q) n \<noteq> []"
    using queues_sig_pending_ok [OF q(1)] by blast
  ultimately show ?thesis using P
    by (intro exI [of _ r] exI [of _ "\<lparr>sig_count = n_pending q', sq = q'\<rparr>"] exI [of _ p]) (simp, blast)
qed

theorem has_pending_exact_witness:
  "sigq_ok (sigq_new :: unit sig_queues) \<and>
   (\<exists>r Q'. sigq_has_pending 0 disp_new (sigq_new :: unit sig_queues) = Inr (r, Q') \<and> sigq_ok Q')"
  using sigq_new_ok has_pending_exact [OF sigq_new_ok, of 0 disp_new] by blast

text \<open>Actions survive the C representation. Every action that \<open>rt_sigaction\<close> can have stored is read
  back unchanged from its C form, an action read from user space never masks SIGKILL or SIGSTOP,
  and after \<open>execve\<close> no handler is left while ignored signals stay ignored.\<close>

theorem sig_action_roundtrip:
  "sig_action_from (as_c_type (sig_action_from c)) = sig_action_from c \<and>
   (case sig_action_from c of
      User h f r m \<Rightarrow> \<not> sig_contains m (sig_bit SIGKILL) \<and> \<not> sig_contains m (sig_bit SIGSTOP)
    | _ \<Rightarrow> True) \<and>
   list_all (\<lambda>a. a = Dfl \<or> a = Ign) (disp_inherit d) \<and>
   map (\<lambda>a. a = Ign) (disp_inherit d) = map (\<lambda>a. a = Ign) d"
proof -
  have idem: "sig_sub (sig_sub (sig_sub (sig_sub m a) b) a) b = sig_sub (sig_sub m a) b" for m a b
    by (rule bit_eqI) (auto simp: sig_sub_def bit_simps)
  have "\<not> sig_contains (sig_sub (sig_sub m (sig_bit SIGSTOP)) (sig_bit SIGKILL)) (sig_bit n)"
    if "n = SIGKILL \<or> n = SIGSTOP" for m n
    using that by (auto simp: sig_contains_bit sig_consts sig_sub_def bit_simps bit_sig_bit)
  then show ?thesis
    by (auto simp: sig_action_from_def as_c_type_def idem and.assoc SIG_DFL_def SIG_IGN_def
        disp_inherit_def list_all_iff split: sig_action.splits)
qed

end
