(* ===== verification/Sysv_Sem.thy ===== *)
theory Sysv_Sem
  imports Prelude
begin

text \<open>
  System V semaphores, \<open>kernel/src/ipc/semaphore/system_v/sem.rs\<close> and \<open>sem_set.rs\<close>: atomic operations
  on the semaphores of a set, the queues of pending operations, and which of them are woken.

  An operation that has to sleep is identified by its waker. The functions that wake operations
  return them in the order of the wake queue; the caller marks them \<open>Normal\<close> and wakes them.
\<close>

section \<open>Operations and semaphores\<close>

record sem_buf =
  sem_num :: nat
  sem_op :: int
  sem_flags :: "32 word"

datatype sem_status = Normal | Pending | Removed

record pending_op =
  sops :: "sem_buf list"
  waker :: nat
  op_pid :: nat

record semaphore =
  sem_val :: int
  latest_modified_pid :: nat

record sem_set_inner =
  sems :: "semaphore list"
  pending_alter :: "pending_op list"
  pending_const :: "pending_op list"

definition SEMMSL :: nat where "SEMMSL = 32000"
definition SEMVMX :: int where "SEMVMX = 32767"
definition IPC_NOWAIT :: "32 word" where "IPC_NOWAIT = push_bit 11 1"
definition SEM_UNDO :: "32 word" where "SEM_UNDO = push_bit 12 1"

definition flag_contains :: "32 word \<Rightarrow> 32 word \<Rightarrow> bool" where
  "flag_contains flags f \<longleftrightarrow> flags AND f = f"

definition i32_add :: "int \<Rightarrow> int \<Rightarrow> int result" where
  "i32_add a b = (if - (2 ^ 31) \<le> a + b \<and> a + b < 2 ^ 31 then Inr (a + b) else Inl Panic)"

text \<open>The first loop of \<open>perform_atomic_semop\<close>: every operation is checked against the present values.
  \<open>False\<close> means that the caller has to wait; \<open>todo!()\<close> panics.\<close>

fun semop_check :: "semaphore list \<Rightarrow> sem_buf list \<Rightarrow> bool result" where
  "semop_check ss [] = Inr True"
| "semop_check ss (sop # rest) =
     (if \<not> sem_num sop < length ss then Inl (Errno EFBIG)
      else let v = sem_val (ss ! sem_num sop) in
        if sem_op sop = 0 \<and> v \<noteq> 0 then
          (if flag_contains (sem_flags sop) IPC_NOWAIT then Inl (Errno EAGAIN) else Inr False)
        else rbind (i32_add v (sem_op sop)) (\<lambda>r.
          if r < 0 then
            (if flag_contains (sem_flags sop) IPC_NOWAIT then Inl (Errno EAGAIN) else Inr False)
          else if r > SEMVMX then Inl (Errno ERANGE)
          else if flag_contains (sem_flags sop) SEM_UNDO then Inl Panic
          else semop_check ss rest))"

text \<open>The second loop.\<close>

fun semop_apply :: "nat \<Rightarrow> sem_buf list \<Rightarrow> semaphore list \<Rightarrow> semaphore list result" where
  "semop_apply pid [] ss = Inr ss"
| "semop_apply pid (sop # rest) ss =
     (if \<not> sem_num sop < length ss then Inl Panic
      else if sem_op sop \<noteq> 0 then
        rbind (i32_add (sem_val (ss ! sem_num sop)) (sem_op sop)) (\<lambda>v.
          semop_apply pid rest (ss[sem_num sop := \<lparr>sem_val = v, latest_modified_pid = pid\<rparr>]))
      else semop_apply pid rest ss)"

definition perform_atomic_semop :: "semaphore list \<Rightarrow> pending_op \<Rightarrow> (bool \<times> semaphore list) result" where
  "perform_atomic_semop ss op =
     rbind (semop_check ss (sops op)) (\<lambda>ok.
       if ok then rbind (semop_apply (op_pid op) (sops op) ss) (\<lambda>ss'. Inr (True, ss'))
       else Inr (False, ss))"

section \<open>Waking\<close>

text \<open>\<open>if let Ok(true) = perform_atomic_semop(..)\<close>: errors leave the operation in the queue.\<close>

definition try_op :: "semaphore list \<Rightarrow> pending_op \<Rightarrow> semaphore list option result" where
  "try_op ss op =
     (case perform_atomic_semop ss op of
        Inr (True, ss') \<Rightarrow> Inr (Some ss')
      | Inr (False, _) \<Rightarrow> Inr None
      | Inl Panic \<Rightarrow> Inl Panic
      | Inl (Errno _) \<Rightarrow> Inr None)"

text \<open>The results are the semaphores, the operations that stay, and those that are woken.\<close>

fun wake_const_ops ::
  "semaphore list \<Rightarrow> pending_op list \<Rightarrow> (semaphore list \<times> pending_op list \<times> pending_op list) result" where
  "wake_const_ops ss [] = Inr (ss, [], [])"
| "wake_const_ops ss (op # ops) =
     rbind (try_op ss op) (\<lambda>r.
       case r of
         Some ss' \<Rightarrow> rbind (wake_const_ops ss' ops) (\<lambda>(ss'', kept, woken). Inr (ss'', kept, op # woken))
       | None \<Rightarrow> rbind (wake_const_ops ss ops) (\<lambda>(ss'', kept, woken). Inr (ss'', op # kept, woken)))"

fun do_smart_wakeup_zero ::
  "semaphore list \<Rightarrow> pending_op list \<Rightarrow> sem_buf list \<Rightarrow>
    (semaphore list \<times> pending_op list \<times> pending_op list) result" where
  "do_smart_wakeup_zero ss const [] = Inr (ss, const, [])"
| "do_smart_wakeup_zero ss const (sop # rest) =
     (if \<not> sem_num sop < length ss then Inl Panic
      else if sem_val (ss ! sem_num sop) = 0 then wake_const_ops ss const
      else do_smart_wakeup_zero ss const rest)"

text \<open>The results are the semaphores, the alter operations and the const operations that stay, and
  those that are woken.\<close>

fun update_pending_alter ::
  "semaphore list \<Rightarrow> pending_op list \<Rightarrow> pending_op list \<Rightarrow>
    (semaphore list \<times> pending_op list \<times> pending_op list \<times> pending_op list) result" where
  "update_pending_alter ss [] const = Inr (ss, [], const, [])"
| "update_pending_alter ss (op # ops) const =
     rbind (try_op ss op) (\<lambda>r.
       case r of
         Some ss1 \<Rightarrow>
           rbind (do_smart_wakeup_zero ss1 const (sops op)) (\<lambda>(ss2, const2, woken2).
           rbind (update_pending_alter ss2 ops const2) (\<lambda>(ss3, kept, const3, woken3).
             Inr (ss3, kept, const3, woken2 @ [op] @ woken3)))
       | None \<Rightarrow>
           rbind (update_pending_alter ss ops const) (\<lambda>(ss3, kept, const3, woken3).
             Inr (ss3, op # kept, const3, woken3)))"

definition do_smart_update :: "sem_set_inner \<Rightarrow> pending_op \<Rightarrow> (sem_set_inner \<times> pending_op list) result" where
  "do_smart_update inner op =
     rbind (if pending_const inner \<noteq> []
            then do_smart_wakeup_zero (sems inner) (pending_const inner) (sops op)
            else Inr (sems inner, pending_const inner, [])) (\<lambda>(ss1, const1, woken1).
     rbind (if pending_alter inner \<noteq> []
            then update_pending_alter ss1 (pending_alter inner) const1
            else Inr (ss1, pending_alter inner, const1, [])) (\<lambda>(ss2, alter2, const2, woken2).
       Inr (\<lparr>sems = ss2, pending_alter = alter2, pending_const = const2\<rparr>, woken1 @ woken2)))"

section \<open>Calls\<close>

definition ops_alter :: "sem_buf list \<Rightarrow> bool" where
  "ops_alter = list_ex (\<lambda>sop. sem_op sop \<noteq> 0)"

datatype semop_outcome = Done "pending_op list" | Sleep

definition sys_sem_op :: "sem_set_inner \<Rightarrow> pending_op \<Rightarrow> (semop_outcome \<times> sem_set_inner) result" where
  "sys_sem_op inner op =
     rbind (perform_atomic_semop (sems inner) op) (\<lambda>(ok, ss).
       let inner1 = inner\<lparr>sems := ss\<rparr> in
       if ok then
         (if ops_alter (sops op)
          then rbind (do_smart_update inner1 op) (\<lambda>(inner2, woken). Inr (Done woken, inner2))
          else Inr (Done [], inner1))
       else if ops_alter (sops op)
       then Inr (Sleep, inner1\<lparr>pending_alter := pending_alter inner1 @ [op]\<rparr>)
       else Inr (Sleep, inner1\<lparr>pending_const := pending_const inner1 @ [op]\<rparr>))"

text \<open>A sleeper that finds its status still \<open>Pending\<close> (the timer fired) removes its operations.\<close>

definition sem_op_timed_out :: "bool \<Rightarrow> nat \<Rightarrow> sem_set_inner \<Rightarrow> sem_set_inner" where
  "sem_op_timed_out alter pid inner =
     (if alter then inner\<lparr>pending_alter := filter (\<lambda>op. op_pid op \<noteq> pid) (pending_alter inner)\<rparr>
      else inner\<lparr>pending_const := filter (\<lambda>op. op_pid op \<noteq> pid) (pending_const inner)\<rparr>)"

definition sem_op_woken :: "sem_status \<Rightarrow> unit result" where
  "sem_op_woken st =
     (case st of Normal \<Rightarrow> Inr () | Removed \<Rightarrow> Inl (Errno EIDRM) | Pending \<Rightarrow> Inl (Errno EAGAIN))"

definition setval :: "nat \<Rightarrow> int \<Rightarrow> nat \<Rightarrow> sem_set_inner \<Rightarrow> (sem_set_inner \<times> pending_op list) result" where
  "setval n v pid inner =
     (if \<not> (0 \<le> v \<and> v < SEMVMX) then Inl (Errno ERANGE)
      else if \<not> n < length (sems inner) then Inl (Errno EINVAL)
      else
        let ss = (sems inner)[n := \<lparr>sem_val = v, latest_modified_pid = pid\<rparr>] in
        if v = 0 then
          rbind (wake_const_ops ss (pending_const inner)) (\<lambda>(ss', const, woken).
            Inr (inner\<lparr>sems := ss', pending_const := const\<rparr>, woken))
        else
          rbind (update_pending_alter ss (pending_alter inner) (pending_const inner))
            (\<lambda>(ss', alter, const, woken).
              Inr (\<lparr>sems = ss', pending_alter = alter, pending_const = const\<rparr>, woken)))"

definition sem_get :: "nat \<Rightarrow> sem_set_inner \<Rightarrow> semaphore result" where
  "sem_get n inner = (if n < length (sems inner) then Inr (sems inner ! n) else Inl (Errno EINVAL))"

definition pending_count :: "nat \<Rightarrow> pending_op list \<Rightarrow> nat" where
  "pending_count n ops = sum_list (map (\<lambda>op. length (filter (\<lambda>sop. sem_num sop = n) (sops op))) ops)"

definition sem_set_new :: "nat \<Rightarrow> nat \<Rightarrow> sem_set_inner result" where
  "sem_set_new nsems pid =
     rbind (rassert (nsems \<le> SEMMSL)) (\<lambda>_.
       Inr \<lparr>sems = replicate nsems \<lparr>sem_val = 0, latest_modified_pid = pid\<rparr>,
            pending_alter = [], pending_const = []\<rparr>)"

text \<open>Dropping a set: every sleeper is marked \<open>Removed\<close> and woken.\<close>

definition sem_set_drop :: "sem_set_inner \<Rightarrow> (nat \<times> sem_status) list \<times> sem_set_inner" where
  "sem_set_drop inner =
     (map (\<lambda>op. (waker op, Removed)) (pending_alter inner) @ map (\<lambda>op. (waker op, Removed)) (pending_const inner),
      inner\<lparr>pending_alter := [], pending_const := []\<rparr>)"

section \<open>Values in range\<close>

definition vals_ok :: "semaphore list \<Rightarrow> bool" where
  "vals_ok ss \<longleftrightarrow> list_all (\<lambda>s. 0 \<le> sem_val s \<and> sem_val s \<le> SEMVMX) ss"

text \<open>Operations as the C structure can hold them, each on a semaphore of its own.\<close>

definition op_ok :: "pending_op \<Rightarrow> bool" where
  "op_ok op \<longleftrightarrow> list_all (\<lambda>sop. - 32768 \<le> sem_op sop \<and> sem_op sop \<le> 32767 \<and>
     \<not> flag_contains (sem_flags sop) SEM_UNDO) (sops op) \<and> distinct (map sem_num (sops op))"

text \<open>\<open>proceeds\<close>: a single operation can be done now.\<close>

definition proceeds :: "semaphore list \<Rightarrow> sem_buf \<Rightarrow> bool" where
  "proceeds ss sop \<longleftrightarrow> sem_num sop < length ss \<and>
     (if sem_op sop = 0 then sem_val (ss ! sem_num sop) = 0
      else 0 \<le> sem_val (ss ! sem_num sop) + sem_op sop \<and> sem_val (ss ! sem_num sop) + sem_op sop \<le> SEMVMX)"

lemma i32_add_ok [simp]:
  "- 32768 \<le> b \<Longrightarrow> b \<le> 32767 \<Longrightarrow> 0 \<le> a \<Longrightarrow> a \<le> SEMVMX \<Longrightarrow> i32_add a b = Inr (a + b)"
  by (simp add: i32_add_def SEMVMX_def)

lemma vals_ok_nth: "vals_ok ss \<Longrightarrow> i < length ss \<Longrightarrow> 0 \<le> sem_val (ss ! i) \<and> sem_val (ss ! i) \<le> SEMVMX"
  by (simp add: vals_ok_def list_all_length)

definition sops_ok :: "sem_buf list \<Rightarrow> bool" where
  "sops_ok = list_all (\<lambda>sop. - 32768 \<le> sem_op sop \<and> sem_op sop \<le> 32767 \<and>
     \<not> flag_contains (sem_flags sop) SEM_UNDO)"

lemma sops_ok_simps [simp]: "sops_ok []"
  "sops_ok (sop # l) \<longleftrightarrow> - 32768 \<le> sem_op sop \<and> sem_op sop \<le> 32767 \<and>
     \<not> flag_contains (sem_flags sop) SEM_UNDO \<and> sops_ok l"
  by (auto simp: sops_ok_def)

lemma semop_check_ok:
  assumes "vals_ok ss" "sops_ok l"
  shows "(semop_check ss l = Inr True \<longleftrightarrow> list_all (proceeds ss) l) \<and> semop_check ss l \<noteq> Inl Panic"
  using assms(2)
proof (induction l)
  case (Cons sop l)
  show ?case
  proof (cases "sem_num sop < length ss")
    case True
    from vals_ok_nth [OF assms(1) True] Cons True show ?thesis
      by (auto simp: proceeds_def Let_def)
  qed (use Cons in \<open>auto simp: proceeds_def\<close>)
qed simp

definition delta :: "sem_buf list \<Rightarrow> nat \<Rightarrow> int" where
  "delta l i = (case find (\<lambda>sop. sem_num sop = i) l of None \<Rightarrow> 0 | Some sop \<Rightarrow> sem_op sop)"

lemma delta_simps [simp]: "delta [] i = 0"
  "delta (sop # l) i = (if sem_num sop = i then sem_op sop else delta l i)"
  by (simp_all add: delta_def)

lemma delta_fresh: "i \<notin> sem_num ` set l \<Longrightarrow> delta l i = 0"
  by (induction l) auto

lemma semop_apply_ok:
  assumes "vals_ok ss" "sops_ok l" "distinct (map sem_num l)" "list_all (proceeds ss) l"
  shows "\<exists>ss'. semop_apply pid l ss = Inr ss' \<and> vals_ok ss' \<and> length ss' = length ss \<and>
    (\<forall>i<length ss. sem_val (ss' ! i) = sem_val (ss ! i) + delta l i)"
  using assms
proof (induction l arbitrary: ss)
  case (Cons sop l)
  let ?n = "sem_num sop"
  have n: "?n < length ss" using Cons.prems by (simp add: proceeds_def)
  note v = vals_ok_nth [OF Cons.prems(1) n]
  have fresh: "delta l ?n = 0" using Cons.prems(3) by (intro delta_fresh) auto
  show ?case
  proof (cases "sem_op sop = 0")
    case True
    obtain ss' where "semop_apply pid l ss = Inr ss'" "vals_ok ss'" "length ss' = length ss"
      "\<forall>i<length ss. sem_val (ss' ! i) = sem_val (ss ! i) + delta l i"
      using Cons.IH [OF Cons.prems(1)] Cons.prems by auto
    with True n fresh show ?thesis by auto
  next
    case False
    define ss1 where "ss1 = ss[?n := \<lparr>sem_val = sem_val (ss ! ?n) + sem_op sop, latest_modified_pid = pid\<rparr>]"
    have "vals_ok ss1"
      using Cons.prems(1,4) False n by (auto simp: ss1_def vals_ok_def list_all_length nth_list_update proceeds_def)
    moreover have "list_all (proceeds ss1) l"
      unfolding list_all_iff
    proof
      fix s' assume "s' \<in> set l"
      then have "sem_num s' \<in> sem_num ` set l" "proceeds ss s'" using Cons.prems(4) by (auto simp: list_all_iff)
      then have "sem_num s' \<noteq> ?n" "proceeds ss s'" using Cons.prems(3) by auto
      then show "proceeds ss1 s'" by (simp add: ss1_def proceeds_def)
    qed
    ultimately obtain ss' where ss': "semop_apply pid l ss1 = Inr ss'" "vals_ok ss'" "length ss' = length ss"
      "\<forall>i<length ss. sem_val (ss' ! i) = sem_val (ss1 ! i) + delta l i"
      using Cons.IH [of ss1] Cons.prems(2,3) by (auto simp: ss1_def)
    have "\<forall>i<length ss. sem_val (ss' ! i) = sem_val (ss ! i) + delta (sop # l) i"
      using ss'(4) n fresh by (auto simp: ss1_def nth_list_update)
    moreover have "semop_apply pid (sop # l) ss = Inr ss'"
      using False n v Cons.prems(2) ss'(1) by (simp add: ss1_def)
    ultimately show ?thesis using ss' by blast
  qed
qed simp

lemma op_ok_sops: "op_ok op \<Longrightarrow> sops_ok (sops op) \<and> distinct (map sem_num (sops op))"
  by (simp add: op_ok_def sops_ok_def)

lemma perform_ok:
  assumes "vals_ok ss" "op_ok op"
  shows "if list_all (proceeds ss) (sops op) then
      \<exists>ss'. perform_atomic_semop ss op = Inr (True, ss') \<and> vals_ok ss' \<and> length ss' = length ss \<and>
        (\<forall>i<length ss. sem_val (ss' ! i) = sem_val (ss ! i) + delta (sops op) i)
    else perform_atomic_semop ss op = Inr (False, ss) \<or> (\<exists>e. perform_atomic_semop ss op = Inl (Errno e))"
proof -
  have ok: "sops_ok (sops op)" "distinct (map sem_num (sops op))" using op_ok_sops [OF assms(2)] by auto
  note chk = semop_check_ok [OF assms(1) ok(1)]
  show ?thesis
  proof (cases "list_all (proceeds ss) (sops op)")
    case True
    then show ?thesis using chk semop_apply_ok [OF assms(1) ok True, of "op_pid op"]
      by (auto simp: perform_atomic_semop_def)
  next
    case False
    then have "semop_check ss (sops op) \<noteq> Inr True" using chk by simp
    then show ?thesis using False chk
      by (cases "semop_check ss (sops op)") (auto simp: perform_atomic_semop_def, metis error.exhaust)
  qed
qed

lemma try_op_ok:
  assumes "vals_ok ss" "op_ok op"
  shows "if list_all (proceeds ss) (sops op)
    then \<exists>ss'. try_op ss op = Inr (Some ss') \<and> vals_ok ss' \<and> length ss' = length ss \<and>
      (\<forall>i<length ss. sem_val (ss' ! i) = sem_val (ss ! i) + delta (sops op) i)
    else try_op ss op = Inr None"
  using perform_ok [OF assms] by (auto simp: try_op_def split: if_splits)

section \<open>Waking the right operations\<close>

definition const_op :: "pending_op \<Rightarrow> bool" where
  "const_op op \<longleftrightarrow> \<not> ops_alter (sops op)"

lemma const_apply: "\<not> ops_alter l \<Longrightarrow> list_all (proceeds ss) l \<Longrightarrow> semop_apply pid l ss = Inr ss"
  by (induction l) (auto simp: ops_alter_def proceeds_def)

lemma const_try:
  assumes "vals_ok ss" "op_ok op" "const_op op" "list_all (proceeds ss) (sops op)"
  shows "try_op ss op = Inr (Some ss)"
proof -
  have "semop_check ss (sops op) = Inr True"
    using semop_check_ok [OF assms(1)] op_ok_sops [OF assms(2)] assms(4) by blast
  then show ?thesis using const_apply [of "sops op"] assms(3,4)
    by (simp add: try_op_def perform_atomic_semop_def const_op_def)
qed

lemma wake_const_ops_ok:
  assumes "vals_ok ss" "list_all op_ok ops" "list_all const_op ops"
  shows "wake_const_ops ss ops =
    Inr (ss, filter (\<lambda>op. \<not> list_all (proceeds ss) (sops op)) ops,
         filter (\<lambda>op. list_all (proceeds ss) (sops op)) ops)"
  using assms(2,3)
proof (induction ops)
  case (Cons op ops)
  then show ?case
    using const_try [OF assms(1), of op] try_op_ok [OF assms(1), of op]
    by (cases "list_all (proceeds ss) (sops op)") auto
qed simp

lemma do_smart_wakeup_zero_ok:
  assumes "vals_ok ss" "list_all op_ok const" "list_all const_op const"
    "list_all (\<lambda>sop. sem_num sop < length ss) l"
  shows "\<exists>kept woken. do_smart_wakeup_zero ss const l = Inr (ss, kept, woken) \<and>
    mset const = mset kept + mset woken \<and> set kept \<subseteq> set const"
  using assms(4)
proof (induction l)
  case (Cons sop l)
  then show ?case using wake_const_ops_ok [OF assms(1-3)]
    by (auto simp: mset_filter multiset_partition [of _ "\<lambda>op. list_all (proceeds ss) (sops op)"] add.commute)
qed simp

definition inner_ok :: "sem_set_inner \<Rightarrow> bool" where
  "inner_ok inner \<longleftrightarrow> vals_ok (sems inner) \<and> list_all op_ok (pending_alter inner) \<and>
     list_all op_ok (pending_const inner) \<and> list_all const_op (pending_const inner)"

lemma proceeds_range: "list_all (proceeds ss) l \<Longrightarrow> list_all (\<lambda>sop. sem_num sop < length ss) l"
  by (auto simp: list_all_iff proceeds_def)

lemma update_pending_alter_ok:
  assumes "vals_ok ss" "list_all op_ok ops" "list_all op_ok const" "list_all const_op const"
  shows "\<exists>ss' kept const' woken. update_pending_alter ss ops const = Inr (ss', kept, const', woken) \<and>
    vals_ok ss' \<and> length ss' = length ss \<and> set kept \<subseteq> set ops \<and> set const' \<subseteq> set const \<and>
    mset ops + mset const = mset kept + mset const' + mset woken"
  using assms
proof (induction ops arbitrary: ss const)
  case (Cons op ops)
  have ok: "op_ok op" "list_all op_ok ops" using Cons.prems by auto
  show ?case
  proof (cases "list_all (proceeds ss) (sops op)")
    case True
    then obtain ss1 where t: "try_op ss op = Inr (Some ss1)" "vals_ok ss1" "length ss1 = length ss"
      using try_op_ok [OF Cons.prems(1) ok(1)] by auto
    have "list_all (\<lambda>sop. sem_num sop < length ss1) (sops op)" using proceeds_range [OF True] t(3) by simp
    then obtain kept1 woken1 where z: "do_smart_wakeup_zero ss1 const (sops op) = Inr (ss1, kept1, woken1)"
      "mset const = mset kept1 + mset woken1" "set kept1 \<subseteq> set const"
      using do_smart_wakeup_zero_ok [OF t(2) Cons.prems(3,4)] by blast
    have "list_all op_ok kept1" "list_all const_op kept1" using z(3) Cons.prems(3,4) by (auto simp: list_all_iff)
    then obtain ss' kept const' woken where u: "update_pending_alter ss1 ops kept1 = Inr (ss', kept, const', woken)"
      "vals_ok ss'" "length ss' = length ss1" "set kept \<subseteq> set ops" "set const' \<subseteq> set kept1"
      "mset ops + mset kept1 = mset kept + mset const' + mset woken"
      using Cons.IH [OF t(2) ok(2)] by blast
    have "mset (op # ops) + mset const = mset kept + mset const' + mset (woken1 @ [op] @ woken)"
      using u(6) z(2) by (simp add: ac_simps)
    then show ?thesis using t z u by auto
  next
    case False
    then have "try_op ss op = Inr None" using try_op_ok [OF Cons.prems(1) ok(1)] by simp
    moreover obtain ss' kept const' woken where
      "update_pending_alter ss ops const = Inr (ss', kept, const', woken)" "vals_ok ss'" "length ss' = length ss"
      "set kept \<subseteq> set ops" "set const' \<subseteq> set const" "mset ops + mset const = mset kept + mset const' + mset woken"
      using Cons.IH [OF Cons.prems(1) ok(2) Cons.prems(3,4)] by blast
    ultimately show ?thesis by auto
  qed
qed simp

lemma do_smart_update_ok:
  assumes ok: "inner_ok inner" and op: "list_all (\<lambda>sop. sem_num sop < length (sems inner)) (sops op)"
  shows "\<exists>inner' woken. do_smart_update inner op = Inr (inner', woken) \<and> inner_ok inner' \<and>
    mset (pending_alter inner) + mset (pending_const inner) =
      mset (pending_alter inner') + mset (pending_const inner') + mset woken"
proof -
  have v: "vals_ok (sems inner)" "list_all op_ok (pending_alter inner)" "list_all op_ok (pending_const inner)"
    "list_all const_op (pending_const inner)" using ok by (auto simp: inner_ok_def)
  obtain const1 woken1 where z: "(if pending_const inner \<noteq> []
      then do_smart_wakeup_zero (sems inner) (pending_const inner) (sops op)
      else Inr (sems inner, pending_const inner, [])) = Inr (sems inner, const1, woken1)"
    "mset (pending_const inner) = mset const1 + mset woken1" "set const1 \<subseteq> set (pending_const inner)"
    using do_smart_wakeup_zero_ok [OF v(1,3,4) op] by (cases "pending_const inner = []") auto
  have c1: "list_all op_ok const1" "list_all const_op const1" using z(3) v(3,4) by (auto simp: list_all_iff)
  obtain ss alter const2 woken2 where u: "(if pending_alter inner \<noteq> []
      then update_pending_alter (sems inner) (pending_alter inner) const1
      else Inr (sems inner, pending_alter inner, const1, [])) = Inr (ss, alter, const2, woken2)"
    "vals_ok ss" "set alter \<subseteq> set (pending_alter inner)" "set const2 \<subseteq> set const1"
    "mset (pending_alter inner) + mset const1 = mset alter + mset const2 + mset woken2"
    using update_pending_alter_ok [OF v(1,2) c1] v(1) by (cases "pending_alter inner = []") auto
  have "do_smart_update inner op =
      Inr (\<lparr>sems = ss, pending_alter = alter, pending_const = const2\<rparr>, woken1 @ woken2)"
    unfolding do_smart_update_def z(1) using u(1) by simp
  moreover have "inner_ok \<lparr>sems = ss, pending_alter = alter, pending_const = const2\<rparr>"
    using u v c1 by (auto simp: inner_ok_def list_all_iff)
  moreover have "mset (pending_alter inner) + mset (pending_const inner) =
      mset alter + mset const2 + mset (woken1 @ woken2)"
    using u(5) z(2) by (metis (no_types, lifting) add.assoc add.commute mset_append)
  ultimately show ?thesis by auto
qed

section \<open>Properties\<close>

definition sop :: "nat \<Rightarrow> int \<Rightarrow> sem_buf" where
  "sop n k = \<lparr>sem_num = n, sem_op = k, sem_flags = 0\<rparr>"

definition op_of :: "nat \<Rightarrow> sem_buf list \<Rightarrow> pending_op" where
  "op_of w l = \<lparr>sops = l, waker = w, op_pid = w\<rparr>"

definition sem :: "int \<Rightarrow> semaphore" where
  "sem v = \<lparr>sem_val = v, latest_modified_pid = 0\<rparr>"



text \<open>Waiting for zero. When \<open>semctl(SETVAL)\<close> sets a semaphore to 0, exactly those of the operations
  that wait for zero are woken that can now proceed; none that could proceed stays asleep, and the
  values are as set.\<close>

theorem setval_zero_wakes:
  assumes "inner_ok inner" "n < length (sems inner)"
  shows "let ss = (sems inner)[n := \<lparr>sem_val = 0, latest_modified_pid = pid\<rparr>] in
    setval n 0 pid inner =
      Inr (inner\<lparr>sems := ss, pending_const := filter (\<lambda>op. \<not> list_all (proceeds ss) (sops op)) (pending_const inner)\<rparr>,
           filter (\<lambda>op. list_all (proceeds ss) (sops op)) (pending_const inner)) \<and> vals_ok ss"
proof -
  let ?ss = "(sems inner)[n := \<lparr>sem_val = 0, latest_modified_pid = pid\<rparr>]"
  have v: "vals_ok ?ss"
    using assms by (auto simp: inner_ok_def vals_ok_def list_all_length nth_list_update SEMVMX_def)
  then have "wake_const_ops ?ss (pending_const inner) =
      Inr (?ss, filter (\<lambda>op. \<not> list_all (proceeds ?ss) (sops op)) (pending_const inner),
        filter (\<lambda>op. list_all (proceeds ?ss) (sops op)) (pending_const inner))"
    by (rule wake_const_ops_ok) (use assms in \<open>auto simp: inner_ok_def\<close>)
  then show ?thesis using assms(2) v by (simp add: setval_def SEMVMX_def Let_def)
qed

theorem setval_zero_wakes_witness:
  "let inner = \<lparr>sems = [sem 2], pending_alter = [], pending_const = [op_of 7 [sop 0 0]]\<rparr> in
   inner_ok inner \<and> (\<exists>inner'. setval 0 0 1 inner = Inr (inner', [op_of 7 [sop 0 0]]))"
proof -
  let ?inner = "\<lparr>sems = [sem 2], pending_alter = [], pending_const = [op_of 7 [sop 0 0]]\<rparr>"
  have ok: "inner_ok ?inner"
    by (simp add: inner_ok_def vals_ok_def sem_def SEMVMX_def op_ok_def op_of_def sop_def
        flag_contains_def SEM_UNDO_def const_op_def ops_alter_def)
  then show ?thesis using setval_zero_wakes [OF ok, of 0 1]
    by (simp add: Let_def proceeds_def op_of_def sop_def)
qed


end
