(* ===== verification/Sched_Policy.thy ===== *)
theory Sched_Policy
  imports Prelude
begin

text \<open>
  Scheduling policies and attributes: \<open>kernel/src/sched/nice.rs\<close>, \<open>kernel/src/sched/sched_class/policy.rs\<close>,
  the attributes of \<open>fair.rs\<close>, \<open>real_time.rs\<close> and \<open>mod.rs\<close>, the clocks of \<open>time.rs\<close>, and the scheduling
  system calls of \<open>kernel/src/syscall/sched_*.rs\<close> that read and write them.

  Ranged integers are integers that the constructors keep within their range. Times, runtimes and
  the total weight are naturals with checked 64-bit arithmetic; the weight of a thread is a word,
  since its top bit is a flag that another thread sets.
\<close>

section \<open>Ranged integers and policies\<close>

definition ranged_new :: "int \<Rightarrow> int \<Rightarrow> int \<Rightarrow> int result" where
  "ranged_new lo hi v = rbind (rassert (lo \<le> v \<and> v \<le> hi)) (\<lambda>_. Inr v)"

definition ranged_try_from :: "int \<Rightarrow> int \<Rightarrow> int \<Rightarrow> int option" where
  "ranged_try_from lo hi v = (if v < lo \<or> v > hi then None else Some v)"

definition NICE_MIN :: int where "NICE_MIN = - 20"
definition NICE_MAX :: int where "NICE_MAX = 19"

definition RT_PRIO_MIN :: int where "RT_PRIO_MIN = 1"
definition RT_PRIO_MAX :: int where "RT_PRIO_MAX = 99"

datatype real_time_policy = Fifo | RoundRobin (base_slice_factor: "nat option")

datatype sched_policy = Stop | RealTime int real_time_policy | Fair int | Idle

datatype sched_policy_kind = KStop | KRealTime | KFair | KIdle

fun policy_kind :: "sched_policy \<Rightarrow> sched_policy_kind" where
  "policy_kind Stop = KStop"
| "policy_kind (RealTime _ _) = KRealTime"
| "policy_kind (Fair _) = KFair"
| "policy_kind Idle = KIdle"

text \<open>The derived order of \<open>SchedPolicy\<close>: by variant, then by the fields in order.\<close>

fun rt_policy_key :: "real_time_policy \<Rightarrow> nat" where
  "rt_policy_key Fifo = 0"
| "rt_policy_key (RoundRobin None) = 1"
| "rt_policy_key (RoundRobin (Some f)) = f + 2"

fun policy_less_eq :: "sched_policy \<Rightarrow> sched_policy \<Rightarrow> bool" where
  "policy_less_eq Stop _ = True"
| "policy_less_eq (RealTime p r) Stop = False"
| "policy_less_eq (RealTime p r) (RealTime p' r') =
     (p < p' \<or> p = p' \<and> rt_policy_key r \<le> rt_policy_key r')"
| "policy_less_eq (RealTime p r) _ = True"
| "policy_less_eq (Fair n) (Fair n') = (n \<le> n')"
| "policy_less_eq (Fair n) Idle = True"
| "policy_less_eq (Fair n) _ = False"
| "policy_less_eq Idle Idle = True"
| "policy_less_eq Idle _ = False"

lemma rt_policy_key_inj: "rt_policy_key r = rt_policy_key r' \<Longrightarrow> r = r'"
  by (cases r rule: rt_policy_key.cases; cases r' rule: rt_policy_key.cases) auto

instantiation sched_policy :: linorder
begin

definition less_eq_sched_policy :: "sched_policy \<Rightarrow> sched_policy \<Rightarrow> bool" where
  "less_eq_sched_policy = policy_less_eq"

definition less_sched_policy :: "sched_policy \<Rightarrow> sched_policy \<Rightarrow> bool" where
  "less_sched_policy p q \<longleftrightarrow> policy_less_eq p q \<and> \<not> policy_less_eq q p"

instance
proof
  fix x y z :: sched_policy
  show "x < y \<longleftrightarrow> x \<le> y \<and> \<not> y \<le> x" by (simp add: less_eq_sched_policy_def less_sched_policy_def)
  show "x \<le> x" by (cases x) (auto simp: less_eq_sched_policy_def)
  show "x \<le> y \<Longrightarrow> y \<le> z \<Longrightarrow> x \<le> z"
    by (cases x; cases y; cases z) (auto simp: less_eq_sched_policy_def)
  show "x \<le> y \<Longrightarrow> y \<le> x \<Longrightarrow> x = y"
    by (cases x; cases y) (auto simp: less_eq_sched_policy_def dest: rt_policy_key_inj)
  show "x \<le> y \<or> y \<le> x"
    by (cases x; cases y) (auto simp: less_eq_sched_policy_def)
qed

end

text \<open>\<open>SchedPolicyState\<close>: the policy and a copy of its kind. \<open>set\<close> also returns the policy that it
  hands to the closure.\<close>

record policy_state =
  ps_kind :: sched_policy_kind
  ps_policy :: sched_policy

definition policy_state_new :: "sched_policy \<Rightarrow> policy_state" where
  "policy_state_new p = \<lparr>ps_kind = policy_kind p, ps_policy = p\<rparr>"

fun keep_slice_factor :: "sched_policy \<Rightarrow> sched_policy \<Rightarrow> sched_policy" where
  "keep_slice_factor (RealTime _ (RoundRobin slot)) (RealTime prio (RoundRobin f)) =
     RealTime prio (RoundRobin (case slot of Some _ \<Rightarrow> slot | None \<Rightarrow> f))"
| "keep_slice_factor _ p = p"

definition policy_state_set :: "sched_policy \<Rightarrow> policy_state \<Rightarrow> policy_state" where
  "policy_state_set p ps =
     (let p' = keep_slice_factor (ps_policy ps) p in \<lparr>ps_kind = policy_kind p', ps_policy = p'\<rparr>)"

text \<open>\<open>update\<close>: the closure changes the policy in place and may fail.\<close>

definition policy_state_update :: "sched_policy \<Rightarrow> policy_state \<Rightarrow> policy_state" where
  "policy_state_update p ps = ps\<lparr>ps_policy := p\<rparr>"

section \<open>Clocks\<close>

text \<open>The loop of \<open>tsc_factors\<close>.\<close>

function tsc_loop :: "nat \<Rightarrow> nat \<Rightarrow> nat \<times> nat" where
  "tsc_loop a b = (if a > 1 \<and> b > 1 then tsc_loop b (a mod b) else (a, b))"
  by auto
termination by (relation "measure snd") auto

declare tsc_loop.simps [simp del]

definition tsc_factors :: "nat \<Rightarrow> (nat \<times> nat) result" where
  "tsc_factors freq =
     rbind (rassert (freq \<noteq> 0)) (\<lambda>_.
       let (a, b) = (if 1000000000 < freq then (freq, 1000000000) else (1000000000, freq));
           (a', b') = tsc_loop a b;
           g = (if a' \<le> 1 then b' else a')
       in rbind (rassert (g \<noteq> 0)) (\<lambda>_. Inr (1000000000 div g, freq div g)))"

definition BASE_SLICE_NS :: nat where "BASE_SLICE_NS = 750000"
definition MIN_PERIOD_NS :: nat where "MIN_PERIOD_NS = 6000000"

text \<open>What the scheduler reads of the machine: the two time constants in clock units, and the number
  of CPUs.\<close>

record sched_cfg =
  base_slice_clocks :: nat
  min_period_clocks :: nat
  num_cpus :: nat

definition udiv :: "nat \<Rightarrow> nat \<Rightarrow> nat result" where
  "udiv a b = (if b = 0 then Inl Panic else Inr (a div b))"

definition sched_cfg_of :: "nat \<Rightarrow> nat \<Rightarrow> sched_cfg result" where
  "sched_cfg_of freq ncpus =
     rbind (tsc_factors freq) (\<lambda>(a, b).
     rbind (umul BASE_SLICE_NS b) (\<lambda>x. rbind (udiv x a) (\<lambda>base.
     rbind (umul MIN_PERIOD_NS b) (\<lambda>y. rbind (udiv y a) (\<lambda>mp.
       Inr \<lparr>base_slice_clocks = base, min_period_clocks = mp, num_cpus = ncpus\<rparr>)))))"

section \<open>Attributes\<close>

definition WEIGHT_0 :: nat where "WEIGHT_0 = 1024"

definition HAS_PENDING :: "64 word" where "HAS_PENDING = push_bit 63 1"

definition nice_weight :: "int \<Rightarrow> nat" where
  "nice_weight nice =
     (if nice = 0 then WEIGHT_0
      else if nice \<ge> 1 then WEIGHT_0 * 4 ^ nat nice div 5 ^ nat nice
      else WEIGHT_0 * 5 ^ nat (- nice) div 4 ^ nat (- nice))"

definition NICE_TO_WEIGHT :: "nat list" where
  "NICE_TO_WEIGHT = map nice_weight [NICE_MIN..NICE_MAX]"

definition nice_to_weight :: "int \<Rightarrow> 64 word result" where
  "nice_to_weight nice =
     (if 0 \<le> nice + 20 \<and> nat (nice + 20) < length NICE_TO_WEIGHT
      then Inr (word_of_nat (NICE_TO_WEIGHT ! nat (nice + 20))) else Inl Panic)"

record fair_attr =
  weight :: "64 word"
  pending_weight :: "64 word"
  vruntime :: nat

definition fair_attr_new :: "int \<Rightarrow> fair_attr result" where
  "fair_attr_new nice =
     rbind (nice_to_weight nice) (\<lambda>w. Inr \<lparr>weight = w, pending_weight = 0, vruntime = 0\<rparr>)"

definition fair_attr_update :: "int \<Rightarrow> fair_attr \<Rightarrow> fair_attr result" where
  "fair_attr_update nice a =
     rbind (nice_to_weight nice) (\<lambda>w. Inr (a\<lparr>pending_weight := w, weight := weight a OR HAS_PENDING\<rparr>))"

definition update_vruntime :: "nat \<Rightarrow> nat \<Rightarrow> fair_attr \<Rightarrow> (nat \<times> fair_attr) result" where
  "update_vruntime delta w a =
     rbind (umul delta WEIGHT_0) (\<lambda>x. rbind (udiv x w) (\<lambda>d.
     rbind (uadd (vruntime a) d) (\<lambda>v. Inr (v, a\<lparr>vruntime := v\<rparr>))))"

text \<open>\<open>fetch_weight\<close> when no other thread is in \<open>update\<close>; the loop with its interleavings is below.\<close>

definition fetch_weight :: "fair_attr \<Rightarrow> (64 word \<times> 64 word) \<times> fair_attr" where
  "fetch_weight a =
     (if weight a AND HAS_PENDING = 0 then ((weight a, weight a), a)
      else ((weight a AND NOT HAS_PENDING, pending_weight a), a\<lparr>weight := pending_weight a\<rparr>))"

definition DEFAULT_BASE_SLICE_FACTOR :: nat where "DEFAULT_BASE_SLICE_FACTOR = 20"

fun to_time_slice :: "sched_cfg \<Rightarrow> real_time_policy \<Rightarrow> nat result" where
  "to_time_slice cfg (RoundRobin f) =
     umul (base_slice_clocks cfg) (case f of None \<Rightarrow> DEFAULT_BASE_SLICE_FACTOR | Some x \<Rightarrow> x)"
| "to_time_slice cfg Fifo = Inr 0"

record real_time_attr =
  prio :: nat
  time_slice :: nat

definition real_time_attr_new :: "sched_cfg \<Rightarrow> int \<Rightarrow> real_time_policy \<Rightarrow> real_time_attr result" where
  "real_time_attr_new cfg p r =
     rbind (to_time_slice cfg r) (\<lambda>ts. Inr \<lparr>prio = nat p, time_slice = ts\<rparr>)"

record sched_attr =
  policy :: policy_state
  last_cpu :: "nat option"
  real_time :: real_time_attr
  fair :: fair_attr

definition sched_attr_new :: "sched_cfg \<Rightarrow> sched_policy \<Rightarrow> sched_attr result" where
  "sched_attr_new cfg p =
     rbind (case p of RealTime rt_prio rt_policy \<Rightarrow> real_time_attr_new cfg rt_prio rt_policy
            | _ \<Rightarrow> real_time_attr_new cfg RT_PRIO_MAX (RoundRobin None)) (\<lambda>rt.
     rbind (fair_attr_new (case p of Fair nice \<Rightarrow> nice | _ \<Rightarrow> 0)) (\<lambda>f.
       Inr \<lparr>policy = policy_state_new p, last_cpu = None, real_time = rt, fair = f\<rparr>))"

text \<open>What \<open>set_policy\<close> and \<open>update_policy\<close> do to the attributes of the classes.\<close>

definition apply_policy :: "sched_cfg \<Rightarrow> sched_policy \<Rightarrow> sched_attr \<Rightarrow> sched_attr result" where
  "apply_policy cfg p attr =
     (case p of
        RealTime rt_prio rt_policy \<Rightarrow>
          rbind (real_time_attr_new cfg rt_prio rt_policy) (\<lambda>rt. Inr (attr\<lparr>real_time := rt\<rparr>))
      | Fair nice \<Rightarrow> rbind (fair_attr_update nice (fair attr)) (\<lambda>f. Inr (attr\<lparr>fair := f\<rparr>))
      | _ \<Rightarrow> Inr attr)"

definition set_policy :: "sched_cfg \<Rightarrow> sched_policy \<Rightarrow> sched_attr \<Rightarrow> sched_attr result" where
  "set_policy cfg p attr =
     (let ps = policy_state_set p (policy attr) in
      rbind (apply_policy cfg (ps_policy ps) attr) (\<lambda>attr'. Inr (attr'\<lparr>policy := ps\<rparr>)))"

text \<open>\<open>update_policy\<close> applies the policy also when the closure returns an error, which is handed on
  with the attributes.\<close>

definition update_policy ::
  "sched_cfg \<Rightarrow> (sched_policy \<Rightarrow> unit result \<times> sched_policy) \<Rightarrow> sched_attr \<Rightarrow> (unit result \<times> sched_attr) result" where
  "update_policy cfg f attr =
     (let (ret, p) = f (ps_policy (policy attr)) in
      rbind (apply_policy cfg p attr) (\<lambda>attr'.
        Inr (ret, attr'\<lparr>policy := policy_state_update p (policy attr)\<rparr>)))"

section \<open>System calls\<close>

definition SCHED_NORMAL :: nat where "SCHED_NORMAL = 0"
definition SCHED_FIFO :: nat where "SCHED_FIFO = 1"
definition SCHED_RR :: nat where "SCHED_RR = 2"
definition SCHED_IDLE :: nat where "SCHED_IDLE = 5"

text \<open>The fields of \<open>LinuxSchedAttr\<close> that carry a value; the others are 0.\<close>

record linux_sched_attr =
  sched_policy :: nat
  sched_nice :: int
  sched_priority :: nat

definition rt_to_static :: "int \<Rightarrow> nat" where
  "rt_to_static p = nat (100 - p)"

definition static_to_rt :: "nat \<Rightarrow> int result" where
  "static_to_rt p =
     (if rt_to_static RT_PRIO_MAX \<le> p \<and> p \<le> rt_to_static RT_PRIO_MIN
      then ranged_new RT_PRIO_MIN RT_PRIO_MAX (100 - int p) else Inl (Errno EINVAL))"

definition SCHED_PRIORITY_RANGE :: "(nat \<times> nat) list" where
  "SCHED_PRIORITY_RANGE =
     (let rt = (rt_to_static RT_PRIO_MAX, rt_to_static RT_PRIO_MIN)
      in [(0, 0), rt, rt, (0, 0), (0, 0), (0, 0), (0, 0), (0, 0)])"

definition sys_sched_get_priority_max :: "nat \<Rightarrow> nat result" where
  "sys_sched_get_priority_max p =
     (if p < length SCHED_PRIORITY_RANGE then Inr (snd (SCHED_PRIORITY_RANGE ! p)) else Inl (Errno EINVAL))"

definition sys_sched_get_priority_min :: "nat \<Rightarrow> nat result" where
  "sys_sched_get_priority_min p =
     (if p < length SCHED_PRIORITY_RANGE then Inr (fst (SCHED_PRIORITY_RANGE ! p)) else Inl (Errno EINVAL))"

fun attr_of_policy :: "sched_policy \<Rightarrow> linux_sched_attr result" where
  "attr_of_policy Stop = Inr \<lparr>sched_policy = SCHED_FIFO, sched_nice = 0, sched_priority = 99\<rparr>"
| "attr_of_policy (RealTime p r) =
     Inr \<lparr>sched_policy = (case r of Fifo \<Rightarrow> SCHED_FIFO | RoundRobin _ \<Rightarrow> SCHED_RR),
          sched_nice = 0, sched_priority = rt_to_static p\<rparr>"
| "attr_of_policy (Fair nice) =
     (if nice = NICE_MAX then Inr \<lparr>sched_policy = SCHED_IDLE, sched_nice = 0, sched_priority = 0\<rparr>
      else Inr \<lparr>sched_policy = SCHED_NORMAL, sched_nice = nice, sched_priority = 0\<rparr>)"
| "attr_of_policy Idle = Inl (Errno EACCES)"

definition policy_of_attr :: "linux_sched_attr \<Rightarrow> sched_policy result" where
  "policy_of_attr v =
     (if sched_policy v = SCHED_FIFO \<or> sched_policy v = SCHED_RR then
        rbind (static_to_rt (sched_priority v)) (\<lambda>p.
          Inr (RealTime p (if sched_policy v = SCHED_FIFO then Fifo else RoundRobin None)))
      else if sched_priority v \<noteq> 0 then Inl (Errno EINVAL)
      else if sched_policy v = SCHED_NORMAL then
        (if \<not> (- 128 \<le> sched_nice v \<and> sched_nice v \<le> 127) then Inl (Errno EINVAL)
         else case ranged_try_from NICE_MIN NICE_MAX (sched_nice v) of
           Some n \<Rightarrow> Inr (Fair n) | None \<Rightarrow> Inl (Errno EINVAL))
      else if sched_policy v = SCHED_IDLE then Inr (Fair NICE_MAX)
      else Inl (Errno EINVAL))"

text \<open>The thread that a call addresses, out of the attributes of all threads: 0 is the caller.\<close>

definition access_sched_attr_with ::
  "nat \<Rightarrow> (nat \<rightharpoonup> sched_attr) \<Rightarrow> nat \<Rightarrow> (sched_attr \<Rightarrow> ('r \<times> sched_attr) result) \<Rightarrow>
    ('r \<times> (nat \<rightharpoonup> sched_attr)) result" where
  "access_sched_attr_with cur attrs tid f =
     (let t = (if tid = 0 then cur else tid) in
      if tid > 2 ^ 31 - 1 then Inl (Errno EINVAL)
      else case attrs t of
        None \<Rightarrow> Inl (Errno ESRCH)
      | Some attr \<Rightarrow> rbind (f attr) (\<lambda>(r, attr'). Inr (r, attrs(t \<mapsto> attr'))))"

definition sys_sched_setattr ::
  "sched_cfg \<Rightarrow> nat \<Rightarrow> nat \<Rightarrow> linux_sched_attr \<Rightarrow> nat \<Rightarrow> (nat \<rightharpoonup> sched_attr) \<Rightarrow>
    (unit \<times> (nat \<rightharpoonup> sched_attr)) result" where
  "sys_sched_setattr cfg cur tid v flags attrs =
     (if flags \<noteq> 0 then Inl (Errno EINVAL)
      else rbind (policy_of_attr v) (\<lambda>p.
        access_sched_attr_with cur attrs tid (\<lambda>attr. rbind (set_policy cfg p attr) (\<lambda>attr'. Inr ((), attr')))))"

definition sys_sched_setscheduler ::
  "sched_cfg \<Rightarrow> nat \<Rightarrow> nat \<Rightarrow> nat \<Rightarrow> nat \<Rightarrow> (nat \<rightharpoonup> sched_attr) \<Rightarrow> (unit \<times> (nat \<rightharpoonup> sched_attr)) result" where
  "sys_sched_setscheduler cfg cur tid pol pri attrs =
     rbind (policy_of_attr \<lparr>sched_policy = pol, sched_nice = 0, sched_priority = pri\<rparr>) (\<lambda>p.
       access_sched_attr_with cur attrs tid (\<lambda>attr. rbind (set_policy cfg p attr) (\<lambda>attr'. Inr ((), attr'))))"

definition sys_sched_getattr ::
  "nat \<Rightarrow> nat \<Rightarrow> nat \<Rightarrow> (nat \<rightharpoonup> sched_attr) \<Rightarrow> linux_sched_attr result" where
  "sys_sched_getattr cur tid flags attrs =
     (if flags \<noteq> 0 then Inl (Errno EINVAL)
      else rbind (access_sched_attr_with cur attrs tid (\<lambda>attr. Inr (ps_policy (policy attr), attr)))
        (\<lambda>(p, _). attr_of_policy p))"

definition setparam_closure :: "int \<Rightarrow> sched_policy \<Rightarrow> unit result \<times> sched_policy" where
  "setparam_closure pri p =
     (case p of
        RealTime rt_prio r \<Rightarrow>
          if \<not> (0 \<le> pri \<and> pri \<le> 255) then (Inl (Errno EINVAL), p)
          else (case ranged_try_from RT_PRIO_MIN RT_PRIO_MAX pri of
            Some q \<Rightarrow> (Inr (), RealTime q r) | None \<Rightarrow> (Inl (Errno EINVAL), p))
      | _ \<Rightarrow> if pri \<noteq> 0 then (Inl (Errno EINVAL), p) else (Inr (), p))"

text \<open>The result of the closure is the result of the call; the attributes are applied either way.\<close>

definition sys_sched_setparam ::
  "sched_cfg \<Rightarrow> nat \<Rightarrow> nat \<Rightarrow> int \<Rightarrow> (nat \<rightharpoonup> sched_attr) \<Rightarrow> (unit result \<times> (nat \<rightharpoonup> sched_attr)) result" where
  "sys_sched_setparam cfg cur tid pri attrs =
     access_sched_attr_with cur attrs tid (update_policy cfg (setparam_closure pri))"

definition sys_sched_getparam :: "nat \<Rightarrow> nat \<Rightarrow> (nat \<rightharpoonup> sched_attr) \<Rightarrow> int result" where
  "sys_sched_getparam cur tid attrs =
     rbind (access_sched_attr_with cur attrs tid (\<lambda>attr. Inr (ps_policy (policy attr), attr)))
       (\<lambda>(p, _). Inr (case p of RealTime q _ \<Rightarrow> q | _ \<Rightarrow> 0))"

section \<open>Weights\<close>

lemma nice_weight_all:
  "list_all (\<lambda>nice. 0 < nice_weight nice \<and> nice_weight nice < 2 ^ 17) [NICE_MIN..NICE_MAX]"
  "list_all (\<lambda>nice. nice_weight (nice + 1) < nice_weight nice) [NICE_MIN..NICE_MAX - 1]"
  by (simp_all add: nice_weight_def WEIGHT_0_def NICE_MIN_def NICE_MAX_def upto_rec1 [of "- 1"] upto_rec1 [of 0]
      upto_rec1 [of 1])

lemma nice_weight_bounds:
  assumes "NICE_MIN \<le> nice" "nice \<le> NICE_MAX"
  shows "0 < nice_weight nice" "nice_weight nice < 2 ^ 17"
  using nice_weight_all(1) assms by (auto simp: list_all_iff)

lemma nice_weight_decreasing:
  assumes "NICE_MIN \<le> n" "n < m" "m \<le> NICE_MAX"
  shows "nice_weight m < nice_weight n"
  using assms(2,3)
proof (induction rule: int_gr_induct)
  case base
  then show ?case using nice_weight_all(2) assms(1) by (auto simp: list_all_iff)
next
  case (step i)
  then have "nice_weight (i + 1) < nice_weight i"
    using nice_weight_all(2) assms(1) by (auto simp: list_all_iff)
  then show ?case using step by simp
qed

lemma nice_to_weight_ok:
  assumes "NICE_MIN \<le> nice" "nice \<le> NICE_MAX"
  shows "nice_to_weight nice = Inr (word_of_nat (nice_weight nice))"
  using assms by (simp add: nice_to_weight_def NICE_TO_WEIGHT_def NICE_MIN_def NICE_MAX_def del: upto_rec_numeral)

lemma unat_nice_weight [simp]:
  assumes "NICE_MIN \<le> nice" "nice \<le> NICE_MAX"
  shows "unat (word_of_nat (nice_weight nice) :: 64 word) = nice_weight nice"
  using nice_weight_bounds [OF assms] by (simp add: unat_of_nat)

text \<open>Words without the flag.\<close>

definition plain :: "64 word \<Rightarrow> bool" where
  "plain w \<longleftrightarrow> w AND HAS_PENDING = 0"

lemma bit_HAS_PENDING [simp]: "bit HAS_PENDING n \<longleftrightarrow> n = 63"
  unfolding HAS_PENDING_def bit_push_bit_iff by (auto simp: bit_1_iff)

lemma plain_bit: "plain w \<longleftrightarrow> \<not> bit w 63"
  unfolding plain_def bit_eq_iff [of "w AND HAS_PENDING"] by (auto simp: bit_and_iff dest: spec [of _ 63])

lemma plain_0 [simp]: "plain 0"
  by (simp add: plain_bit)

lemma plain_clear [simp]: "plain (w AND NOT HAS_PENDING)"
  by (simp add: plain_bit bit_and_iff bit_not_iff)

lemma not_plain_or [simp]: "\<not> plain (w OR HAS_PENDING)"
  by (simp add: plain_bit bit_or_iff)

lemma clear_plain [simp]: "plain w \<Longrightarrow> w AND NOT HAS_PENDING = w"
  by (rule bit_word_eqI) (auto simp: plain_bit bit_and_iff bit_not_iff)

lemma clear_or [simp]: "(w OR HAS_PENDING) AND NOT HAS_PENDING = w AND NOT HAS_PENDING"
  by (rule bit_word_eqI) (auto simp: bit_and_iff bit_not_iff bit_or_iff)

lemma or_not_plain [simp]: "\<not> plain w \<Longrightarrow> w OR HAS_PENDING = w"
  by (rule bit_word_eqI) (auto simp: plain_bit bit_or_iff)

lemma plain_nice_weight [simp]:
  assumes "NICE_MIN \<le> nice" "nice \<le> NICE_MAX"
  shows "plain (word_of_nat (nice_weight nice))"
  using nice_weight_bounds [OF assms] by (simp add: plain_bit bit_of_nat_iff bit_iff_odd [of "nice_weight nice"])

section \<open>Changing the weight of a running thread\<close>

text \<open>
  \<open>FairAttr::update\<close> and \<open>FairAttr::fetch_weight\<close> as the atomic accesses they consist of. The lock of the
  policy admits one updater at a time and the lock of the run queue one fetcher. \<open>UStored\<close> stands
  between the two stores of \<open>update\<close>; \<open>FLoaded\<close> and \<open>FReady\<close> before the load of the pending weight and
  before the \<open>compare_exchange_weak\<close>, which may fail without reason. \<open>fetched\<close> lists the results of
  \<open>fetch_weight\<close>, the latest first, and \<open>wanted\<close> is the weight last asked for.
\<close>

datatype update_pc = UIdle | UStored

datatype fetch_pc = FIdle | FLoaded "64 word" | FReady "64 word" "64 word"

record weight_state =
  wt :: "64 word"
  pending :: "64 word"
  upc :: update_pc
  fpc :: fetch_pc
  fetched :: "(64 word \<times> 64 word) list"
  wanted :: "64 word"

definition weight_init :: "64 word \<Rightarrow> weight_state" where
  "weight_init w = \<lparr>wt = w, pending = 0, upc = UIdle, fpc = FIdle, fetched = [], wanted = w\<rparr>"

inductive weight_step :: "weight_state \<Rightarrow> weight_state \<Rightarrow> bool" where
  store: "upc s = UIdle \<Longrightarrow> plain w \<Longrightarrow>
    weight_step s (s\<lparr>pending := w, upc := UStored, wanted := w\<rparr>)"
| flag: "upc s = UStored \<Longrightarrow> weight_step s (s\<lparr>wt := wt s OR HAS_PENDING, upc := UIdle\<rparr>)"
| load_plain: "fpc s = FIdle \<Longrightarrow> wt s AND HAS_PENDING = 0 \<Longrightarrow>
    weight_step s (s\<lparr>fetched := (wt s, wt s) # fetched s\<rparr>)"
| load_flag: "fpc s = FIdle \<Longrightarrow> wt s AND HAS_PENDING \<noteq> 0 \<Longrightarrow> weight_step s (s\<lparr>fpc := FLoaded (wt s)\<rparr>)"
| load_pending: "fpc s = FLoaded w \<Longrightarrow> weight_step s (s\<lparr>fpc := FReady w (pending s)\<rparr>)"
| exchange: "fpc s = FReady w n \<Longrightarrow> wt s = w \<Longrightarrow>
    weight_step s (s\<lparr>wt := n, fpc := FIdle, fetched := (w AND NOT HAS_PENDING, n) # fetched s\<rparr>)"
| fail_plain: "fpc s = FReady w n \<Longrightarrow> wt s AND HAS_PENDING = 0 \<Longrightarrow>
    weight_step s (s\<lparr>fpc := FIdle, fetched := (wt s, wt s) # fetched s\<rparr>)"
| fail_flag: "fpc s = FReady w n \<Longrightarrow> wt s AND HAS_PENDING \<noteq> 0 \<Longrightarrow>
    weight_step s (s\<lparr>fpc := FLoaded (wt s)\<rparr>)"

inductive weight_reachable :: "64 word \<Rightarrow> weight_state \<Rightarrow> bool" for w0 where
  init: "weight_reachable w0 (weight_init w0)"
| step: "weight_reachable w0 s \<Longrightarrow> weight_step s s' \<Longrightarrow> weight_reachable w0 s'"

text \<open>The old weight of every fetch is the new weight of the fetch before it.\<close>

fun chained :: "64 word \<Rightarrow> (64 word \<times> 64 word) list \<Rightarrow> bool" where
  "chained w0 [] = True"
| "chained w0 ((old, new) # fs) = (old = (case fs of [] \<Rightarrow> w0 | (_, n) # _ \<Rightarrow> n) \<and> plain new \<and> chained w0 fs)"

definition last_fetched :: "64 word \<Rightarrow> weight_state \<Rightarrow> 64 word" where
  "last_fetched w0 s = (case fetched s of [] \<Rightarrow> w0 | (_, n) # _ \<Rightarrow> n)"

definition weight_inv :: "64 word \<Rightarrow> weight_state \<Rightarrow> bool" where
  "weight_inv w0 s \<longleftrightarrow> chained w0 (fetched s) \<and> plain (pending s) \<and>
     wt s AND NOT HAS_PENDING = last_fetched w0 s \<and>
     (case fpc s of FReady w n \<Rightarrow> plain n \<and> \<not> plain w | FLoaded w \<Rightarrow> \<not> plain w | FIdle \<Rightarrow> True)"

lemma weight_inv_reachable:
  assumes "weight_reachable w0 s" "plain w0"
  shows "weight_inv w0 s"
  using assms(1)
proof induction
  case init
  then show ?case
    using assms(2) by (simp add: weight_inv_def weight_init_def last_fetched_def plain_def)
next
  case (step s s')
  from step(2,3) show ?case
    by cases (auto simp: weight_inv_def last_fetched_def plain_def [symmetric])
qed

section \<open>Clocks are computed\<close>

lemma tsc_loop_result:
  assumes "tsc_loop a b = (a', b')" "b \<le> a" "0 < b"
  shows "b' \<le> 1 \<and> 0 < a' \<and> (b' = 0 \<longrightarrow> 1 < a') \<and> gcd a' b' = gcd a b \<and> (1 < b \<longrightarrow> a' \<le> b) \<and> a' \<le> a"
  using assms
proof (induction a b arbitrary: a' b' rule: tsc_loop.induct)
  case (1 a b)
  show ?case
  proof (cases "a > 1 \<and> b > 1")
    case True
    then have eq: "tsc_loop b (a mod b) = (a', b')" using 1(2) by (subst (asm) tsc_loop.simps) simp
    show ?thesis
    proof (cases "a mod b = 0")
      case z: True
      then have "(a', b') = (b, 0)" using eq by (subst (asm) tsc_loop.simps) simp
      then show ?thesis using True z 1(3) by (auto simp: gcd_nat.absorb2 mod_0_imp_dvd)
    next
      case False
      have "gcd b (a mod b) = gcd a b" by (metis gcd.commute gcd_red_nat)
      then show ?thesis using 1(1) [OF True eq] True False 1(3)
        by (auto intro: order.trans mod_less_divisor less_imp_le)
    qed
  next
    case False
    then show ?thesis using 1(2-4) by (subst (asm) tsc_loop.simps) auto
  qed
qed

lemma tsc_factors_result:
  assumes "freq \<noteq> 0"
  shows "\<exists>g. tsc_factors freq = Inr (10 ^ 9 div g, freq div g) \<and> 0 < g \<and> g \<le> 10 ^ 9 \<and>
    (gcd (10 ^ 9) freq \<noteq> 1 \<longrightarrow> g = gcd (10 ^ 9) freq)"
proof -
  define a b :: nat where "a = max freq (10 ^ 9)" and "b = min freq (10 ^ 9)"
  obtain a' b' where l: "tsc_loop a b = (a', b')" by (cases "tsc_loop a b")
  let ?g = "if a' \<le> 1 then b' else a'"
  have R: "b' \<le> 1" "0 < a'" "b' = 0 \<longrightarrow> 1 < a'" "gcd a' b' = gcd a b" "1 < b \<longrightarrow> a' \<le> b"
    using tsc_loop_result [OF l] assms by (auto simp: a_def b_def)
  have gcd: "gcd a b = gcd (10 ^ 9) freq" by (auto simp: a_def b_def max_def min_def gcd.commute)
  have g: "0 < ?g" "gcd (10 ^ 9) freq \<noteq> 1 \<longrightarrow> ?g = gcd (10 ^ 9) freq"
  proof -
    show "0 < ?g" using R by (cases "b' = 0") auto
    show "gcd (10 ^ 9) freq \<noteq> 1 \<longrightarrow> ?g = gcd (10 ^ 9) freq"
      using R gcd by (cases "b' = 0") (auto simp: le_Suc_eq)
  qed
  have le: "?g \<le> 10 ^ 9"
  proof (cases "1 < b")
    case True
    then show ?thesis using R by (auto simp: b_def)
  next
    case False
    then have "freq = 1" using assms by (auto simp: b_def min_def split: if_splits)
    then have "tsc_loop a b = (10 ^ 9, 1)" by (simp add: a_def b_def tsc_loop.simps)
    then show ?thesis using l by simp
  qed
  have "(if 1000000000 < freq then (freq, 1000000000) else (1000000000, freq)) = (a, b)"
    by (auto simp: a_def b_def)
  then have "tsc_factors freq = Inr (10 ^ 9 div ?g, freq div ?g)"
    using assms l g(1) by (simp add: tsc_factors_def)
  then show ?thesis using g le by - (rule exI [of _ ?g], rule conjI, assumption, rule conjI, assumption, rule conjI)
qed

lemma scaled_div: "(g :: nat) dvd a \<Longrightarrow> g dvd f \<Longrightarrow> x * (f div g) div (a div g) = x * f div a"
  by (cases "g = 0") (auto simp: dvd_def div_mult_mult1 mult.left_commute)

section \<open>Attributes follow the policy\<close>

fun policy_ok :: "sched_policy \<Rightarrow> bool" where
  "policy_ok (RealTime p r) = (RT_PRIO_MIN \<le> p \<and> p \<le> RT_PRIO_MAX \<and>
     (case r of RoundRobin (Some f) \<Rightarrow> 0 < f \<and> f < 2 ^ 32 | _ \<Rightarrow> True))"
| "policy_ok (Fair n) = (NICE_MIN \<le> n \<and> n \<le> NICE_MAX)"
| "policy_ok _ = True"

definition attr_ok :: "sched_cfg \<Rightarrow> sched_attr \<Rightarrow> bool" where
  "attr_ok cfg attr \<longleftrightarrow> policy_ok (ps_policy (policy attr)) \<and>
     ps_kind (policy attr) = policy_kind (ps_policy (policy attr)) \<and>
     plain (pending_weight (fair attr)) \<and>
     1 \<le> prio (real_time attr) \<and> prio (real_time attr) \<le> 99 \<and>
     (case ps_policy (policy attr) of
        RealTime p r \<Rightarrow> prio (real_time attr) = nat p \<and> to_time_slice cfg r = Inr (time_slice (real_time attr))
      | Fair n \<Rightarrow> snd (fst (fetch_weight (fair attr))) = word_of_nat (nice_weight n)
      | _ \<Rightarrow> True)"

lemma keep_slice_factor_ok: "policy_ok p \<Longrightarrow> policy_ok q \<Longrightarrow> policy_ok (keep_slice_factor p q)"
  by (induction p q rule: keep_slice_factor.induct) (auto split: option.splits)

lemma fetch_after_update:
  assumes "fair_attr_update n a = Inr f" "NICE_MIN \<le> n" "n \<le> NICE_MAX"
  shows "snd (fst (fetch_weight f)) = word_of_nat (nice_weight n) \<and> plain (pending_weight f)"
  using assms not_plain_or [of "weight a"]
  by (auto simp: fair_attr_update_def nice_to_weight_ok fetch_weight_def plain_def [symmetric])

lemma apply_policy_ok:
  assumes "policy_ok p" "apply_policy cfg p attr = Inr attr'" "plain (pending_weight (fair attr))"
    "1 \<le> prio (real_time attr)" "prio (real_time attr) \<le> 99"
  shows "attr_ok cfg (attr'\<lparr>policy := \<lparr>ps_kind = policy_kind p, ps_policy = p\<rparr>\<rparr>)"
  using assms
  by (cases p) (auto simp: attr_ok_def apply_policy_def real_time_attr_new_def rust_simps RT_PRIO_MIN_def
      RT_PRIO_MAX_def dest: fetch_after_update)

lemma set_policy_ok:
  assumes "attr_ok cfg attr" "policy_ok p" "set_policy cfg p attr = Inr attr'"
  shows "attr_ok cfg attr'"
proof -
  let ?p = "keep_slice_factor (ps_policy (policy attr)) p"
  obtain attr1 where a: "apply_policy cfg ?p attr = Inr attr1"
    "attr' = attr1\<lparr>policy := \<lparr>ps_kind = policy_kind ?p, ps_policy = ?p\<rparr>\<rparr>"
    using assms(3) by (auto simp: set_policy_def policy_state_set_def Let_def rust_simps)
  have "policy_ok ?p" using assms by (auto simp: attr_ok_def intro: keep_slice_factor_ok)
  then show ?thesis unfolding a(2) using a(1) assms(1)
    by (intro apply_policy_ok) (auto simp: attr_ok_def)
qed

lemma setparam_closure_ok:
  assumes "policy_ok p"
  shows "policy_ok (snd (setparam_closure pri p)) \<and> policy_kind (snd (setparam_closure pri p)) = policy_kind p"
  using assms by (cases p) (auto simp: setparam_closure_def ranged_try_from_def)

lemma update_policy_ok:
  assumes "attr_ok cfg attr" "update_policy cfg (setparam_closure pri) attr = Inr (ret, attr')"
  shows "attr_ok cfg attr'"
proof -
  let ?p = "snd (setparam_closure pri (ps_policy (policy attr)))"
  have p: "policy_ok ?p" "policy_kind ?p = ps_kind (policy attr)"
    using setparam_closure_ok [of "ps_policy (policy attr)"] assms(1) by (auto simp: attr_ok_def)
  obtain attr1 where a: "apply_policy cfg ?p attr = Inr attr1"
    "attr' = attr1\<lparr>policy := \<lparr>ps_kind = policy_kind ?p, ps_policy = ?p\<rparr>\<rparr>"
    using assms(2) p(2)
    by (auto simp: update_policy_def policy_state_update_def Let_def rust_simps split: prod.splits)
  show ?thesis unfolding a(2) using a(1) p(1) assms(1)
    by (intro apply_policy_ok) (auto simp: attr_ok_def)
qed

lemma sched_attr_new_ok:
  assumes "policy_ok p" "sched_attr_new cfg p = Inr attr"
  shows "attr_ok cfg attr"
  using assms
  by (cases p) (auto simp: sched_attr_new_def attr_ok_def real_time_attr_new_def fair_attr_new_def
      policy_state_new_def rust_simps nice_to_weight_ok fetch_weight_def plain_def [symmetric] RT_PRIO_MIN_def
      RT_PRIO_MAX_def)

lemma static_to_rt_eq:
  "static_to_rt p = (if 1 \<le> p \<and> p \<le> 99 then Inr (100 - int p) else Inl (Errno EINVAL))"
  by (auto simp: static_to_rt_def rt_to_static_def RT_PRIO_MIN_def RT_PRIO_MAX_def ranged_new_def)

lemma policy_of_attr_ok: "policy_of_attr v = Inr p \<Longrightarrow> policy_ok p"
  by (auto simp: policy_of_attr_def static_to_rt_eq rust_simps ranged_try_from_def RT_PRIO_MIN_def
      RT_PRIO_MAX_def NICE_MIN_def NICE_MAX_def split: if_splits option.splits)

definition attrs_ok :: "sched_cfg \<Rightarrow> (nat \<rightharpoonup> sched_attr) \<Rightarrow> bool" where
  "attrs_ok cfg attrs \<longleftrightarrow> (\<forall>t attr. attrs t = Some attr \<longrightarrow> attr_ok cfg attr)"

lemma access_attrs_ok:
  assumes "attrs_ok cfg attrs" "access_sched_attr_with cur attrs tid f = Inr (r, attrs')"
    "\<And>a a' r. attr_ok cfg a \<Longrightarrow> f a = Inr (r, a') \<Longrightarrow> attr_ok cfg a'"
  shows "attrs_ok cfg attrs'"
proof -
  let ?t = "if tid = 0 then cur else tid"
  from assms(2) obtain a a' where a: "attrs ?t = Some a" "f a = Inr (r, a')" "attrs' = attrs(?t \<mapsto> a')"
    unfolding access_sched_attr_with_def Let_def
    by (cases "attrs ?t") (auto simp: rust_simps split: if_splits)
  have "attr_ok cfg a'" using assms(1,3) a(1,2) unfolding attrs_ok_def by blast
  then show ?thesis using assms(1) unfolding attrs_ok_def a(3) by (metis fun_upd_apply option.inject)
qed

lemma access_set_policy_ok:
  assumes "attrs_ok cfg attrs" "policy_ok p"
    "access_sched_attr_with cur attrs tid (\<lambda>attr. rbind (set_policy cfg p attr) (\<lambda>attr'. Inr ((), attr'))) =
      Inr (u, attrs')"
  shows "attrs_ok cfg attrs'"
  using assms(1,3) by (rule access_attrs_ok) (use assms(2) set_policy_ok in \<open>auto simp: rust_simps\<close>)

section \<open>Properties\<close>

text \<open>C21. A weight that is changed while the thread runs. In every interleaving of one \<open>update\<close> and one
  \<open>fetch_weight\<close> at a time, the old weight that a fetch returns is the new weight that the fetch
  before it returned (or the initial weight), so a run queue that subtracts the old weight subtracts
  what it added; no returned weight carries the flag, and the weight word without its flag is
  always the last one returned.\<close>

theorem weight_fetches_chain:
  assumes "weight_reachable w0 s" "plain w0"
  shows "chained w0 (fetched s) \<and> wt s AND NOT HAS_PENDING = last_fetched w0 s"
  using weight_inv_reachable [OF assms] by (simp add: weight_inv_def)

theorem weight_fetches_chain_witness:
  "\<exists>s. weight_reachable 1024 s \<and> plain 1024 \<and> fetched s = [(1024, 820), (1024, 1024)] \<and>
     chained 1024 (fetched s) \<and> wt s AND NOT HAS_PENDING = last_fetched 1024 s"
proof -
  let ?s0 = "weight_init 1024"
  let ?s1 = "?s0\<lparr>fetched := [(1024, 1024)]\<rparr>"
  let ?s2 = "?s1\<lparr>pending := 820, upc := UStored, wanted := 820\<rparr>"
  let ?s3 = "?s2\<lparr>wt := 1024 OR HAS_PENDING, upc := UIdle\<rparr>"
  let ?s4 = "?s3\<lparr>fpc := FLoaded (1024 OR HAS_PENDING)\<rparr>"
  let ?s5 = "?s4\<lparr>fpc := FReady (1024 OR HAS_PENDING) 820\<rparr>"
  let ?s6 = "?s5\<lparr>wt := 820, fpc := FIdle, fetched := [(1024, 820), (1024, 1024)]\<rparr>"
  have p: "plain 1024" "plain 820" by (simp_all add: plain_bit bit_numeral_rec)
  have "weight_reachable 1024 ?s0" by (rule weight_reachable.init)
  moreover have "weight_step ?s0 ?s1"
    using weight_step.load_plain [of ?s0] p by (simp add: weight_init_def plain_def)
  moreover have "weight_step ?s1 ?s2" using weight_step.store [of ?s1 820] p by (simp add: weight_init_def)
  moreover have "weight_step ?s2 ?s3" using weight_step.flag [of ?s2] by (simp add: weight_init_def)
  moreover have "weight_step ?s3 ?s4"
    using weight_step.load_flag [of ?s3] not_plain_or [of 1024] by (simp add: weight_init_def plain_def)
  moreover have "weight_step ?s4 ?s5" using weight_step.load_pending [of ?s4] by (simp add: weight_init_def)
  moreover have "weight_step ?s5 ?s6"
    using weight_step.exchange [of ?s5] p clear_or [of 1024] by (simp add: weight_init_def)
  ultimately have r: "weight_reachable 1024 ?s6" by (meson weight_reachable.step)
  then show ?thesis using weight_fetches_chain [OF r p(1)] p(1) by (intro exI [of _ ?s6]) simp
qed

text \<open>C37. A lost change of weight. When a second \<open>update\<close> falls between the load of the pending weight and
  the exchange in \<open>fetch_weight\<close>, the flag is already set, the weight word does not change, and the
  exchange succeeds: it stores the first weight and clears the flag. The thread then keeps the
  first weight although the second was asked for, and no step but another \<open>update\<close> changes that.\<close>

theorem weight_update_lost:
  assumes "plain w0" "plain w1" "plain w2"
  shows "\<exists>s. weight_reachable w0 s \<and> upc s = UIdle \<and> fpc s = FIdle \<and> wanted s = w2 \<and> wt s = w1 \<and>
    fetched s = [(w0, w1)]"
proof -
  let ?w = "w0 OR HAS_PENDING"
  let ?s0 = "weight_init w0"
  let ?s1 = "?s0\<lparr>pending := w1, upc := UStored, wanted := w1\<rparr>"
  let ?s2 = "?s1\<lparr>wt := ?w, upc := UIdle\<rparr>"
  let ?s3 = "?s2\<lparr>fpc := FLoaded ?w\<rparr>"
  let ?s4 = "?s3\<lparr>fpc := FReady ?w w1\<rparr>"
  let ?s5 = "?s4\<lparr>pending := w2, upc := UStored, wanted := w2\<rparr>"
  let ?s6 = "?s5\<lparr>upc := UIdle\<rparr>"
  let ?s7 = "?s6\<lparr>wt := w1, fpc := FIdle, fetched := [(w0, w1)]\<rparr>"
  have "weight_reachable w0 ?s0" by (rule weight_reachable.init)
  moreover have "weight_step ?s0 ?s1"
    using weight_step.store [of ?s0 w1] assms by (simp add: weight_init_def)
  moreover have "weight_step ?s1 ?s2" using weight_step.flag [of ?s1] by (simp add: weight_init_def)
  moreover have "weight_step ?s2 ?s3"
    using weight_step.load_flag [of ?s2] not_plain_or [of w0] by (simp add: weight_init_def plain_def)
  moreover have "weight_step ?s3 ?s4" using weight_step.load_pending [of ?s3] by (simp add: weight_init_def)
  moreover have "weight_step ?s4 ?s5" using weight_step.store [of ?s4 w2] assms by (simp add: weight_init_def)
  moreover have "weight_step ?s5 ?s6" using weight_step.flag [of ?s5] by (simp add: weight_init_def)
  moreover have "weight_step ?s6 ?s7"
    using weight_step.exchange [of ?s6] assms by (simp add: weight_init_def)
  ultimately have "weight_reachable w0 ?s7" by (meson weight_reachable.step)
  then show ?thesis by (intro exI [of _ ?s7]) (simp add: weight_init_def)
qed

theorem weight_update_lost_witness:
  "plain 1024 \<and> plain 820 \<and> plain 655 \<and>
   (\<exists>s. weight_reachable 1024 s \<and> upc s = UIdle \<and> fpc s = FIdle \<and> wanted s = 655 \<and> wt s = 820)"
proof -
  have "plain 1024" "plain 820" "plain 655" by (simp_all add: plain_bit bit_numeral_rec)
  then show ?thesis using weight_update_lost [of 1024 820 655] by blast
qed



text \<open>C22. Attributes follow the policy. New attributes and the attributes after every scheduling call
  are consistent: the cached kind is the kind of the policy, the real-time priority and slice and
  the fair weight (once fetched) are those of the policy, and all priorities and nice values are in
  range, which is what the run queues index with.\<close>

theorem scheduling_calls_consistent:
  assumes "attrs_ok cfg attrs"
  shows "(\<forall>p attr. policy_ok p \<and> sched_attr_new cfg p = Inr attr \<longrightarrow> attr_ok cfg attr) \<and>
    (\<forall>cur tid v flags attrs'. sys_sched_setattr cfg cur tid v flags attrs = Inr ((), attrs') \<longrightarrow>
       attrs_ok cfg attrs') \<and>
    (\<forall>cur tid pol pri attrs'. sys_sched_setscheduler cfg cur tid pol pri attrs = Inr ((), attrs') \<longrightarrow>
       attrs_ok cfg attrs') \<and>
    (\<forall>cur tid pri ret attrs'. sys_sched_setparam cfg cur tid pri attrs = Inr (ret, attrs') \<longrightarrow>
       attrs_ok cfg attrs')"
proof (intro conjI allI impI)
  show "attr_ok cfg attr" if "policy_ok p \<and> sched_attr_new cfg p = Inr attr" for p attr
    using that sched_attr_new_ok by blast
  show "attrs_ok cfg attrs'" if "sys_sched_setattr cfg cur tid v flags attrs = Inr ((), attrs')"
    for cur tid v flags attrs'
    using that assms policy_of_attr_ok
    by (auto simp: sys_sched_setattr_def rust_simps split: if_splits intro: access_set_policy_ok)
  show "attrs_ok cfg attrs'" if "sys_sched_setscheduler cfg cur tid pol pri attrs = Inr ((), attrs')"
    for cur tid pol pri attrs'
    using that assms policy_of_attr_ok
    by (auto simp: sys_sched_setscheduler_def rust_simps intro: access_set_policy_ok)
  show "attrs_ok cfg attrs'" if "sys_sched_setparam cfg cur tid pri attrs = Inr (ret, attrs')"
    for cur tid pri ret attrs'
    using that unfolding sys_sched_setparam_def
    by (rule access_attrs_ok [OF assms]) (rule update_policy_ok)
qed

definition a_cfg :: sched_cfg where
  "a_cfg = \<lparr>base_slice_clocks = 1500000, min_period_clocks = 12000000, num_cpus = 4\<rparr>"

definition a_fair_thread :: sched_attr where
  "a_fair_thread = \<lparr>policy = policy_state_new (Fair 0), last_cpu = None,
     real_time = \<lparr>prio = 99, time_slice = 30000000\<rparr>, fair = \<lparr>weight = 1024, pending_weight = 0, vruntime = 0\<rparr>\<rparr>"

theorem scheduling_calls_consistent_witness:
  "attrs_ok a_cfg [7 \<mapsto> a_fair_thread] \<and>
   (\<exists>attrs'. sys_sched_setscheduler a_cfg 1 7 SCHED_FIFO 30 [7 \<mapsto> a_fair_thread] = Inr ((), attrs') \<and>
      attrs_ok a_cfg attrs')"
proof -
  have p: "plain 1024" by (simp add: plain_bit bit_numeral_rec)
  have ok: "attrs_ok a_cfg [7 \<mapsto> a_fair_thread]"
    using p by (simp add: attrs_ok_def attr_ok_def a_fair_thread_def policy_state_new_def fetch_weight_def
        plain_def [symmetric] nice_weight_def WEIGHT_0_def NICE_MIN_def NICE_MAX_def)
  obtain attrs' where "sys_sched_setscheduler a_cfg 1 7 SCHED_FIFO 30 [7 \<mapsto> a_fair_thread] = Inr ((), attrs')"
    by (simp add: sys_sched_setscheduler_def policy_of_attr_def static_to_rt_eq SCHED_FIFO_def
        access_sched_attr_with_def set_policy_def policy_state_set_def apply_policy_def real_time_attr_new_def
        a_fair_thread_def policy_state_new_def)
  then show ?thesis using scheduling_calls_consistent [OF ok] ok by blast
qed

text \<open>C38. Policies and the C structure. What \<open>sched_getattr\<close> reports of a real-time or fair policy is
  accepted by \<open>sched_setattr\<close> and gives the same policy but for the slice factor, which the structure
  does not carry; what \<open>sched_setattr\<close> accepts is in range. A priority is accepted for the real-time
  policies exactly when it is between the values of \<open>sched_get_priority_min\<close> and \<open>max\<close>, and a higher
  static priority is a policy that is scheduled earlier.\<close>

theorem sched_attr_roundtrip:
  "(\<forall>p r. policy_ok (RealTime p r) \<longrightarrow> (\<exists>v. attr_of_policy (RealTime p r) = Inr v \<and>
      policy_of_attr v = Inr (RealTime p (case r of Fifo \<Rightarrow> Fifo | RoundRobin _ \<Rightarrow> RoundRobin None)))) \<and>
   (\<forall>n. policy_ok (Fair n) \<longrightarrow> (\<exists>v. attr_of_policy (Fair n) = Inr v \<and> policy_of_attr v = Inr (Fair n))) \<and>
   (\<forall>v p. policy_of_attr v = Inr p \<longrightarrow> policy_ok p) \<and>
   (\<forall>pol lo hi. pol \<in> {SCHED_FIFO, SCHED_RR} \<and> sys_sched_get_priority_min pol = Inr lo \<and>
      sys_sched_get_priority_max pol = Inr hi \<longrightarrow>
      (\<forall>v. sched_policy v = pol \<longrightarrow>
        ((\<exists>p. policy_of_attr v = Inr p) \<longleftrightarrow> lo \<le> sched_priority v \<and> sched_priority v \<le> hi))) \<and>
   (\<forall>v w p q. policy_of_attr v = Inr p \<and> policy_of_attr w = Inr q \<and>
      sched_policy v \<in> {SCHED_FIFO, SCHED_RR} \<and> sched_policy w \<in> {SCHED_FIFO, SCHED_RR} \<and>
      sched_priority w < sched_priority v \<longrightarrow> p < q)"
proof (intro conjI)
  note defs = SCHED_FIFO_def SCHED_RR_def SCHED_NORMAL_def SCHED_IDLE_def policy_of_attr_def static_to_rt_eq
  show "\<forall>p r. policy_ok (RealTime p r) \<longrightarrow> (\<exists>v. attr_of_policy (RealTime p r) = Inr v \<and>
      policy_of_attr v = Inr (RealTime p (case r of Fifo \<Rightarrow> Fifo | RoundRobin _ \<Rightarrow> RoundRobin None)))"
    by (auto simp: defs rt_to_static_def RT_PRIO_MIN_def RT_PRIO_MAX_def split: real_time_policy.splits)
  show "\<forall>n. policy_ok (Fair n) \<longrightarrow> (\<exists>v. attr_of_policy (Fair n) = Inr v \<and> policy_of_attr v = Inr (Fair n))"
    by (auto simp: defs ranged_try_from_def NICE_MIN_def NICE_MAX_def)
  show "\<forall>v p. policy_of_attr v = Inr p \<longrightarrow> policy_ok p" using policy_of_attr_ok by blast
  show "\<forall>pol lo hi. pol \<in> {SCHED_FIFO, SCHED_RR} \<and> sys_sched_get_priority_min pol = Inr lo \<and>
      sys_sched_get_priority_max pol = Inr hi \<longrightarrow>
      (\<forall>v. sched_policy v = pol \<longrightarrow>
        ((\<exists>p. policy_of_attr v = Inr p) \<longleftrightarrow> lo \<le> sched_priority v \<and> sched_priority v \<le> hi))"
    by (auto simp: defs sys_sched_get_priority_min_def sys_sched_get_priority_max_def SCHED_PRIORITY_RANGE_def
        Let_def rt_to_static_def RT_PRIO_MIN_def RT_PRIO_MAX_def split: if_splits)
  show "\<forall>v w p q. policy_of_attr v = Inr p \<and> policy_of_attr w = Inr q \<and>
      sched_policy v \<in> {SCHED_FIFO, SCHED_RR} \<and> sched_policy w \<in> {SCHED_FIFO, SCHED_RR} \<and>
      sched_priority w < sched_priority v \<longrightarrow> p < q"
    by (auto simp: defs rust_simps less_sched_policy_def split: if_splits)
qed

theorem sched_attr_roundtrip_witness:
  "policy_ok (RealTime 70 (RoundRobin (Some 5))) \<and>
   (\<exists>v. attr_of_policy (RealTime 70 (RoundRobin (Some 5))) = Inr v \<and> sched_priority v = 30 \<and>
      policy_of_attr v = Inr (RealTime 70 (RoundRobin None)))"
proof -
  have ok: "policy_ok (RealTime 70 (RoundRobin (Some 5)))" by (simp add: RT_PRIO_MIN_def RT_PRIO_MAX_def)
  then show ?thesis using sched_attr_roundtrip [THEN conjunct1, rule_format, OF ok]
    by (auto simp: rt_to_static_def)
qed

text \<open>C39. Where the scheduling calls disagree. \<open>sched_getparam\<close> reports, and \<open>sched_setparam\<close> stores, the
  kernel's priority, in which 1 is the most urgent, where the other calls take and report the static
  priority, in which 99 is: a thread made FIFO with priority \<open>pri\<close> is reported with \<open>100 - pri\<close>. A new
  slice factor for a round-robin thread is dropped in favour of the old one.\<close>

theorem scheduling_parameter_gaps:
  assumes "1 \<le> pri" "pri \<le> 99" "attrs t = Some attr" "t \<noteq> 0" "t < 2 ^ 31"
  shows "(\<exists>attrs'. sys_sched_setscheduler cfg cur t SCHED_FIFO pri attrs = Inr ((), attrs') \<and>
      sys_sched_getparam cur t attrs' = Inr (100 - int pri)) \<and>
    (\<forall>q. ps_policy (policy attr) = RealTime q Fifo \<longrightarrow>
      (\<exists>attrs' v. sys_sched_setparam cfg cur t (int pri) attrs = Inr (Inr (), attrs') \<and>
        sys_sched_getattr cur t 0 attrs' = Inr v \<and> sched_priority v = 100 - pri)) \<and>
    (\<forall>p q f g. ps_policy (policy_state_set (RealTime p (RoundRobin (Some f)))
        (policy_state_new (RealTime q (RoundRobin (Some g))))) = RealTime p (RoundRobin (Some g)))"
proof (intro conjI allI impI)
  show "\<exists>attrs'. sys_sched_setscheduler cfg cur t SCHED_FIFO pri attrs = Inr ((), attrs') \<and>
      sys_sched_getparam cur t attrs' = Inr (100 - int pri)"
    using assms by (simp add: sys_sched_setscheduler_def sys_sched_getparam_def access_sched_attr_with_def
        policy_of_attr_def static_to_rt_eq SCHED_FIFO_def set_policy_def policy_state_set_def apply_policy_def
        real_time_attr_new_def)
  show "\<exists>attrs' v. sys_sched_setparam cfg cur t (int pri) attrs = Inr (Inr (), attrs') \<and>
        sys_sched_getattr cur t 0 attrs' = Inr v \<and> sched_priority v = 100 - pri"
    if "ps_policy (policy attr) = RealTime q Fifo" for q
    using assms that by (simp add: sys_sched_setparam_def sys_sched_getattr_def access_sched_attr_with_def
        update_policy_def setparam_closure_def ranged_try_from_def RT_PRIO_MIN_def RT_PRIO_MAX_def
        apply_policy_def real_time_attr_new_def policy_state_update_def rt_to_static_def nat_diff_distrib)
  show "ps_policy (policy_state_set (RealTime p (RoundRobin (Some f)))
      (policy_state_new (RealTime q (RoundRobin (Some g))))) = RealTime p (RoundRobin (Some g))" for p q f g
    by (simp add: policy_state_set_def policy_state_new_def)
qed

theorem scheduling_parameter_gaps_witness:
  "\<exists>attrs'. sys_sched_setscheduler a_cfg 1 7 SCHED_FIFO 99 [7 \<mapsto> a_fair_thread] = Inr ((), attrs') \<and>
     sys_sched_getparam 1 7 attrs' = Inr 1"
  using scheduling_parameter_gaps [of 99 "[7 \<mapsto> a_fair_thread]" 7 a_fair_thread a_cfg 1] by simp

end
