(* ===== verification/Binary_Heap.thy ===== *)
theory Binary_Heap
  imports Prelude
begin

text \<open>
  \<open>alloc::collections::BinaryHeap\<close> as far as the fair scheduling class uses it: \<open>push\<close>, \<open>pop\<close> and \<open>peek\<close> on
  a vector, with the element moved up and down through a hole the way the library does it. The
  order is an argument \<open>le\<close>, a total preorder. The class orders its items by \<open>Reverse\<close> of their key,
  so that the greatest item is one with the least key.
\<close>

section \<open>Operations\<close>

definition parent :: "nat \<Rightarrow> nat" where
  "parent i = (i - 1) div 2"

lemma parent_less: "0 < i \<Longrightarrow> parent i < i"
  by (simp add: parent_def)

function sift_up :: "('a \<Rightarrow> 'a \<Rightarrow> bool) \<Rightarrow> 'a list \<Rightarrow> nat \<Rightarrow> 'a list" where
  "sift_up le xs pos =
     (if 0 < pos \<and> \<not> le (xs ! pos) (xs ! parent pos)
      then sift_up le (vec_swap xs pos (parent pos)) (parent pos) else xs)"
  by auto
termination by (relation "measure (\<lambda>(le, xs, pos). pos)") (auto simp: parent_less)

definition greater_child :: "('a \<Rightarrow> 'a \<Rightarrow> bool) \<Rightarrow> 'a list \<Rightarrow> nat \<Rightarrow> nat" where
  "greater_child le xs c = (if le (xs ! c) (xs ! (c + 1)) then c + 1 else c)"

function sift_to_bottom :: "('a \<Rightarrow> 'a \<Rightarrow> bool) \<Rightarrow> 'a list \<Rightarrow> nat \<Rightarrow> 'a list \<times> nat" where
  "sift_to_bottom le xs pos =
     (if 2 * pos + 1 + 2 \<le> length xs then
        (let c = greater_child le xs (2 * pos + 1) in sift_to_bottom le (vec_swap xs pos c) c)
      else if 2 * pos + 1 + 1 = length xs then (vec_swap xs pos (2 * pos + 1), 2 * pos + 1)
      else (xs, pos))"
  by auto
termination by (relation "measure (\<lambda>(le, xs, pos). length xs - pos)") (auto simp: greater_child_def)

declare sift_up.simps [simp del] sift_to_bottom.simps [simp del]

definition heap_push :: "('a \<Rightarrow> 'a \<Rightarrow> bool) \<Rightarrow> 'a \<Rightarrow> 'a list \<Rightarrow> 'a list" where
  "heap_push le x xs = sift_up le (xs @ [x]) (length xs)"

definition heap_pop :: "('a \<Rightarrow> 'a \<Rightarrow> bool) \<Rightarrow> 'a list \<Rightarrow> ('a \<times> 'a list) option" where
  "heap_pop le xs =
     (if xs = [] then None
      else if butlast xs = [] then Some (last xs, [])
      else let (ys, pos) = sift_to_bottom le ((butlast xs)[0 := last xs]) 0
           in Some (butlast xs ! 0, sift_up le ys pos))"

definition heap_peek :: "'a list \<Rightarrow> 'a option" where
  "heap_peek xs = (if xs = [] then None else Some (xs ! 0))"

section \<open>The heap property\<close>

definition heap :: "('a \<Rightarrow> 'a \<Rightarrow> bool) \<Rightarrow> 'a list \<Rightarrow> bool" where
  "heap le xs \<longleftrightarrow> (\<forall>i<length xs. 0 < i \<longrightarrow> le (xs ! i) (xs ! parent i))"

definition preorder :: "('a \<Rightarrow> 'a \<Rightarrow> bool) \<Rightarrow> bool" where
  "preorder le \<longleftrightarrow> (\<forall>x y z. le x y \<longrightarrow> le y z \<longrightarrow> le x z) \<and> (\<forall>x y. le x y \<or> le y x)"

lemma preorderD:
  assumes "preorder le"
  shows "le x x" "le x y \<Longrightarrow> le y z \<Longrightarrow> le x z" "\<not> le x y \<Longrightarrow> le y x"
  using assms unfolding preorder_def by blast+

text \<open>The property but for position \<open>p\<close>, whose element may be too great or too small; what hangs below
  \<open>p\<close> fits below its parent.\<close>

definition hole_ok :: "('a \<Rightarrow> 'a \<Rightarrow> bool) \<Rightarrow> 'a list \<Rightarrow> nat \<Rightarrow> bool" where
  "hole_ok le xs p \<longleftrightarrow>
     (\<forall>i<length xs. 0 < i \<and> i \<noteq> p \<and> parent i \<noteq> p \<longrightarrow> le (xs ! i) (xs ! parent i)) \<and>
     (\<forall>c<length xs. 0 < c \<and> parent c = p \<and> 0 < p \<longrightarrow> le (xs ! c) (xs ! parent p))"

lemma hole_ok_D:
  assumes "hole_ok le xs p" "i < length xs" "0 < i"
  shows "i \<noteq> p \<Longrightarrow> parent i \<noteq> p \<Longrightarrow> le (xs ! i) (xs ! parent i)"
    "parent i = p \<Longrightarrow> 0 < p \<Longrightarrow> le (xs ! i) (xs ! parent p)"
  using assms unfolding hole_ok_def by blast+

lemma mset_vec_swap [simp]: "i < length xs \<Longrightarrow> j < length xs \<Longrightarrow> mset (vec_swap xs i j) = mset xs"
  unfolding vec_swap_def by (metis mset_swap)

lemma hole_up:
  assumes le: "preorder le" and h: "hole_ok le xs p" and p: "p < length xs" "0 < p"
  shows "hole_ok le (vec_swap xs p (parent p)) (parent p)"
proof -
  note P = preorderD [OF le]
  let ?q = "parent p" and ?ys = "vec_swap xs p (parent p)"
  have q: "?q < p" "?q < length xs" using p parent_less [of p] by auto
  have nth: "?ys ! k = (if k = ?q then xs ! p else if k = p then xs ! ?q else xs ! k)" for k
    using p q by (simp add: nth_vec_swap)
  show ?thesis
    unfolding hole_ok_def nth length_vec_swap
  proof (intro conjI allI impI)
    fix i assume i: "i < length xs" "0 < i \<and> i \<noteq> ?q \<and> parent i \<noteq> ?q"
    then have ip: "i \<noteq> p" by auto
    show "le (if i = ?q then xs ! p else if i = p then xs ! ?q else xs ! i)
        (if parent i = ?q then xs ! p else if parent i = p then xs ! ?q else xs ! parent i)"
      using i ip hole_ok_D [OF h i(1)] p by auto
  next
    fix c assume c: "c < length xs" "0 < c \<and> parent c = ?q \<and> 0 < ?q"
    then have "?q \<noteq> p" "parent ?q \<noteq> p" "parent ?q \<noteq> ?q" using q parent_less [of ?q] by auto
    then have "le (xs ! ?q) (xs ! parent ?q)" using hole_ok_D(1) [OF h q(2)] c by auto
    moreover have "c \<noteq> p \<Longrightarrow> le (xs ! c) (xs ! ?q)" using hole_ok_D(1) [OF h c(1)] c q by auto
    ultimately show "le (if c = ?q then xs ! p else if c = p then xs ! ?q else xs ! c)
        (if parent ?q = ?q then xs ! p else if parent ?q = p then xs ! ?q else xs ! parent ?q)"
      using P(2) c \<open>parent ?q \<noteq> p\<close> \<open>parent ?q \<noteq> ?q\<close> parent_less [of c] by auto
  qed
qed

lemma sift_up_heap:
  assumes "preorder le" "hole_ok le xs p" "p < length xs"
    "\<And>c. c < length xs \<Longrightarrow> 0 < c \<Longrightarrow> parent c = p \<Longrightarrow> le (xs ! c) (xs ! p)"
  shows "heap le (sift_up le xs p) \<and> mset (sift_up le xs p) = mset xs"
  using assms(2-)
proof (induction "p" arbitrary: xs rule: less_induct)
  case (less p)
  note P = preorderD [OF assms(1)]
  show ?case
  proof (cases "0 < p \<and> \<not> le (xs ! p) (xs ! parent p)")
    case True
    let ?q = "parent p" and ?ys = "vec_swap xs p (parent p)"
    have q: "?q < p" "?q < length xs" using True less(3) parent_less [of p] by auto
    have nth: "?ys ! k = (if k = ?q then xs ! p else if k = p then xs ! ?q else xs ! k)" for k
      using less(3) q by (simp add: nth_vec_swap)
    have up: "le (xs ! ?q) (xs ! p)" using True P(3) by blast
    have hole: "hole_ok le ?ys ?q" using hole_up [OF assms(1) less(2,3)] True by simp
    have below: "le (?ys ! c) (?ys ! ?q)" if "c < length ?ys" "0 < c" "parent c = ?q" for c
    proof (cases "c = p")
      case False
      then have "le (xs ! c) (xs ! ?q)" using hole_ok_D(1) [OF less(2), of c] that q by simp
      then have "le (xs ! c) (xs ! p)" using up by (rule P(2))
      then show ?thesis using False that parent_less [of c] unfolding nth by simp
    qed (use up q in \<open>simp add: nth\<close>)
    have "sift_up le xs p = sift_up le ?ys ?q" using True by (subst sift_up.simps) simp
    then show ?thesis using less(1) [OF q(1) hole] below q less(3) by simp
  next
    case False
    then have s: "sift_up le xs p = xs" by (subst sift_up.simps) auto
    have "heap le xs"
      unfolding heap_def using hole_ok_D(1) [OF less(2)] less(4) False by (metis (full_types))
    then show ?thesis using s by simp
  qed
qed

lemma hole_down:
  assumes h: "hole_ok le xs p" and p: "p < length xs" and c: "c < length xs" "0 < c" "parent c = p"
    and sib: "\<And>d. d < length xs \<Longrightarrow> 0 < d \<Longrightarrow> parent d = p \<Longrightarrow> le (xs ! d) (xs ! c)"
  shows "hole_ok le (vec_swap xs p c) c"
proof -
  have nth: "vec_swap xs p c ! k = (if k = c then xs ! p else if k = p then xs ! c else xs ! k)" for k
    using p c by (simp add: nth_vec_swap)
  have pc: "p < c" using c parent_less by blast
  show ?thesis
    unfolding hole_ok_def nth length_vec_swap
  proof (intro conjI allI impI)
    fix i assume i: "i < length xs" "0 < i \<and> i \<noteq> c \<and> parent i \<noteq> c"
    have "parent p \<noteq> p" if "0 < p" using parent_less [OF that] by simp
    then show "le (if i = c then xs ! p else if i = p then xs ! c else xs ! i)
        (if parent i = c then xs ! p else if parent i = p then xs ! c else xs ! parent i)"
      using i hole_ok_D(1) [OF h i(1)] hole_ok_D(2) [OF h c(1,2,3)] sib [OF i(1)]
      by auto
  next
    fix d assume d: "d < length xs" "0 < d \<and> parent d = c \<and> 0 < c"
    then have "d \<noteq> c" "d \<noteq> p" using parent_less [of d] pc by auto
    then show "le (if d = c then xs ! p else if d = p then xs ! c else xs ! d)
        (if parent c = c then xs ! p else if parent c = p then xs ! c else xs ! parent c)"
      using d c pc hole_ok_D(1) [OF h d(1)] by auto
  qed
qed

lemma sift_to_bottom_hole:
  assumes "preorder le" "hole_ok le xs p" "p < length xs" "sift_to_bottom le xs p = (ys, q)"
  shows "hole_ok le ys q \<and> q < length ys \<and> mset ys = mset xs \<and> (\<forall>c<length ys. 0 < c \<longrightarrow> parent c \<noteq> q)"
  using assms(2-)
proof (induction "length xs - p" arbitrary: xs p rule: less_induct)
  case less
  note P = preorderD [OF assms(1)]
  have child: "d = 2 * p + 1 \<or> d = 2 * p + 2" if "0 < d" "parent d = p" for d
    using that by (auto simp: parent_def)
  show ?case
  proof (cases "2 * p + 1 + 2 \<le> length xs")
    case True
    define c where "c = greater_child le xs (2 * p + 1)"
    have c: "c < length xs" "0 < c" "parent c = p" "p < c"
      using True by (auto simp: c_def greater_child_def parent_def)
    have sib: "le (xs ! d) (xs ! c)" if "0 < d" "parent d = p" for d
      using child [OF that] P(1) [of "xs ! d"] P(3) by (auto simp: c_def greater_child_def)
    have eq: "sift_to_bottom le (vec_swap xs p c) c = (ys, q)"
      using less(4) True by (subst (asm) sift_to_bottom.simps) (simp add: c_def Let_def)
    have m: "length (vec_swap xs p c) - c < length xs - p" using c by simp
    show ?thesis using less(1) [OF m hole_down [OF less(2,3) c(1-3) sib] _ eq] c less(3) by simp
  next
    case False
    show ?thesis
    proof (cases "2 * p + 1 + 1 = length xs")
      case True
      let ?c = "2 * p + 1"
      have "sift_to_bottom le xs p = (vec_swap xs p ?c, ?c)" using True by (subst sift_to_bottom.simps) simp
      then have eq: "ys = vec_swap xs p ?c" "q = ?c" using less(4) by auto
      have only: "d = ?c" if "d < length xs" "0 < d" "parent d = p" for d
        using child [OF that(2,3)] that(1) True by auto
      have "?c < length xs" "0 < ?c" "parent ?c = p" using True by (auto simp: parent_def)
      then have "hole_ok le ys q" unfolding eq by (rule hole_down [OF less(2,3)]) (metis only P(1))
      moreover have "parent c \<noteq> q" if "c < length ys" "0 < c" for c
        using that True by (auto simp: eq parent_def)
      ultimately show ?thesis using True less(3) by (auto simp: eq)
    next
      case F: False
      have "sift_to_bottom le xs p = (xs, p)" using False F by (subst sift_to_bottom.simps) auto
      then have eq: "ys = xs" "q = p" using less(4) by auto
      have "parent c \<noteq> p" if "c < length xs" "0 < c" for c
      proof
        assume "parent c = p"
        then have "2 * p + 1 \<le> c" using child [of c] that(2) by auto
        then show False using that(1) False F by linarith
      qed
      then show ?thesis using less(2,3) eq by blast
    qed
  qed
qed

lemma heap_root: "preorder le \<Longrightarrow> heap le xs \<Longrightarrow> i < length xs \<Longrightarrow> le (xs ! i) (xs ! 0)"
proof (induction i rule: less_induct)
  case (less i)
  show ?case
  proof (cases "i = 0")
    case False
    then have "le (xs ! i) (xs ! parent i)" "le (xs ! parent i) (xs ! 0)"
      using less parent_less [of i] by (auto simp: heap_def)
    then show ?thesis using preorderD(2) [OF less(2)] by blast
  qed (use preorderD(1) [OF less(2)] in simp)
qed

section \<open>Correctness\<close>

lemma heap_push_ok:
  assumes "preorder le" "heap le xs"
  shows "heap le (heap_push le x xs)" "mset (heap_push le x xs) = add_mset x (mset xs)"
proof -
  have "hole_ok le (xs @ [x]) (length xs)"
    unfolding hole_ok_def
  proof (intro conjI allI impI)
    fix i assume i: "i < length (xs @ [x])" "0 < i \<and> i \<noteq> length xs \<and> parent i \<noteq> length xs"
    then have "i < length xs" "parent i < length xs" using parent_less [of i] by auto
    then show "le ((xs @ [x]) ! i) ((xs @ [x]) ! parent i)" using assms(2) i by (simp add: heap_def nth_append)
  next
    fix c assume "c < length (xs @ [x])" "0 < c \<and> parent c = length xs \<and> 0 < length xs"
    then show "le ((xs @ [x]) ! c) ((xs @ [x]) ! parent (length xs))" using parent_less [of c] by auto
  qed
  moreover have "parent c \<noteq> length xs" if "c < length (xs @ [x])" "0 < c" for c
    using that parent_less [of c] by auto
  ultimately have "heap le (sift_up le (xs @ [x]) (length xs)) \<and>
      mset (sift_up le (xs @ [x]) (length xs)) = mset (xs @ [x])"
    by (intro sift_up_heap [OF assms(1)]) auto
  then show "heap le (heap_push le x xs)" "mset (heap_push le x xs) = add_mset x (mset xs)"
    by (simp_all add: heap_push_def)
qed

lemma heap_pop_ok:
  assumes le: "preorder le" "heap le xs"
  shows "case heap_pop le xs of None \<Rightarrow> xs = []
    | Some (x, ys) \<Rightarrow> heap le ys \<and> mset xs = add_mset x (mset ys) \<and> heap_peek xs = Some x \<and>
        (\<forall>y\<in>set xs. le y x)"
proof (cases "butlast xs = []")
  case True
  then show ?thesis using le preorderD(1) [OF le(1)]
    by (cases xs) (auto simp: heap_pop_def heap_peek_def heap_def split: if_splits)
next
  case False
  then have ne: "xs \<noteq> []" and bl: "0 < length (butlast xs)" by (auto simp del: length_butlast)
  let ?b = "butlast xs" and ?ys = "(butlast xs)[0 := last xs]"
  obtain zs pos where s: "sift_to_bottom le ?ys 0 = (zs, pos)" by (cases "sift_to_bottom le ?ys 0")
  have "hole_ok le ?ys 0" unfolding hole_ok_def
  proof (intro conjI allI impI)
    fix i assume i: "i < length ?ys" "0 < i \<and> i \<noteq> 0 \<and> parent i \<noteq> 0"
    then have "i < length xs" "parent i < length ?b" using parent_less [of i] by auto
    then show "le (?ys ! i) (?ys ! parent i)" using i le(2) by (simp add: heap_def nth_butlast)
  qed auto
  then have h: "hole_ok le zs pos" "pos < length zs" "mset zs = mset ?ys"
    "\<forall>c<length zs. 0 < c \<longrightarrow> parent c \<noteq> pos"
    using sift_to_bottom_hole [OF le(1) _ _ s] bl by auto
  have u: "heap le (sift_up le zs pos)" "mset (sift_up le zs pos) = mset ?ys"
    using sift_up_heap [OF le(1) h(1,2)] h(3,4) by auto
  obtain x b where b: "?b = x # b" using False by (cases ?b) auto
  have x: "x = xs ! 0" using b ne by (metis nth_Cons_0 nth_butlast False length_greater_0_conv)
  have "mset xs = mset (?b @ [last xs])" using ne by simp
  then have "mset xs = add_mset x (mset ?ys)" by (simp only: b) simp
  moreover have "\<forall>y\<in>set xs. le y x" using heap_root [OF le] x by (metis in_set_conv_nth)
  ultimately show ?thesis using u s ne False b x by (simp add: heap_pop_def heap_peek_def)
qed

section \<open>Interface\<close>

text \<open>A queue that gives out an item of least key.\<close>

locale priority_queue =
  fixes inv :: "'q \<Rightarrow> bool" and items :: "'q \<Rightarrow> 'a multiset" and key :: "'a \<Rightarrow> nat"
    and insert_item :: "'a \<Rightarrow> 'q \<Rightarrow> 'q" and delete_min :: "'q \<Rightarrow> ('a \<times> 'q) option" and get_min :: "'q \<Rightarrow> 'a option"
  assumes insert_inv: "inv q \<Longrightarrow> inv (insert_item x q)"
    and insert_items: "inv q \<Longrightarrow> items (insert_item x q) = add_mset x (items q)"
    and delete_None: "inv q \<Longrightarrow> delete_min q = None \<longleftrightarrow> items q = {#}"
    and delete_Some: "inv q \<Longrightarrow> delete_min q = Some (x, q') \<Longrightarrow>
      inv q' \<and> items q = add_mset x (items q') \<and> get_min q = Some x \<and> (\<forall>y. y \<in># items q \<longrightarrow> key x \<le> key y)"
    and get_None: "inv q \<Longrightarrow> get_min q = None \<longleftrightarrow> items q = {#}"
begin

lemma delete_least: "inv q \<Longrightarrow> delete_min q = Some (x, q') \<Longrightarrow> y \<in># items q \<Longrightarrow> key x \<le> key y"
  using delete_Some by blast

lemma delete_ascending:
  assumes "inv q" "delete_min q = Some (x, q1)" "delete_min q1 = Some (y, q2)"
  shows "key x \<le> key y"
  using delete_Some [OF assms(1,2)] delete_Some [of q1 y q2] assms(3) by auto

lemma get_min_least:
  assumes "inv q" "get_min q = Some x" "y \<in># items q"
  shows "key x \<le> key y"
proof (cases "delete_min q")
  case None
  then show ?thesis using delete_None [OF assms(1)] assms(3) by simp
next
  case (Some p)
  then show ?thesis using delete_Some [OF assms(1)] assms(2,3) by (cases p) force
qed

end

text \<open>The order of \<open>Reverse<FairQueueItem>\<close>, and the queue of the fair class. An item is a task and its key.\<close>

definition item_le :: "nat \<times> nat \<Rightarrow> nat \<times> nat \<Rightarrow> bool" where
  "item_le a b \<longleftrightarrow> snd b \<le> snd a"

lemma item_le_preorder [simp]: "preorder item_le"
  by (auto simp: preorder_def item_le_def)

interpretation fq: priority_queue "heap item_le" mset snd "heap_push item_le" "heap_pop item_le" heap_peek
proof
  fix q q' :: "(nat \<times> nat) list" and x
  assume h: "heap item_le q"
  show "heap item_le (heap_push item_le x q)" "mset (heap_push item_le x q) = add_mset x (mset q)"
    using heap_push_ok [OF item_le_preorder h] by auto
  show "heap_pop item_le q = None \<longleftrightarrow> mset q = {#}"
    using heap_pop_ok [OF item_le_preorder h] by (cases q) (auto simp: heap_pop_def split: prod.splits)
  show "heap_peek q = None \<longleftrightarrow> mset q = {#}" by (simp add: heap_peek_def)
  show "heap item_le q' \<and> mset q = add_mset x (mset q') \<and> heap_peek q = Some x \<and>
      (\<forall>y. y \<in># mset q \<longrightarrow> snd x \<le> snd y)" if "heap_pop item_le q = Some (x, q')"
    using heap_pop_ok [OF item_le_preorder h] unfolding that option.case prod.case item_le_def
    by (metis in_multiset_in_set)
qed

end
