(* ===== verification/Sched_Classes.thy ===== *)
theory Sched_Classes
  imports Sched_Policy Binary_Heap
begin

text \<open>
  The run queues of the scheduling classes: \<open>fair.rs\<close>, \<open>real_time.rs\<close>, \<open>stop.rs\<close> and \<open>idle.rs\<close> of
  \<open>kernel/src/sched/sched_class/\<close>. A task is its id, and the attributes of all tasks with a thread are
  a map that the queues share with the system calls; a task without an entry has no thread, and the
  \<open>unwrap\<close> of \<open>as_thread\<close> panics on it.

  The locale \<open>sched_class\<close> is the trait \<open>SchedClassRq\<close>; the four classes are its interpretations. The
  bit array of the real-time class is of the third-party crate \<open>bitvec\<close>: a parameter, whose documented
  behaviour is the locale \<open>bitarr\<close>.
\<close>

type_synonym attrs = "nat \<rightharpoonup> sched_attr"

datatype enqueue_flags = Spawn | Wake
datatype update_flags = Tick | Wait | Yield | Exit

record current_runtime =
  start :: nat
  delta :: nat
  period_delta :: nat

definition runtime_new :: "nat \<Rightarrow> current_runtime" where
  "runtime_new now = \<lparr>start = now, delta = 0, period_delta = 0\<rparr>"

definition runtime_update :: "nat \<Rightarrow> current_runtime \<Rightarrow> current_runtime result" where
  "runtime_update now rt =
     rbind (usub now (start rt)) (\<lambda>d. rbind (uadd (period_delta rt) d) (\<lambda>pd.
       Inr \<lparr>start = now, delta = d, period_delta = pd\<rparr>))"

definition as_thread :: "attrs \<Rightarrow> nat \<Rightarrow> sched_attr result" where
  "as_thread attrs t = (case attrs t of None \<Rightarrow> Inl Panic | Some a \<Rightarrow> Inr a)"

section \<open>The fair class\<close>

record fair_rq =
  entities :: "(nat \<times> nat) list"
  min_vruntime :: nat
  total_weight :: nat

definition fair_new :: fair_rq where
  "fair_new = \<lparr>entities = [], min_vruntime = 0, total_weight = 0\<rparr>"

fun ilog2 :: "nat \<Rightarrow> nat" where
  "ilog2 n = (if n \<le> 1 then 0 else Suc (ilog2 (n div 2)))"

declare ilog2.simps [simp del]

definition period :: "sched_cfg \<Rightarrow> fair_rq \<Rightarrow> nat result" where
  "period cfg rq =
     rbind (umul (base_slice_clocks cfg) (length (entities rq) + 1)) (\<lambda>p.
       umul (max p (min_period_clocks cfg)) (ilog2 (1 + num_cpus cfg)))"

definition vtime_slice :: "sched_cfg \<Rightarrow> fair_rq \<Rightarrow> nat result" where
  "vtime_slice cfg rq = rbind (period cfg rq) (\<lambda>p. udiv p (length (entities rq) + 1))"

definition fair_time_slice :: "sched_cfg \<Rightarrow> fair_rq \<Rightarrow> nat \<Rightarrow> nat result" where
  "fair_time_slice cfg rq w =
     rbind (period cfg rq) (\<lambda>p. rbind (umul p w) (\<lambda>x. rbind (uadd (total_weight rq) w) (udiv x)))"

definition fair_enqueue ::
  "sched_cfg \<Rightarrow> nat \<Rightarrow> enqueue_flags option \<Rightarrow> fair_rq \<times> attrs \<Rightarrow> (fair_rq \<times> attrs) result" where
  "fair_enqueue cfg t flags = (\<lambda>(rq, attrs).
     rbind (as_thread attrs t) (\<lambda>attr.
     rbind (if flags = Some Spawn then rbind (vtime_slice cfg rq) (uadd (min_vruntime rq))
            else Inr (min_vruntime rq)) (\<lambda>v.
     let ((_, w), f) = fetch_weight (fair attr);
         v' = max (vruntime f) v
     in rbind (uadd (total_weight rq) (unat w)) (\<lambda>tw.
          Inr (rq\<lparr>total_weight := tw, entities := heap_push item_le (t, v') (entities rq)\<rparr>,
               attrs(t \<mapsto> attr\<lparr>fair := f\<lparr>vruntime := v'\<rparr>\<rparr>))))))"

definition fair_pick_next :: "fair_rq \<times> attrs \<Rightarrow> (nat option \<times> fair_rq \<times> attrs) result" where
  "fair_pick_next = (\<lambda>(rq, attrs).
     case heap_pop item_le (entities rq) of
       None \<Rightarrow> Inr (None, rq, attrs)
     | Some ((t, _), es) \<Rightarrow>
         rbind (as_thread attrs t) (\<lambda>attr.
         let ((old, _), f) = fetch_weight (fair attr)
         in rbind (usub (total_weight rq) (unat old)) (\<lambda>tw.
              Inr (Some t, rq\<lparr>entities := es, total_weight := tw\<rparr>, attrs(t \<mapsto> attr\<lparr>fair := f\<rparr>)))))"

text \<open>\<open>update_current\<close> of the attributes of the running task; the result says whether to reschedule.
  The slices are computed only as far as the lazy disjunction asks for them.\<close>

definition fair_update_current ::
  "sched_cfg \<Rightarrow> current_runtime \<Rightarrow> update_flags \<Rightarrow> fair_rq \<times> sched_attr \<Rightarrow> (bool \<times> fair_rq \<times> sched_attr) result" where
  "fair_update_current cfg rt flags = (\<lambda>(rq, attr).
     if flags = Exit then Inr (entities rq \<noteq> [], rq, attr)
     else
       let ((_, w), f) = fetch_weight (fair attr) in
       rbind (update_vruntime (delta rt) (unat w) f) (\<lambda>(v, f').
       let attr' = attr\<lparr>fair := f'\<rparr>;
           rq' = rq\<lparr>min_vruntime := (case heap_peek (entities rq) of Some x \<Rightarrow> min v (snd x) | None \<Rightarrow> v)\<rparr>
       in if entities rq = [] then Inr (False, rq', attr')
          else if flags = Wait then Inr (True, rq', attr')
          else rbind (fair_time_slice cfg rq' (unat w)) (\<lambda>ts.
            if period_delta rt > ts then Inr (True, rq', attr')
            else rbind (vtime_slice cfg rq') (\<lambda>vs. rbind (uadd (min_vruntime rq') vs) (\<lambda>lim.
              Inr (v > lim, rq', attr'))))))"

section \<open>The real-time class\<close>

record 'b bitarr_ops =
  ba_zero :: 'b
  ba_get :: "'b \<Rightarrow> nat \<Rightarrow> bool"
  ba_set :: "'b \<Rightarrow> nat \<Rightarrow> bool \<Rightarrow> 'b"
  ba_first_one :: "'b \<Rightarrow> nat option"

locale bitarr =
  fixes ops :: "'b bitarr_ops"
  assumes get_zero [simp]: "i < 100 \<Longrightarrow> \<not> ba_get ops (ba_zero ops) i"
    and get_set [simp]: "i < 100 \<Longrightarrow> j < 100 \<Longrightarrow> ba_get ops (ba_set ops b i v) j = (if j = i then v else ba_get ops b j)"
    and first_one: "ba_first_one ops b = find (ba_get ops b) [0..<100]"

record 'b prio_array =
  map_bits :: 'b
  queue :: "nat list list"

definition pa_new :: "'b bitarr_ops \<Rightarrow> 'b prio_array" where
  "pa_new ops = \<lparr>map_bits = ba_zero ops, queue = replicate 100 []\<rparr>"

definition pa_enqueue :: "'b bitarr_ops \<Rightarrow> nat \<Rightarrow> nat \<Rightarrow> 'b prio_array \<Rightarrow> 'b prio_array result" where
  "pa_enqueue ops t p a =
     (if \<not> p < length (queue a) then Inl Panic
      else let q = queue a ! p in
        Inr \<lparr>map_bits = (if q = [] then ba_set ops (map_bits a) p True else map_bits a),
             queue = (queue a)[p := q @ [t]]\<rparr>)"

definition pa_pop :: "'b bitarr_ops \<Rightarrow> 'b prio_array \<Rightarrow> (nat option \<times> 'b prio_array) result" where
  "pa_pop ops a =
     (case ba_first_one ops (map_bits a) of
        None \<Rightarrow> Inr (None, a)
      | Some p \<Rightarrow>
          if \<not> p < length (queue a) then Inl Panic
          else case queue a ! p of
            [] \<Rightarrow> Inl Panic
          | t # q \<Rightarrow>
              Inr (Some t, \<lparr>map_bits = (if q = [] then ba_set ops (map_bits a) p False else map_bits a),
                            queue = (queue a)[p := q]\<rparr>))"

definition peek_prio :: "'b bitarr_ops \<Rightarrow> 'b prio_array \<Rightarrow> nat option" where
  "peek_prio ops a = ba_first_one ops (map_bits a)"

text \<open>\<open>index\<close> says which of the two arrays is the active one.\<close>

record 'b rt_rq =
  index :: bool
  array0 :: "'b prio_array"
  array1 :: "'b prio_array"
  nr_running :: nat

definition rt_new :: "'b bitarr_ops \<Rightarrow> 'b rt_rq" where
  "rt_new ops = \<lparr>index = False, array0 = pa_new ops, array1 = pa_new ops, nr_running = 0\<rparr>"

definition get_array :: "bool \<Rightarrow> 'b rt_rq \<Rightarrow> 'b prio_array" where
  "get_array i rq = (if i then array1 rq else array0 rq)"

definition put_array :: "bool \<Rightarrow> 'b prio_array \<Rightarrow> 'b rt_rq \<Rightarrow> 'b rt_rq" where
  "put_array i a rq = (if i then rq\<lparr>array1 := a\<rparr> else rq\<lparr>array0 := a\<rparr>)"

definition active_array :: "'b rt_rq \<Rightarrow> 'b prio_array" where
  "active_array rq = get_array (index rq) rq"

definition inactive_array :: "'b rt_rq \<Rightarrow> 'b prio_array" where
  "inactive_array rq = get_array (\<not> index rq) rq"

definition swap_arrays :: "'b rt_rq \<Rightarrow> 'b rt_rq" where
  "swap_arrays rq = rq\<lparr>index := \<not> index rq\<rparr>"

definition rt_enqueue ::
  "'b bitarr_ops \<Rightarrow> nat \<Rightarrow> enqueue_flags option \<Rightarrow> 'b rt_rq \<times> attrs \<Rightarrow> ('b rt_rq \<times> attrs) result" where
  "rt_enqueue ops t flags = (\<lambda>(rq, attrs).
     rbind (as_thread attrs t) (\<lambda>attr.
     rbind (pa_enqueue ops t (prio (real_time attr)) (inactive_array rq)) (\<lambda>a.
     rbind (uadd (nr_running rq) 1) (\<lambda>n.
       Inr ((put_array (\<not> index rq) a rq)\<lparr>nr_running := n\<rparr>, attrs)))))"

definition rt_pick_next :: "'b bitarr_ops \<Rightarrow> 'b rt_rq \<times> attrs \<Rightarrow> (nat option \<times> 'b rt_rq \<times> attrs) result" where
  "rt_pick_next ops = (\<lambda>(rq, attrs).
     if nr_running rq = 0 then Inr (None, rq, attrs)
     else
       rbind (pa_pop ops (active_array rq)) (\<lambda>(r, a).
       rbind (case r of
                Some t \<Rightarrow> Inr (Some t, put_array (index rq) a rq)
              | None \<Rightarrow>
                  let rq1 = swap_arrays rq in
                  rbind (pa_pop ops (active_array rq1)) (\<lambda>(r', a'). Inr (r', put_array (index rq1) a' rq1)))
         (\<lambda>(r, rq2).
       case r of
         None \<Rightarrow> Inr (None, rq2, attrs)
       | Some t \<Rightarrow> rbind (usub (nr_running rq2) 1) (\<lambda>n. Inr (Some t, rq2\<lparr>nr_running := n\<rparr>, attrs)))))"

definition rt_update_current ::
  "'b bitarr_ops \<Rightarrow> current_runtime \<Rightarrow> update_flags \<Rightarrow> 'b rt_rq \<times> sched_attr \<Rightarrow> bool" where
  "rt_update_current ops rt flags = (\<lambda>(rq, attr).
     if flags = Wait \<or> flags = Exit then nr_running rq \<noteq> 0
     else if time_slice (real_time attr) = 0 then
       peek_prio ops (active_array rq) \<noteq> None \<or>
       (case peek_prio ops (inactive_array rq) of None \<Rightarrow> False | Some p \<Rightarrow> p < prio (real_time attr))
     else time_slice (real_time attr) \<le> period_delta rt \<and> nr_running rq \<noteq> 0)"

section \<open>The stop and the idle class\<close>

text \<open>Both hold at most one task, and have the same operations but for \<open>update_current\<close>.\<close>

definition single_enqueue ::
  "nat \<Rightarrow> enqueue_flags option \<Rightarrow> nat option \<times> attrs \<Rightarrow> (nat option \<times> attrs) result" where
  "single_enqueue t flags = (\<lambda>(entity, attrs).
     rbind (rassert (entity = None)) (\<lambda>_. Inr (Some t, attrs)))"

definition single_len :: "nat option \<Rightarrow> nat" where
  "single_len entity = (if entity = None then 0 else 1)"

definition single_pick_next :: "nat option \<times> attrs \<Rightarrow> (nat option \<times> nat option \<times> attrs) result" where
  "single_pick_next = (\<lambda>(entity, attrs). Inr (entity, None, attrs))"

definition stop_update_current :: "nat option \<Rightarrow> bool" where
  "stop_update_current entity = False"

definition idle_update_current :: "nat option \<Rightarrow> bool" where
  "idle_update_current entity \<longleftrightarrow> entity \<noteq> None"

section \<open>Interface\<close>

text \<open>What the queues may do to the attributes: fetch the weight and raise the virtual runtime of the
  task that is enqueued or picked.\<close>

definition attrs_plain :: "attrs \<Rightarrow> bool" where
  "attrs_plain attrs \<longleftrightarrow> (\<forall>t a. attrs t = Some a \<longrightarrow> plain (pending_weight (fair a)))"

definition fair_frame :: "nat \<Rightarrow> attrs \<Rightarrow> attrs \<Rightarrow> bool" where
  "fair_frame t attrs attrs' \<longleftrightarrow> attrs' = attrs \<or>
     (\<exists>a f. attrs t = Some a \<and> attrs' = attrs(t \<mapsto> a\<lparr>fair := f\<rparr>) \<and> plain (pending_weight f) \<and>
        snd (fst (fetch_weight f)) = snd (fst (fetch_weight (fair a))))"

definition queued_weight :: "sched_attr \<Rightarrow> nat" where
  "queued_weight a = unat (weight (fair a) AND NOT HAS_PENDING)"

definition same_weights :: "nat multiset \<Rightarrow> attrs \<Rightarrow> attrs \<Rightarrow> bool" where
  "same_weights ts attrs attrs' \<longleftrightarrow>
     (\<forall>t. t \<in># ts \<longrightarrow> (\<exists>a a'. attrs t = Some a \<and> attrs' t = Some a' \<and> queued_weight a' = queued_weight a))"

text \<open>The trait: what every class promises the scheduler.\<close>

locale sched_class =
  fixes new :: 'rq and inv :: "attrs \<Rightarrow> 'rq \<Rightarrow> bool" and tasks :: "'rq \<Rightarrow> nat multiset"
    and enqueue :: "nat \<Rightarrow> enqueue_flags option \<Rightarrow> 'rq \<times> attrs \<Rightarrow> ('rq \<times> attrs) result"
    and len :: "'rq \<Rightarrow> nat"
    and pick_next :: "'rq \<times> attrs \<Rightarrow> (nat option \<times> 'rq \<times> attrs) result"
  assumes new_inv: "inv attrs new" and new_tasks: "tasks new = {#}"
    and enqueue_ok: "attrs_plain attrs \<Longrightarrow> inv attrs rq \<Longrightarrow> t \<notin># tasks rq \<Longrightarrow> attrs t \<noteq> None \<Longrightarrow>
      enqueue t fl (rq, attrs) = Inr (rq', attrs') \<Longrightarrow>
      inv attrs' rq' \<and> tasks rq' = add_mset t (tasks rq) \<and> fair_frame t attrs attrs'"
    and pick_ok: "attrs_plain attrs \<Longrightarrow> inv attrs rq \<Longrightarrow>
      \<exists>r rq' attrs'. pick_next (rq, attrs) = Inr (r, rq', attrs') \<and> inv attrs' rq' \<and>
        (case r of None \<Rightarrow> tasks rq = {#} \<and> rq' = rq \<and> attrs' = attrs
         | Some t \<Rightarrow> tasks rq = add_mset t (tasks rq') \<and> fair_frame t attrs attrs')"
    and len_ok: "inv attrs rq \<Longrightarrow> len rq = size (tasks rq)"
    and inv_tasks: "inv attrs rq \<Longrightarrow> t \<in># tasks rq \<Longrightarrow> attrs t \<noteq> None \<and> count (tasks rq) t = 1"
    and inv_stable: "inv attrs rq \<Longrightarrow> same_weights (tasks rq) attrs attrs' \<Longrightarrow> inv attrs' rq"
begin

lemma pick_Some:
  assumes "attrs_plain attrs" "inv attrs rq" "pick_next (rq, attrs) = Inr (Some t, rq', attrs')"
  shows "inv attrs' rq'" "tasks rq = add_mset t (tasks rq')" "fair_frame t attrs attrs'" "attrs t \<noteq> None"
    "t \<notin># tasks rq'"
proof -
  show p: "inv attrs' rq'" "tasks rq = add_mset t (tasks rq')" "fair_frame t attrs attrs'"
    using pick_ok [OF assms(1,2)] assms(3) by auto
  show "attrs t \<noteq> None" using inv_tasks [OF assms(2), of t] p(2) by simp
  show "t \<notin># tasks rq'" using inv_tasks [OF assms(2), of t] p(2) by (auto simp: not_in_iff)
qed

lemma pick_None:
  assumes "attrs_plain attrs" "inv attrs rq" "pick_next (rq, attrs) = Inr (None, rq', attrs')"
  shows "tasks rq = {#}" "rq' = rq" "attrs' = attrs"
  using pick_ok [OF assms(1,2)] assms(3) by auto

lemma pick_None_iff:
  assumes "attrs_plain attrs" "inv attrs rq"
  shows "(\<exists>rq' attrs'. pick_next (rq, attrs) = Inr (None, rq', attrs')) \<longleftrightarrow> len rq = 0"
  using pick_ok [OF assms] len_ok [OF assms(2)] by (auto split: option.splits)

lemma pick_len:
  assumes "attrs_plain attrs" "inv attrs rq" "pick_next (rq, attrs) = Inr (Some t, rq', attrs')"
  shows "len rq = Suc (len rq')"
  using pick_Some [OF assms] len_ok assms(2) by simp

lemma inv_new_iff: "inv attrs rq \<Longrightarrow> len rq = 0 \<longleftrightarrow> tasks rq = {#}"
  by (simp add: len_ok)

end

lemma fair_frame_plain: "attrs_plain attrs \<Longrightarrow> fair_frame t attrs attrs' \<Longrightarrow> attrs_plain attrs'"
  by (auto simp: attrs_plain_def fair_frame_def split: if_splits)

lemma fair_frame_dom: "fair_frame t attrs attrs' \<Longrightarrow> attrs' u = None \<longleftrightarrow> attrs u = None"
  by (auto simp: fair_frame_def split: if_splits)

lemma fair_frame_other: "fair_frame t attrs attrs' \<Longrightarrow> u \<noteq> t \<Longrightarrow> attrs' u = attrs u"
  by (auto simp: fair_frame_def)

lemma attr_ok_fair:
  "attr_ok cfg a \<Longrightarrow> plain (pending_weight f) \<Longrightarrow> snd (fst (fetch_weight f)) = snd (fst (fetch_weight (fair a))) \<Longrightarrow>
    attr_ok cfg (a\<lparr>fair := f\<rparr>)"
  by (simp add: attr_ok_def split: sched_policy.splits)

lemma fair_frame_ok:
  assumes "attrs_ok cfg attrs" "fair_frame t attrs attrs'"
  shows "attrs_ok cfg attrs'"
  using assms attr_ok_fair unfolding attrs_ok_def fair_frame_def by (auto split: if_splits)

lemma fair_frame_policy:
  assumes "fair_frame t attrs attrs'" "attrs u = Some a"
  shows "\<exists>f. attrs' u = Some (a\<lparr>fair := f\<rparr>)"
proof (cases "u = t \<and> attrs' \<noteq> attrs")
  case False
  then have "attrs' u = attrs u" using fair_frame_other [OF assms(1)] by auto
  then show ?thesis using assms(2) by (intro exI [of _ "fair a"]) simp
next
  case True
  then obtain f where "attrs' = attrs(t \<mapsto> a\<lparr>fair := f\<rparr>)" using assms by (auto simp: fair_frame_def)
  then show ?thesis using True by auto
qed

lemma attrs_ok_plain: "attrs_ok cfg attrs \<Longrightarrow> attrs_plain attrs"
  by (auto simp: attrs_ok_def attrs_plain_def attr_ok_def)

lemma same_weights_frame:
  assumes "fair_frame t attrs attrs'" "t \<notin># ts" "\<And>u. u \<in># ts \<Longrightarrow> attrs u \<noteq> None"
  shows "same_weights ts attrs attrs'"
  unfolding same_weights_def
proof (intro allI impI)
  fix u assume "u \<in># ts"
  moreover from this have "u \<noteq> t" using assms(2) by auto
  ultimately show "\<exists>a a'. attrs u = Some a \<and> attrs' u = Some a' \<and> queued_weight a' = queued_weight a"
    using assms(1,3) fair_frame_other by fastforce
qed

section \<open>The classes implement the interface\<close>

subsection \<open>Stop and idle\<close>

definition single_tasks :: "nat option \<Rightarrow> nat multiset" where
  "single_tasks entity = (case entity of None \<Rightarrow> {#} | Some t \<Rightarrow> {#t#})"

definition single_inv :: "attrs \<Rightarrow> nat option \<Rightarrow> bool" where
  "single_inv attrs entity \<longleftrightarrow> (case entity of None \<Rightarrow> True | Some t \<Rightarrow> attrs t \<noteq> None)"

interpretation single: sched_class None single_inv single_tasks single_enqueue single_len single_pick_next
  by unfold_locales
    (auto simp: single_inv_def single_tasks_def single_enqueue_def single_len_def single_pick_next_def
      rust_simps fair_frame_def same_weights_def split: option.splits)

subsection \<open>Fair\<close>

definition fair_tasks :: "fair_rq \<Rightarrow> nat multiset" where
  "fair_tasks rq = image_mset fst (mset (entities rq))"

definition fair_inv :: "attrs \<Rightarrow> fair_rq \<Rightarrow> bool" where
  "fair_inv attrs rq \<longleftrightarrow> heap item_le (entities rq) \<and>
     (\<forall>t. t \<in># fair_tasks rq \<longrightarrow> attrs t \<noteq> None \<and> count (fair_tasks rq) t = 1) \<and>
     total_weight rq = (\<Sum>t\<in>#fair_tasks rq. queued_weight (the (attrs t)))"

definition fair_len :: "fair_rq \<Rightarrow> nat" where
  "fair_len rq = length (entities rq)"

lemma queued_weight_sum_cong:
  assumes "\<And>t. t \<in># ts \<Longrightarrow> queued_weight (the (attrs' t)) = queued_weight (the (attrs t))"
  shows "(\<Sum>t\<in>#ts. queued_weight (the (attrs' t))) = (\<Sum>t\<in>#ts. queued_weight (the (attrs t)))"
  using assms by (intro arg_cong [of _ _ sum_mset] image_mset_cong) auto

lemma count_one_removed: "M = add_mset t N \<Longrightarrow> count M t = 1 \<Longrightarrow> t \<notin># N"
  by (simp add: not_in_iff)

lemma ones_removed:
  assumes "\<forall>t. t \<in># M \<longrightarrow> P t \<and> count M t = 1" "M = add_mset x N"
  shows "\<forall>t. t \<in># N \<longrightarrow> P t \<and> count N t = 1"
proof (intro allI impI)
  fix t assume t: "t \<in># N"
  then have "P t \<and> count M t = 1" using assms by simp
  moreover have "0 < count N t" using t by simp
  ultimately show "P t \<and> count N t = 1" using assms(2) by (cases "t = x") auto
qed

lemma fetch_weight_ok:
  assumes "plain (pending_weight a)" "fetch_weight a = ((old, w), f)"
  shows "old = weight a AND NOT HAS_PENDING" "w = weight f AND NOT HAS_PENDING"
    "pending_weight f = pending_weight a" "vruntime f = vruntime a" "snd (fst (fetch_weight f)) = w" "plain w"
  using assms by (auto simp: fetch_weight_def plain_def [symmetric] split: if_splits)

lemma fair_inv_stable:
  assumes "fair_inv attrs rq" "same_weights (fair_tasks rq) attrs attrs'"
  shows "fair_inv attrs' rq"
proof -
  have w: "queued_weight (the (attrs' t)) = queued_weight (the (attrs t)) \<and> attrs' t \<noteq> None"
    if "t \<in># fair_tasks rq" for t
    using assms(2) that unfolding same_weights_def by (metis option.discI option.sel)
  then show ?thesis
    using assms(1) queued_weight_sum_cong [of "fair_tasks rq" attrs' attrs] unfolding fair_inv_def by simp
qed

lemma fair_enqueue_ok:
  assumes "attrs_plain attrs" "fair_inv attrs rq" "t \<notin># fair_tasks rq"
    "fair_enqueue cfg t fl (rq, attrs) = Inr (rq', attrs')"
  shows "fair_inv attrs' rq' \<and> fair_tasks rq' = add_mset t (fair_tasks rq) \<and> fair_frame t attrs attrs'"
proof -
  obtain a where a: "attrs t = Some a"
    using assms(4) by (auto simp: fair_enqueue_def as_thread_def rust_simps split: option.splits)
  obtain old w f where f: "fetch_weight (fair a) = ((old, w), f)" by (metis prod.collapse)
  from assms(4) a f obtain v where
    e: "rq' = rq\<lparr>total_weight := total_weight rq + unat w, entities := heap_push item_le (t, v) (entities rq)\<rparr>"
      "attrs' = attrs(t \<mapsto> a\<lparr>fair := f\<lparr>vruntime := v\<rparr>\<rparr>)"
    by (auto simp: fair_enqueue_def as_thread_def rust_simps Let_def)
  have pl: "plain (pending_weight (fair a))" using assms(1) a by (auto simp: attrs_plain_def)
  note F = fetch_weight_ok [OF pl f]
  have h: "heap item_le (entities rq)" using assms(2) by (simp add: fair_inv_def)
  have ts: "fair_tasks rq' = add_mset t (fair_tasks rq)" by (simp add: fair_tasks_def e fq.insert_items [OF h])
  have q: "queued_weight (the (attrs' t)) = unat w" using F by (simp add: e queued_weight_def)
  have "(\<Sum>u\<in>#fair_tasks rq. queued_weight (the (attrs' u))) = (\<Sum>u\<in>#fair_tasks rq. queued_weight (the (attrs u)))"
    by (rule queued_weight_sum_cong) (use assms(3) in \<open>auto simp: e\<close>)
  then have "total_weight rq' = (\<Sum>u\<in>#fair_tasks rq'. queued_weight (the (attrs' u)))"
    using assms(2) q ts by (simp add: fair_inv_def e)
  moreover have "\<forall>u. u \<in># fair_tasks rq' \<longrightarrow> attrs' u \<noteq> None \<and> count (fair_tasks rq') u = 1"
    using assms(2,3) unfolding ts by (auto simp: fair_inv_def e not_in_iff)
  ultimately have "fair_inv attrs' rq'" using fq.insert_inv [OF h] by (simp add: fair_inv_def e)
  moreover have "fair_frame t attrs attrs'"
    using a F f pl unfolding fair_frame_def e(2)
    by (intro disjI2 exI [of _ a] exI [of _ "f\<lparr>vruntime := v\<rparr>"]) (simp add: fetch_weight_def split: if_splits)
  ultimately show ?thesis using ts by blast
qed

lemma fair_pick_ok:
  assumes "attrs_plain attrs" "fair_inv attrs rq"
  shows "\<exists>r rq' attrs'. fair_pick_next (rq, attrs) = Inr (r, rq', attrs') \<and> fair_inv attrs' rq' \<and>
    (case r of None \<Rightarrow> fair_tasks rq = {#} \<and> rq' = rq \<and> attrs' = attrs
     | Some t \<Rightarrow> fair_tasks rq = add_mset t (fair_tasks rq') \<and> fair_frame t attrs attrs')"
proof (cases "heap_pop item_le (entities rq)")
  case None
  then show ?thesis using assms fq.delete_None [of "entities rq"]
    by (auto simp: fair_pick_next_def fair_inv_def fair_tasks_def)
next
  case (Some p)
  then obtain t v es where p: "heap_pop item_le (entities rq) = Some ((t, v), es)" by (metis prod.collapse)
  have h: "heap item_le (entities rq)" using assms(2) by (simp add: fair_inv_def)
  note D = fq.delete_Some [OF h p]
  have ts: "fair_tasks rq = add_mset t (image_mset fst (mset es))" using D by (simp add: fair_tasks_def)
  obtain a where a: "attrs t = Some a" using assms(2) ts by (auto simp: fair_inv_def)
  have nt: "t \<notin># image_mset fst (mset es)" 
    using assms(2) ts by (intro count_one_removed [OF ts]) (simp add: fair_inv_def)
  obtain old w f where f: "fetch_weight (fair a) = ((old, w), f)" by (metis prod.collapse)
  have pl: "plain (pending_weight (fair a))" using assms(1) a by (auto simp: attrs_plain_def)
  note F = fetch_weight_ok [OF pl f]
  have tw: "total_weight rq = unat old + (\<Sum>u\<in>#image_mset fst (mset es). queued_weight (the (attrs u)))"
    using assms(2) ts a F(1) by (simp add: fair_inv_def queued_weight_def)
  define rq' where "rq' = rq\<lparr>entities := es, total_weight := total_weight rq - unat old\<rparr>"
  define attrs' where "attrs' = attrs(t \<mapsto> a\<lparr>fair := f\<rparr>)"
  have e: "fair_pick_next (rq, attrs) = Inr (Some t, rq', attrs')"
    using p a f tw by (simp add: fair_pick_next_def as_thread_def rq'_def attrs'_def)
  have ts': "fair_tasks rq' = image_mset fst (mset es)" by (simp add: fair_tasks_def rq'_def)
  have "(\<Sum>u\<in>#fair_tasks rq'. queued_weight (the (attrs' u))) = (\<Sum>u\<in>#fair_tasks rq'. queued_weight (the (attrs u)))"
    by (rule queued_weight_sum_cong) (use nt in \<open>auto simp: ts' attrs'_def\<close>)
  then have "total_weight rq' = (\<Sum>u\<in>#fair_tasks rq'. queued_weight (the (attrs' u)))"
    unfolding ts' using tw by (simp add: rq'_def)
  moreover have "\<forall>u. u \<in># fair_tasks rq' \<longrightarrow> attrs' u \<noteq> None \<and> count (fair_tasks rq') u = 1"
    using assms(2) nt unfolding ts' fair_inv_def ts by (auto simp: attrs'_def split: if_splits)
  ultimately have "fair_inv attrs' rq'" using D by (simp add: fair_inv_def rq'_def)
  moreover have "fair_frame t attrs attrs'"
    using a F f pl unfolding fair_frame_def attrs'_def by (intro disjI2 exI [of _ a] exI [of _ f]) simp
  ultimately show ?thesis using e ts ts' by auto
qed

interpretation fair: sched_class fair_new fair_inv fair_tasks "fair_enqueue cfg" fair_len fair_pick_next for cfg
proof
  fix attrs attrs' :: attrs and rq rq' :: fair_rq and t :: nat and fl :: "enqueue_flags option"
  show "fair_inv attrs fair_new" "fair_tasks fair_new = {#}"
    by (simp_all add: fair_inv_def fair_new_def fair_tasks_def heap_def)
  show "fair_len rq = size (fair_tasks rq)" by (simp add: fair_len_def fair_tasks_def)
  show "fair_inv attrs rq \<Longrightarrow> t \<in># fair_tasks rq \<Longrightarrow> attrs t \<noteq> None \<and> count (fair_tasks rq) t = 1"
    by (simp add: fair_inv_def)
  show "fair_inv attrs' rq" if "fair_inv attrs rq" "same_weights (fair_tasks rq) attrs attrs'"
    using that by (rule fair_inv_stable)
  show "fair_inv attrs' rq' \<and> fair_tasks rq' = add_mset t (fair_tasks rq) \<and> fair_frame t attrs attrs'"
    if "attrs_plain attrs" "fair_inv attrs rq" "t \<notin># fair_tasks rq" "fair_enqueue cfg t fl (rq, attrs) = Inr (rq', attrs')"
    using that by (rule fair_enqueue_ok)
  show "\<exists>r rq' attrs'. fair_pick_next (rq, attrs) = Inr (r, rq', attrs') \<and> fair_inv attrs' rq' \<and>
      (case r of None \<Rightarrow> fair_tasks rq = {#} \<and> rq' = rq \<and> attrs' = attrs
       | Some t \<Rightarrow> fair_tasks rq = add_mset t (fair_tasks rq') \<and> fair_frame t attrs attrs')"
    if "attrs_plain attrs" "fair_inv attrs rq" using that by (rule fair_pick_ok)
qed

subsection \<open>Real-time\<close>

definition pa_inv :: "'b bitarr_ops \<Rightarrow> 'b prio_array \<Rightarrow> bool" where
  "pa_inv ops a \<longleftrightarrow> length (queue a) = 100 \<and> (\<forall>i<100. ba_get ops (map_bits a) i \<longleftrightarrow> queue a ! i \<noteq> [])"

definition pa_tasks :: "'b prio_array \<Rightarrow> nat multiset" where
  "pa_tasks a = mset (concat (queue a))"

definition rt_tasks :: "'b rt_rq \<Rightarrow> nat multiset" where
  "rt_tasks rq = pa_tasks (array0 rq) + pa_tasks (array1 rq)"

definition rt_inv :: "'b bitarr_ops \<Rightarrow> attrs \<Rightarrow> 'b rt_rq \<Rightarrow> bool" where
  "rt_inv ops attrs rq \<longleftrightarrow> pa_inv ops (array0 rq) \<and> pa_inv ops (array1 rq) \<and>
     nr_running rq = size (rt_tasks rq) \<and>
     (\<forall>t. t \<in># rt_tasks rq \<longrightarrow> attrs t \<noteq> None \<and> count (rt_tasks rq) t = 1)"

lemma mset_concat_update:
  "p < length xs \<Longrightarrow> mset (concat (xs[p := ys])) + mset (xs ! p) = mset (concat xs) + mset ys"
proof (induction xs arbitrary: p)
  case (Cons x xs)
  then show ?case by (cases p) (simp_all add: add.assoc)
qed simp

lemma rt_tasks_put:
  "rt_tasks (put_array i a rq) + pa_tasks (get_array i rq) = rt_tasks rq + pa_tasks a"
  by (cases i) (simp_all add: rt_tasks_def put_array_def get_array_def ac_simps)

lemma pa_inv_put:
  "pa_inv ops (array0 (put_array i a rq)) \<and> pa_inv ops (array1 (put_array i a rq)) \<longleftrightarrow>
    pa_inv ops a \<and> pa_inv ops (get_array (\<not> i) rq)"
  by (cases i) (auto simp: put_array_def get_array_def)

lemma put_array_simps [simp]:
  "nr_running (put_array i a rq) = nr_running rq" "index (put_array i a rq) = index rq"
  by (simp_all add: put_array_def)

lemma rt_tasks_nr [simp]: "rt_tasks (rq\<lparr>nr_running := n\<rparr>) = rt_tasks rq"
  by (simp add: rt_tasks_def)

context bitarr
begin

lemma pa_new_inv: "pa_inv ops (pa_new ops)" "pa_tasks (pa_new ops) = {#}"
  by (simp_all add: pa_inv_def pa_new_def pa_tasks_def)

lemma pa_enqueue_ok:
  assumes "pa_inv ops a" "pa_enqueue ops t p a = Inr a'"
  shows "pa_inv ops a' \<and> pa_tasks a' = add_mset t (pa_tasks a) \<and> p < 100 \<and> queue a' = (queue a)[p := queue a ! p @ [t]]"
proof -
  have p: "p < length (queue a)" "length (queue a) = 100"
    and a': "a' = \<lparr>map_bits = (if queue a ! p = [] then ba_set ops (map_bits a) p True else map_bits a),
      queue = (queue a)[p := queue a ! p @ [t]]\<rparr>"
    using assms by (auto simp: pa_enqueue_def pa_inv_def Let_def split: if_splits)
  have "pa_inv ops a'" using assms(1) p by (auto simp: pa_inv_def a' nth_list_update)
  moreover have "pa_tasks a' + mset (queue a ! p) = add_mset t (pa_tasks a) + mset (queue a ! p)"
    using mset_concat_update [OF p(1), of "queue a ! p @ [t]"] by (simp add: pa_tasks_def a')
  ultimately show ?thesis using p by (simp add: a')
qed

text \<open>\<open>pop\<close> takes the oldest task of the least priority value that has one.\<close>

lemma pa_pop_ok:
  assumes "pa_inv ops a"
  shows "(pa_pop ops a = Inr (None, a) \<and> pa_tasks a = {#}) \<or>
    (\<exists>p t q a'. pa_pop ops a = Inr (Some t, a') \<and> pa_inv ops a' \<and> pa_tasks a = add_mset t (pa_tasks a') \<and>
      p < 100 \<and> queue a ! p = t # q \<and> (\<forall>i<p. queue a ! i = []) \<and> queue a' = (queue a)[p := q])"
proof (cases "find (ba_get ops (map_bits a)) [0..<100]")
  case None
  then have "\<forall>i<100. queue a ! i = []" using assms by (auto simp: find_upt_None pa_inv_def)
  then have "concat (queue a) = []" using assms by (auto simp: pa_inv_def in_set_conv_nth)
  then show ?thesis using None by (simp add: pa_pop_def first_one pa_tasks_def)
next
  case (Some p)
  then have p: "p < 100" "queue a ! p \<noteq> []" "\<forall>i<p. queue a ! i = []" "length (queue a) = 100"
    using assms by (auto simp: find_upt_Some pa_inv_def)
  then obtain t q where q: "queue a ! p = t # q" by (cases "queue a ! p") auto
  let ?a = "\<lparr>map_bits = (if q = [] then ba_set ops (map_bits a) p False else map_bits a), queue = (queue a)[p := q]\<rparr>"
  have "pa_pop ops a = Inr (Some t, ?a)" using Some p q by (simp add: pa_pop_def first_one)
  moreover have "pa_inv ops ?a" using assms p q by (auto simp: pa_inv_def nth_list_update)
  moreover have "pa_tasks ?a + mset (queue a ! p) = pa_tasks a + mset q"
    using mset_concat_update [of p "queue a" q] p by (simp add: pa_tasks_def)
  then have "pa_tasks a = add_mset t (pa_tasks ?a)" using q by simp
  ultimately show ?thesis using p q by (intro disjI2 exI [of _ p] exI [of _ t] exI [of _ q] exI [of _ ?a]) simp
qed

lemma rt_enqueue_ok:
  assumes "rt_inv ops attrs rq" "t \<notin># rt_tasks rq" "attrs t \<noteq> None"
    "rt_enqueue ops t fl (rq, attrs) = Inr (rq', attrs')"
  shows "rt_inv ops attrs' rq' \<and> rt_tasks rq' = add_mset t (rt_tasks rq) \<and> attrs' = attrs"
proof -
  let ?i = "\<not> index rq"
  obtain p a n where a: "pa_enqueue ops t p (get_array ?i rq) = Inr a" "uadd (nr_running rq) 1 = Inr n"
    "rq' = (put_array ?i a rq)\<lparr>nr_running := n\<rparr>" "attrs' = attrs"
    using assms(4) by (auto simp: rt_enqueue_def inactive_array_def rust_simps)
  have g: "pa_inv ops (get_array i rq)" for i using assms(1) by (auto simp: rt_inv_def get_array_def)
  note E = pa_enqueue_ok [OF g a(1)]
  have ts: "rt_tasks rq' = add_mset t (rt_tasks rq)"
    using rt_tasks_put [of ?i a rq] E by (simp add: a(3))
  have "pa_inv ops (array0 rq') \<and> pa_inv ops (array1 rq')" using pa_inv_put [of ops ?i a rq] E g by (simp add: a(3))
  moreover have "nr_running rq' = size (rt_tasks rq')" using assms(1) a(2) ts by (simp add: a(3) rt_inv_def rust_simps)
  moreover have "\<forall>u. u \<in># rt_tasks rq' \<longrightarrow> attrs u \<noteq> None \<and> count (rt_tasks rq') u = 1"
    using assms(1-3) unfolding ts by (auto simp: rt_inv_def not_in_iff)
  ultimately show ?thesis using ts a(4) by (simp add: rt_inv_def)
qed

lemma rt_popped:
  assumes "rt_inv ops attrs rq" "pa_pop ops (get_array i rq) = Inr (Some t, a)" "pa_inv ops a"
    "pa_tasks (get_array i rq) = add_mset t (pa_tasks a)" "rq' = (put_array i a rq)\<lparr>index := j, nr_running := nr_running rq - 1\<rparr>"
  shows "rt_inv ops attrs rq'" "rt_tasks rq = add_mset t (rt_tasks rq')"
proof -
  have g: "pa_inv ops (get_array i rq)" for i using assms(1) by (auto simp: rt_inv_def get_array_def)
  have [simp]: "rt_tasks rq' = rt_tasks (put_array i a rq)" by (simp add: assms(5) rt_tasks_def)
  show ts: "rt_tasks rq = add_mset t (rt_tasks rq')" using rt_tasks_put [of i a rq] assms(4) by simp
  have "\<forall>u. u \<in># rt_tasks rq' \<longrightarrow> attrs u \<noteq> None \<and> count (rt_tasks rq') u = 1"
    using assms(1) ts by (intro ones_removed [OF _ ts]) (simp add: rt_inv_def)
  moreover have "pa_inv ops (array0 rq') \<and> pa_inv ops (array1 rq')"
    using pa_inv_put [of ops i a rq] assms(3) g by (simp add: assms(5))
  moreover have "nr_running rq' = size (rt_tasks rq')"
    using assms(1) ts by (simp add: rt_inv_def assms(5))
  ultimately show "rt_inv ops attrs rq'" by (simp add: rt_inv_def)
qed

lemma rt_pick_ok:
  assumes "rt_inv ops attrs rq"
  shows "\<exists>r rq'. rt_pick_next ops (rq, attrs) = Inr (r, rq', attrs) \<and> rt_inv ops attrs rq' \<and>
    (case r of None \<Rightarrow> rt_tasks rq = {#} \<and> rq' = rq | Some t \<Rightarrow> rt_tasks rq = add_mset t (rt_tasks rq'))"
proof (cases "nr_running rq = 0")
  case True
  then show ?thesis using assms by (simp add: rt_pick_next_def rt_inv_def)
next
  case False
  have g: "pa_inv ops (get_array i rq)" for i using assms by (auto simp: rt_inv_def get_array_def)
  from pa_pop_ok [OF g [of "index rq"]] show ?thesis
  proof (elim disjE exE conjE)
    fix p t q a
    assume a: "pa_pop ops (get_array (index rq) rq) = Inr (Some t, a)" "pa_inv ops a"
      "pa_tasks (get_array (index rq) rq) = add_mset t (pa_tasks a)"
    let ?rq = "(put_array (index rq) a rq)\<lparr>index := index rq, nr_running := nr_running rq - 1\<rparr>"
    have "rt_pick_next ops (rq, attrs) = Inr (Some t, ?rq, attrs)"
      using a(1) False by (simp add: rt_pick_next_def active_array_def put_array_def)
    then show ?thesis using rt_popped [OF assms a refl] by fastforce
  next
    assume e: "pa_pop ops (get_array (index rq) rq) = Inr (None, get_array (index rq) rq)"
      "pa_tasks (get_array (index rq) rq) = {#}"
    have "pa_tasks (get_array (\<not> index rq) rq) \<noteq> {#}"
      using e(2) assms False by (auto simp: rt_inv_def rt_tasks_def get_array_def split: if_splits)
    with pa_pop_ok [OF g [of "\<not> index rq"]] obtain t a where
      a: "pa_pop ops (get_array (\<not> index rq) rq) = Inr (Some t, a)" "pa_inv ops a"
        "pa_tasks (get_array (\<not> index rq) rq) = add_mset t (pa_tasks a)" by auto
    let ?rq = "(put_array (\<not> index rq) a rq)\<lparr>index := \<not> index rq, nr_running := nr_running rq - 1\<rparr>"
    have s: "get_array (\<not> index rq) (swap_arrays rq) = get_array (\<not> index rq) rq"
      by (simp add: get_array_def swap_arrays_def)
    have "rt_pick_next ops (rq, attrs) = Inr (Some t, ?rq, attrs)"
      using e(1) a(1) False s by (simp add: rt_pick_next_def active_array_def swap_arrays_def put_array_def)
    then show ?thesis using rt_popped [OF assms a refl] by fastforce
  qed
qed

end

sublocale bitarr \<subseteq> rt: sched_class "rt_new ops" "rt_inv ops" rt_tasks "rt_enqueue ops" nr_running "rt_pick_next ops"
proof
  fix attrs attrs' :: attrs and rq rq' :: "'b rt_rq" and t :: nat and fl :: "enqueue_flags option"
  show "rt_inv ops attrs (rt_new ops)" "rt_tasks (rt_new ops) = {#}"
    using pa_new_inv by (simp_all add: rt_inv_def rt_new_def rt_tasks_def)
  show "nr_running rq = size (rt_tasks rq)" if "rt_inv ops attrs rq" using that by (simp add: rt_inv_def)
  show "attrs t \<noteq> None \<and> count (rt_tasks rq) t = 1" if "rt_inv ops attrs rq" "t \<in># rt_tasks rq"
    using that by (simp add: rt_inv_def)
  show "rt_inv ops attrs' rq" if "rt_inv ops attrs rq" "same_weights (rt_tasks rq) attrs attrs'"
    using that unfolding rt_inv_def same_weights_def by (metis option.discI)
  show "rt_inv ops attrs' rq' \<and> rt_tasks rq' = add_mset t (rt_tasks rq) \<and> fair_frame t attrs attrs'"
    if "rt_inv ops attrs rq" "t \<notin># rt_tasks rq" "attrs t \<noteq> None" "rt_enqueue ops t fl (rq, attrs) = Inr (rq', attrs')"
    using rt_enqueue_ok [OF that] unfolding fair_frame_def by blast
  show "\<exists>r rq' attrs'. rt_pick_next ops (rq, attrs) = Inr (r, rq', attrs') \<and> rt_inv ops attrs' rq' \<and>
      (case r of None \<Rightarrow> rt_tasks rq = {#} \<and> rq' = rq \<and> attrs' = attrs
       | Some t \<Rightarrow> rt_tasks rq = add_mset t (rt_tasks rq') \<and> fair_frame t attrs attrs')"
    if "rt_inv ops attrs rq"
    using rt_pick_ok [OF that] by (fastforce simp: fair_frame_def split: option.splits)
qed

text \<open>A bit array as a function from positions, which meets the laws of \<open>bitarr\<close>.\<close>

definition fn_bitarr :: "(nat \<Rightarrow> bool) bitarr_ops" where
  "fn_bitarr = \<lparr>ba_zero = (\<lambda>_. False), ba_get = (\<lambda>b. b), ba_set = (\<lambda>b i v. b(i := v)),
     ba_first_one = (\<lambda>b. find b [0..<100])\<rparr>"

interpretation fnb: bitarr fn_bitarr
  by unfold_locales (auto simp: fn_bitarr_def)

end
