(* ===== verification/Id_Set.thy ===== *)
theory Id_Set
  imports Prelude
begin

text \<open>
  Sets of ids, \<open>osxtd/src/util/id_set.rs\<close>: \<open>IdSet\<close> and \<open>AtomicIdSet\<close> over a vector of 64-bit parts. An id is
  a natural below the cardinality \<open>n\<close> of its type, which is an argument. CPU sets are sets of ids.

  The view of the parts as one slice of bits is of the third-party crate \<open>bitvec\<close>: the argument \<open>ones\<close>
  stands for \<open>view_bits::<Lsb0>()[start..end].iter_ones()\<close>, and the locale \<open>bit_view\<close> states its documented
  result. Slicing out of bounds panics.
\<close>

section \<open>Parts\<close>

type_synonym id_set = "64 word list"

definition part_idx :: "nat \<Rightarrow> nat" where "part_idx i = i div 64"

definition bit_idx :: "nat \<Rightarrow> nat" where "bit_idx i = i mod 64"

definition parts_for_ids :: "nat \<Rightarrow> nat" where
  "parts_for_ids n = n div 64 + (if n mod 64 = 0 then 0 else 1)"

definition with_bit_pattern :: "nat \<Rightarrow> 64 word \<Rightarrow> id_set" where
  "with_bit_pattern n w = replicate (parts_for_ids n) w"

definition last_mask :: "nat \<Rightarrow> 64 word" where
  "last_mask n = push_bit (n mod 64) 1 - 1"

definition clear_invalid_id_bits :: "nat \<Rightarrow> id_set \<Rightarrow> id_set result" where
  "clear_invalid_id_bits n bits =
     (if n mod 64 \<noteq> 0 then
        let p = parts_for_ids n - 1 in
        if p < length bits then Inr (bits[p := bits ! p AND last_mask n]) else Inl Panic
      else Inr bits)"

section \<open>Operations\<close>

definition ids_new_full :: "nat \<Rightarrow> id_set result" where
  "ids_new_full n = clear_invalid_id_bits n (with_bit_pattern n (NOT 0))"

definition ids_new_empty :: "nat \<Rightarrow> id_set" where
  "ids_new_empty n = with_bit_pattern n 0"

definition ids_add :: "nat \<Rightarrow> id_set \<Rightarrow> id_set" where
  "ids_add i bits =
     (let p = part_idx i;
          bits1 = (if p \<ge> length bits then bits @ replicate (p + 1 - length bits) 0 else bits)
      in bits1[p := bits1 ! p OR push_bit (bit_idx i) 1])"

definition ids_remove :: "nat \<Rightarrow> id_set \<Rightarrow> id_set" where
  "ids_remove i bits =
     (let p = part_idx i in
      if p < length bits then bits[p := bits ! p AND NOT (push_bit (bit_idx i) 1)] else bits)"

definition ids_contains :: "nat \<Rightarrow> id_set \<Rightarrow> bool" where
  "ids_contains i bits \<longleftrightarrow>
     part_idx i < length bits \<and> bits ! part_idx i AND push_bit (bit_idx i) 1 \<noteq> 0"

text \<open>\<open>u64::count_ones\<close>.\<close>

definition count_ones :: "64 word \<Rightarrow> nat" where
  "count_ones w = length (filter (bit w) [0..<64])"

definition ids_count :: "id_set \<Rightarrow> nat" where
  "ids_count bits = sum_list (map count_ones bits)"

definition ids_is_empty :: "id_set \<Rightarrow> bool" where
  "ids_is_empty bits \<longleftrightarrow> list_all (\<lambda>part. part = 0) bits"

definition ids_is_full :: "nat \<Rightarrow> id_set \<Rightarrow> bool" where
  "ids_is_full n bits \<longleftrightarrow>
     list_all (\<lambda>(idx, part).
       if idx = length bits - 1 \<and> n mod 64 \<noteq> 0 then part = last_mask n else part = NOT 0)
     (enumerate 0 bits)"

definition ids_add_all :: "nat \<Rightarrow> id_set \<Rightarrow> id_set result" where
  "ids_add_all n bits = clear_invalid_id_bits n (replicate (length bits) (NOT 0))"

definition ids_clear :: "id_set \<Rightarrow> id_set" where
  "ids_clear bits = replicate (length bits) 0"

definition ids_from :: "nat \<Rightarrow> nat \<Rightarrow> id_set" where
  "ids_from n i = ids_add i (ids_new_empty n)"

text \<open>Slicers.\<close>

datatype bound = Included nat | Excluded nat | Unbounded

datatype slicer = RangeTo nat | RangeFrom nat | Range nat nat | RangeFull | RangeToInclusive nat
  | Bounds bound bound

fun to_range_bounds :: "nat \<Rightarrow> slicer \<Rightarrow> nat \<times> nat" where
  "to_range_bounds n (RangeTo e) = (0, e)"
| "to_range_bounds n (RangeFrom s) = (s, n)"
| "to_range_bounds n (Range s e) = (s, e)"
| "to_range_bounds n RangeFull = (0, n)"
| "to_range_bounds n (RangeToInclusive e) = (0, e + 1)"
| "to_range_bounds n (Bounds sb eb) =
     (case sb of Included i \<Rightarrow> i | Excluded i \<Rightarrow> i + 1 | Unbounded \<Rightarrow> 0,
      case eb of Included i \<Rightarrow> i + 1 | Excluded i \<Rightarrow> i | Unbounded \<Rightarrow> n)"

definition ids_iter_in ::
  "(id_set \<Rightarrow> nat \<Rightarrow> nat \<Rightarrow> nat list) \<Rightarrow> nat \<Rightarrow> slicer \<Rightarrow> id_set \<Rightarrow> nat list result" where
  "ids_iter_in ones n sl bits =
     (let (s, e) = to_range_bounds n sl in
      if s \<le> e \<and> e \<le> 64 * length bits then Inr (map (\<lambda>offset. s + offset) (ones bits s e)) else Inl Panic)"

definition ids_iter :: "(id_set \<Rightarrow> nat \<Rightarrow> nat \<Rightarrow> nat list) \<Rightarrow> nat \<Rightarrow> id_set \<Rightarrow> nat list result" where
  "ids_iter ones n = ids_iter_in ones n RangeFull"

text \<open>\<open>AtomicIdSet\<close>: every part is one atomic word. \<open>load\<close> and \<open>store\<close> go through the parts.\<close>

definition atomic_load :: "id_set \<Rightarrow> id_set" where
  "atomic_load bits = map (\<lambda>part. part) bits"

fun atomic_store :: "id_set \<Rightarrow> id_set \<Rightarrow> id_set" where
  "atomic_store (part # parts) (new # news) = new # atomic_store parts news"
| "atomic_store parts _ = parts"

definition atomic_add :: "nat \<Rightarrow> id_set \<Rightarrow> id_set" where
  "atomic_add i bits =
     (let p = part_idx i in
      if p < length bits then bits[p := bits ! p OR push_bit (bit_idx i) 1] else bits)"

definition atomic_remove :: "nat \<Rightarrow> id_set \<Rightarrow> id_set" where
  "atomic_remove i bits =
     (let p = part_idx i in
      if p < length bits then bits[p := bits ! p AND NOT (push_bit (bit_idx i) 1)] else bits)"

definition atomic_contains :: "nat \<Rightarrow> id_set \<Rightarrow> bool" where
  "atomic_contains i bits \<longleftrightarrow>
     (let p = part_idx i in p < length bits \<and> bits ! p AND push_bit (bit_idx i) 1 \<noteq> 0)"

section \<open>The set\<close>

definition bit_at :: "id_set \<Rightarrow> nat \<Rightarrow> bool" where
  "bit_at bits i \<longleftrightarrow> bit (bits ! (i div 64)) (i mod 64)"

definition ids_set :: "id_set \<Rightarrow> nat set" where
  "ids_set bits = {i. i < 64 * length bits \<and> bit_at bits i}"

definition ids_ok :: "nat \<Rightarrow> id_set \<Rightarrow> bool" where
  "ids_ok n bits \<longleftrightarrow> length bits = parts_for_ids n \<and> ids_set bits \<subseteq> {0..<n}"

locale bit_view =
  fixes ones :: "id_set \<Rightarrow> nat \<Rightarrow> nat \<Rightarrow> nat list"
  assumes ones_eq: "s \<le> e \<Longrightarrow> e \<le> 64 * length bits \<Longrightarrow> ones bits s e = filter (\<lambda>i. bit_at bits (s + i)) [0..<e - s]"

lemma parts_bounds: "n \<le> 64 * parts_for_ids n" "64 * parts_for_ids n < n + 64"
proof -
  obtain q r where n: "n = 64 * q + r" "r < 64" "n div 64 = q" "n mod 64 = r"
    using that [of "n div 64" "n mod 64"] by simp
  then show "n \<le> 64 * parts_for_ids n" "64 * parts_for_ids n < n + 64" by (auto simp: parts_for_ids_def)
qed

lemma part_less: "i < 64 * m \<longleftrightarrow> i div 64 < (m :: nat)"
  by (simp add: div_less_iff_less_mult mult.commute)

lemma part_in: "i < n \<Longrightarrow> part_idx i < parts_for_ids n"
  using parts_bounds(1) [of n] part_less [of i "parts_for_ids n"] by (simp add: part_idx_def)

lemma bit_one_shift: "bit (2 ^ k :: 64 word) j \<longleftrightarrow> j = k \<and> k < 64"
  by (auto simp: bit_exp_iff)

lemma bit_last_mask: "bit (last_mask n) j \<longleftrightarrow> j < n mod 64"
proof -
  have "last_mask n = mask (n mod 64)" by (simp add: last_mask_def mask_eq_decr_exp push_bit_eq_mult)
  then show ?thesis by (auto simp: bit_mask_iff)
qed

lemma mem_ids_set: "i \<in> ids_set bits \<longleftrightarrow> i div 64 < length bits \<and> bit (bits ! (i div 64)) (i mod 64)"
  by (simp add: ids_set_def bit_at_def part_less)

lemma same_place: "i div 64 = j div 64 \<Longrightarrow> i mod 64 = j mod 64 \<Longrightarrow> i = (j :: nat)"
  by (metis div_mod_decomp)

lemma ids_set_update:
  assumes "p < length bits"
  shows "ids_set (bits[p := w]) = {i \<in> ids_set bits. i div 64 \<noteq> p} \<union> {i. i div 64 = p \<and> bit w (i mod 64)}"
  using assms by (auto simp: mem_ids_set nth_list_update split: if_splits)

lemma ids_add_set:
  assumes "ids_ok n bits" "i < n"
  shows "ids_set (ids_add i bits) = insert i (ids_set bits)" "ids_ok n (ids_add i bits)"
proof -
  have p: "part_idx i < length bits" using assms part_in by (simp add: ids_ok_def)
  then have e: "ids_add i bits = bits[part_idx i := bits ! part_idx i OR push_bit (bit_idx i) 1]"
    by (simp add: ids_add_def Let_def)
  show s: "ids_set (ids_add i bits) = insert i (ids_set bits)"
    unfolding e ids_set_update [OF p]
    using p by (auto simp: mem_ids_set bit_or_iff bit_one_shift part_idx_def bit_idx_def dest: same_place)
  show "ids_ok n (ids_add i bits)" using assms s by (auto simp: ids_ok_def e)
qed

lemma ids_remove_set:
  assumes "ids_ok n bits" "i < n"
  shows "ids_set (ids_remove i bits) = ids_set bits - {i}" "ids_ok n (ids_remove i bits)"
proof -
  have p: "part_idx i < length bits" using assms part_in by (simp add: ids_ok_def)
  then have e: "ids_remove i bits = bits[part_idx i := bits ! part_idx i AND NOT (push_bit (bit_idx i) 1)]"
    by (simp add: ids_remove_def Let_def)
  show s: "ids_set (ids_remove i bits) = ids_set bits - {i}"
    unfolding e ids_set_update [OF p]
    using p by (auto simp: mem_ids_set bit_and_iff bit_not_iff bit_one_shift part_idx_def bit_idx_def dest: same_place)
  show "ids_ok n (ids_remove i bits)" using assms s by (auto simp: ids_ok_def e)
qed

lemma ids_contains_set: "ids_contains i bits \<longleftrightarrow> i \<in> ids_set bits"
proof -
  have "w AND 2 ^ k \<noteq> 0 \<longleftrightarrow> bit w k" if "k < 64" for w :: "64 word" and k
    using that by (auto simp: bit_eq_iff [of "w AND 2 ^ k"] bit_and_iff bit_one_shift)
  then show ?thesis by (auto simp: ids_contains_def mem_ids_set part_idx_def bit_idx_def)
qed

lemma less_split: "i < n \<longleftrightarrow> i div 64 < n div 64 \<or> i div 64 = n div 64 \<and> i mod 64 < n mod (64 :: nat)"
proof -
  have "i = 64 * (i div 64) + i mod 64" "n = 64 * (n div 64) + n mod 64" "i mod 64 < 64" "n mod 64 < 64" by simp_all
  then show ?thesis by (cases "i div 64" "n div 64" rule: linorder_cases) linarith+
qed

lemma clear_invalid_ok:
  assumes "length bits = parts_for_ids n"
  shows "\<exists>bits'. clear_invalid_id_bits n bits = Inr bits' \<and> ids_ok n bits' \<and> ids_set bits' = ids_set bits \<inter> {0..<n}"
proof (cases "n mod 64 = 0")
  case True
  then have "64 * parts_for_ids n = n"
    using div_mult_mod_eq [of n 64] by (simp add: parts_for_ids_def)
  then show ?thesis using True assms by (auto simp: clear_invalid_id_bits_def ids_ok_def ids_set_def)
next
  case False
  let ?p = "n div 64"
  have p: "parts_for_ids n - 1 = ?p" "?p < length bits" "length bits = Suc ?p"
    using False assms by (auto simp: parts_for_ids_def)
  let ?bits = "bits[?p := bits ! ?p AND last_mask n]"
  have "ids_set ?bits = ids_set bits \<inter> {0..<n}"
    unfolding ids_set_update [OF p(2)] using p(3)
    by (auto simp: mem_ids_set bit_and_iff bit_last_mask less_split [of _ n])
  then show ?thesis using False p assms by (auto simp: clear_invalid_id_bits_def ids_ok_def Let_def)
qed

lemma ids_set_replicate_full: "ids_set (replicate m (- 1)) = {0..<64 * m}"
  by (auto simp: mem_ids_set part_less)

lemma ids_set_replicate_0: "ids_set (replicate m 0) = {}"
  by (auto simp: mem_ids_set)

lemma ids_full_ok:
  assumes "length bits = parts_for_ids n"
  shows "\<exists>full. ids_add_all n bits = Inr full \<and> ids_new_full n = Inr full \<and> ids_ok n full \<and> ids_set full = {0..<n}"
  using clear_invalid_ok [of "replicate (parts_for_ids n) (- 1)" n] parts_bounds(1) [of n] assms
  by (auto simp: ids_add_all_def ids_new_full_def with_bit_pattern_def ids_set_replicate_full)

lemma ids_set_inj:
  assumes "length bits = length bits'" "ids_set bits = ids_set bits'"
  shows "bits = bits'"
proof (rule nth_equalityI [OF assms(1)])
  fix p assume p: "p < length bits"
  show "bits ! p = bits' ! p"
  proof (rule bit_word_eqI)
    fix k assume "k < LENGTH(64)"
    then have "(64 * p + k) div 64 = p" "(64 * p + k) mod 64 = k" by auto
    then show "bit (bits ! p) k \<longleftrightarrow> bit (bits' ! p) k"
      using assms p mem_ids_set [of "64 * p + k" bits] mem_ids_set [of "64 * p + k" bits'] by simp
  qed
qed

lemma ids_is_empty_set: "ids_is_empty bits \<longleftrightarrow> ids_set bits = {}"
proof -
  have "ids_is_empty bits \<longleftrightarrow> bits = replicate (length bits) 0"
    by (auto simp: ids_is_empty_def list_all_iff replicate_length_same) (metis in_set_replicate)
  also have "\<dots> \<longleftrightarrow> ids_set bits = {}"
    using ids_set_inj [of bits "replicate (length bits) 0"] ids_set_replicate_0 by (metis length_replicate)
  finally show ?thesis .
qed

lemma ids_is_full_set:
  assumes ok: "ids_ok n bits" and n: "0 < n"
  shows "ids_is_full n bits \<longleftrightarrow> ids_set bits = {0..<n}"
proof -
  obtain full where full: "ids_new_full n = Inr full" "ids_ok n full" "ids_set full = {0..<n}"
    using ids_full_ok [of bits n] ok by (auto simp: ids_ok_def)
  have len: "length full = length bits" using ok full(2) by (simp add: ids_ok_def)
  have nth: "full ! i = (if i = length bits - 1 \<and> n mod 64 \<noteq> 0 then last_mask n else NOT 0)" if "i < length bits" for i
    using full(1) that ok
    by (auto simp: ids_new_full_def clear_invalid_id_bits_def with_bit_pattern_def ids_ok_def Let_def nth_list_update
        split: if_splits)
  have "ids_is_full n bits \<longleftrightarrow> (\<forall>i<length bits. bits ! i = full ! i)"
    using nth by (auto simp: ids_is_full_def list_all_length nth_enumerate_eq)
  also have "\<dots> \<longleftrightarrow> bits = full" using len by (auto intro: nth_equalityI)
  also have "\<dots> \<longleftrightarrow> ids_set bits = {0..<n}" using ids_set_inj [OF len] full(3) by auto
  finally show ?thesis .
qed

lemma count_ones_card: "count_ones w = card {i. i < 64 \<and> bit w i}"
proof -
  have "set (filter (bit w) [0..<64]) = {i. i < 64 \<and> bit w i}" by auto
  then show ?thesis unfolding count_ones_def by (metis distinct_card distinct_filter distinct_upt)
qed

lemma ids_set_Cons: "ids_set (w # bits) = {i. i < 64 \<and> bit w i} \<union> (+) 64 ` ids_set bits"
proof (rule set_eqI)
  fix i
  show "i \<in> ids_set (w # bits) \<longleftrightarrow> i \<in> {i. i < 64 \<and> bit w i} \<union> (+) 64 ` ids_set bits"
  proof (cases "i < 64")
    case True
    then show ?thesis by (auto simp: mem_ids_set)
  next
    case False
    define j where "j = i - 64"
    then have "i = 64 + j" "(64 + j) div 64 = Suc (j div 64)" using False by simp_all
    then show ?thesis by (auto simp: mem_ids_set)
  qed
qed

lemma ids_count_card: "ids_count bits = card (ids_set bits) \<and> finite (ids_set bits)"
proof (induction bits)
  case (Cons w bits)
  have "card (ids_set (w # bits)) = card {i. i < 64 \<and> bit w i} + card ((+) 64 ` ids_set bits)"
    unfolding ids_set_Cons using Cons by (intro card_Un_disjoint) auto
  then show ?case using Cons unfolding ids_set_Cons
    by (simp add: ids_count_def count_ones_card card_image)
qed (simp add: ids_count_def ids_set_def)

context bit_view
begin

lemma iter_in_ok:
  assumes "ids_ok n bits" "to_range_bounds n sl = (s, e)" "s \<le> e" "e \<le> n"
  shows "ids_iter_in ones n sl bits = Inr (filter (\<lambda>i. i \<in> ids_set bits) [s..<e])"
proof -
  have e: "e \<le> 64 * length bits" using assms parts_bounds(1) [of n] by (auto simp: ids_ok_def)
  have "map (\<lambda>i. s + i) (filter (\<lambda>i. bit_at bits (s + i)) [0..<e - s]) = filter (bit_at bits) (map (\<lambda>i. s + i) [0..<e - s])"
    by (simp add: filter_map o_def)
  also have "map (\<lambda>i. s + i) [0..<e - s] = [s..<e]"
    using map_add_upt [of s "e - s"] assms(3) by (simp add: add.commute)
  also have "filter (bit_at bits) [s..<e] = filter (\<lambda>i. i \<in> ids_set bits) [s..<e]"
    using e by (intro filter_cong) (auto simp: ids_set_def)
  finally show ?thesis using assms e by (simp add: ids_iter_in_def ones_eq)
qed

end

text \<open>A view of the parts that meets the laws of \<open>bit_view\<close>.\<close>

definition list_ones :: "id_set \<Rightarrow> nat \<Rightarrow> nat \<Rightarrow> nat list" where
  "list_ones bits s e = filter (\<lambda>i. bit_at bits (s + i)) [0..<e - s]"

interpretation lones: bit_view list_ones
  by unfold_locales (simp add: list_ones_def)

lemma atomic_add_eq: "ids_ok n bits \<Longrightarrow> i < n \<Longrightarrow> atomic_add i bits = ids_add i bits"
  using part_in [of i n] by (simp add: atomic_add_def ids_add_def ids_ok_def Let_def)

lemma atomic_remove_eq: "ids_ok n bits \<Longrightarrow> i < n \<Longrightarrow> atomic_remove i bits = ids_remove i bits"
  using part_in [of i n] by (simp add: atomic_remove_def ids_remove_def ids_ok_def Let_def)

lemma atomic_contains_eq: "atomic_contains i bits = ids_contains i bits"
  by (simp add: atomic_contains_def ids_contains_def Let_def)

lemma atomic_store_eq: "length parts = length news \<Longrightarrow> atomic_store parts news = news"
  by (induction parts news rule: list_induct2) auto

lemma iter_in_panic: "to_range_bounds n sl = (s, e) \<Longrightarrow> \<not> s \<le> e \<Longrightarrow> ids_iter_in ones n sl bits = Inl Panic"
  by (simp add: ids_iter_in_def)

section \<open>Property\<close>

text \<open>C20. Sets of ids. The operations on the words are the operations on the set of ids they stand for,
  with no id at or above the cardinality: adding, removing, testing, counting, emptiness, fullness,
  filling and clearing; the atomic set agrees. Iterating over a slice yields the ids of the set
  in the slice in ascending order, and a slice whose start is after its end panics.\<close>

theorem id_set_refines_sets:
  assumes "bit_view ones" "ids_ok n bits" "i < n"
  shows "ids_ok n (ids_add i bits) \<and> ids_set (ids_add i bits) = insert i (ids_set bits) \<and>
    ids_ok n (ids_remove i bits) \<and> ids_set (ids_remove i bits) = ids_set bits - {i} \<and>
    ids_contains i bits = (i \<in> ids_set bits) \<and> ids_count bits = card (ids_set bits) \<and>
    ids_is_empty bits = (ids_set bits = {}) \<and> ids_is_full n bits = (ids_set bits = {0..<n}) \<and>
    (\<exists>full. ids_add_all n bits = Inr full \<and> ids_new_full n = Inr full \<and> ids_ok n full \<and> ids_set full = {0..<n}) \<and>
    ids_clear bits = ids_new_empty n \<and> ids_ok n (ids_new_empty n) \<and> ids_set (ids_new_empty n) = {} \<and>
    atomic_add i bits = ids_add i bits \<and> atomic_remove i bits = ids_remove i bits \<and>
    atomic_contains i bits = (i \<in> ids_set bits) \<and> atomic_load bits = bits \<and> (\<forall>new. ids_ok n new \<longrightarrow> atomic_store bits new = new) \<and>
    (\<forall>sl s e. to_range_bounds n sl = (s, e) \<and> e \<le> n \<longrightarrow>
      ids_iter_in ones n sl bits =
        (if s \<le> e then Inr (filter (\<lambda>i. i \<in> ids_set bits) [s..<e]) else Inl Panic))"
proof -
  have "ids_clear bits = ids_new_empty n" "ids_ok n (ids_new_empty n)" "ids_set (ids_new_empty n) = {}"
    using assms(2) by (auto simp: ids_clear_def ids_new_empty_def with_bit_pattern_def ids_ok_def ids_set_replicate_0)
  moreover have "\<forall>new. ids_ok n new \<longrightarrow> atomic_store bits new = new"
    using assms(2) by (auto simp: ids_ok_def intro: atomic_store_eq)
  moreover have "\<forall>sl s e. to_range_bounds n sl = (s, e) \<and> e \<le> n \<longrightarrow>
      ids_iter_in ones n sl bits =
        (if s \<le> e then Inr (filter (\<lambda>i. i \<in> ids_set bits) [s..<e]) else Inl Panic)"
    using bit_view.iter_in_ok [OF assms(1,2)] iter_in_panic by (metis (full_types))
  ultimately show ?thesis
    using ids_add_set [OF assms(2,3)] ids_remove_set [OF assms(2,3)] ids_contains_set ids_count_card
      ids_is_empty_set ids_is_full_set [OF assms(2)] ids_full_ok [of bits n] atomic_add_eq [OF assms(2,3)]
      atomic_remove_eq [OF assms(2,3)] assms(2,3)
    by (simp add: ids_ok_def atomic_contains_eq atomic_load_def)
qed

theorem id_set_refines_sets_witness:
  "bit_view list_ones \<and> ids_ok 70 [4, 2] \<and> ids_set (ids_add 3 [4, 2]) = insert 3 (ids_set [4, 2]) \<and>
   ids_iter_in list_ones 70 (Bounds (Excluded 2) Unbounded) [4, 2] = Inr [65]"
proof -
  have v: "bit_view list_ones" ..
  have b: "bit (4 :: 64 word) i \<longleftrightarrow> i = 2" "bit (2 :: 64 word) i \<longleftrightarrow> i = 1" for i
    using bit_one_shift [of 2 i] bit_one_shift [of 1 i] by auto
  have S: "ids_set [4, 2] = {2, 65}"
    unfolding ids_set_Cons b by (auto simp: ids_set_def)
  have ok: "ids_ok 70 [4, 2]" unfolding ids_ok_def S by (simp add: parts_for_ids_def)
  have R: "ids_set (ids_add 3 [4, 2]) = insert 3 (ids_set [4, 2])"
    "\<forall>sl s e. to_range_bounds 70 sl = (s, e) \<and> e \<le> 70 \<longrightarrow> ids_iter_in list_ones 70 sl [4, 2] =
      (if s \<le> e then Inr (filter (\<lambda>i. i \<in> ids_set [4, 2]) [s..<e]) else Inl Panic)"
    using id_set_refines_sets [OF v ok, of 3] by (elim conjE; assumption | simp)+
  have "to_range_bounds 70 (Bounds (Excluded 2) Unbounded) = (3, 70) \<and> 70 \<le> (70 :: nat)" by simp
  note R(2) [rule_format, OF this]
  also have "filter (\<lambda>i. i \<in> ids_set [4, 2]) [3..<70] = [65]" unfolding S by code_simp
  finally show ?thesis using R(1) v ok by (simp only:) simp
qed

end
