(* ===== verification/Class_Scheduler.thy ===== *)
theory Class_Scheduler
  imports Sched_Classes Id_Set
begin

text \<open>
  The scheduler that composes the classes, \<open>kernel/src/sched/sched_class/mod.rs\<close>, with the CPU recorded in
  each task, \<open>osxtd/src/task/scheduler/info.rs\<close>. The state holds the run queues of all CPUs, the
  attributes of the tasks with a thread, the recorded CPUs and the CPU chosen last. The clock and
  the current CPU are arguments.

  \<open>ClassScheduler::enqueue\<close> takes the lock of the run queue only after it has claimed the task; it is
  two steps, \<open>enqueue_claim\<close> and \<open>enqueue_commit\<close>, between which other CPUs may run. Everything else is
  done under the lock of one run queue.
\<close>

section \<open>One CPU\<close>

record 'b cpu_rq =
  stop_rq :: "nat option"
  rt_queue :: "'b rt_rq"
  fair_queue :: fair_rq
  idle_rq :: "nat option"
  current :: "(nat \<times> current_runtime) option"

definition cpu_rq_new :: "'b bitarr_ops \<Rightarrow> 'b cpu_rq" where
  "cpu_rq_new ops =
     \<lparr>stop_rq = None, rt_queue = rt_new ops, fair_queue = fair_new, idle_rq = None, current = None\<rparr>"

text \<open>The last step of \<open>pick_next_entity\<close>: a task without a thread is dropped.\<close>

definition entity_of :: "nat option \<Rightarrow> 'b cpu_rq \<Rightarrow> attrs \<Rightarrow> (nat option \<times> 'b cpu_rq \<times> attrs) result" where
  "entity_of r q at =
     (case r of None \<Rightarrow> Inr (None, q, at) | Some t \<Rightarrow> Inr (if at t = None then None else Some t, q, at))"

definition pick_next_entity ::
  "'b bitarr_ops \<Rightarrow> 'b cpu_rq \<times> attrs \<Rightarrow> (nat option \<times> 'b cpu_rq \<times> attrs) result" where
  "pick_next_entity ops = (\<lambda>(q, at).
     rbind (single_pick_next (stop_rq q, at)) (\<lambda>(r, s, at).
     let q = q\<lparr>stop_rq := s\<rparr> in
     if r \<noteq> None then entity_of r q at else
     rbind (rt_pick_next ops (rt_queue q, at)) (\<lambda>(r, s, at).
     let q = q\<lparr>rt_queue := s\<rparr> in
     if r \<noteq> None then entity_of r q at else
     rbind (fair_pick_next (fair_queue q, at)) (\<lambda>(r, s, at).
     let q = q\<lparr>fair_queue := s\<rparr> in
     if r \<noteq> None then entity_of r q at else
     rbind (single_pick_next (idle_rq q, at)) (\<lambda>(r, s, at).
       entity_of r (q\<lparr>idle_rq := s\<rparr>) at)))))"

definition enqueue_entity ::
  "sched_cfg \<Rightarrow> 'b bitarr_ops \<Rightarrow> nat \<Rightarrow> enqueue_flags option \<Rightarrow> 'b cpu_rq \<times> attrs \<Rightarrow> ('b cpu_rq \<times> attrs) result" where
  "enqueue_entity cfg ops t flags = (\<lambda>(q, at).
     rbind (as_thread at t) (\<lambda>a.
       case ps_kind (policy a) of
         KStop \<Rightarrow> rbind (single_enqueue t flags (stop_rq q, at)) (\<lambda>(s, at). Inr (q\<lparr>stop_rq := s\<rparr>, at))
       | KRealTime \<Rightarrow> rbind (rt_enqueue ops t flags (rt_queue q, at)) (\<lambda>(s, at). Inr (q\<lparr>rt_queue := s\<rparr>, at))
       | KFair \<Rightarrow> rbind (fair_enqueue cfg t flags (fair_queue q, at)) (\<lambda>(s, at). Inr (q\<lparr>fair_queue := s\<rparr>, at))
       | KIdle \<Rightarrow> rbind (single_enqueue t flags (idle_rq q, at)) (\<lambda>(s, at). Inr (q\<lparr>idle_rq := s\<rparr>, at))))"

definition queue_len :: "'b cpu_rq \<Rightarrow> nat" where
  "queue_len q = (single_len (stop_rq q) + nr_running (rt_queue q) + fair_len (fair_queue q)) mod 2 ^ 32"

definition rq_is_idle :: "'b cpu_rq \<Rightarrow> attrs \<Rightarrow> bool result" where
  "rq_is_idle q at =
     (case current q of
        Some (t, _) \<Rightarrow> rbind (as_thread at t) (\<lambda>a. Inr (ps_kind (policy a) = KIdle))
      | None \<Rightarrow> Inr True)"

text \<open>The methods of \<open>LocalRunQueue\<close>.\<close>

definition try_pick_next ::
  "sched_cfg \<Rightarrow> 'b bitarr_ops \<Rightarrow> nat \<Rightarrow> 'b cpu_rq \<times> attrs \<Rightarrow> (nat option \<times> 'b cpu_rq \<times> attrs) result" where
  "try_pick_next cfg ops now st =
     rbind (pick_next_entity ops st) (\<lambda>(r, q, at).
       case r of
         None \<Rightarrow> Inr (None, q, at)
       | Some t \<Rightarrow>
           let old = current q;
               q1 = q\<lparr>current := Some (t, runtime_new now)\<rparr>
           in rbind (case old of
                       Some (t0, _) \<Rightarrow> enqueue_entity cfg ops t0 None (q1, at)
                     | None \<Rightarrow> Inr (q1, at))
                (\<lambda>(q2, at2). Inr (Some t, q2, at2)))"

definition class_update_current ::
  "sched_cfg \<Rightarrow> 'b bitarr_ops \<Rightarrow> current_runtime \<Rightarrow> update_flags \<Rightarrow> 'b cpu_rq \<Rightarrow> sched_attr \<Rightarrow>
    (bool \<times> nat \<times> 'b cpu_rq \<times> sched_attr) result" where
  "class_update_current cfg ops rt flags q a =
     (case ps_kind (policy a) of
        KStop \<Rightarrow> Inr (stop_update_current (stop_rq q), 0, q, a)
      | KRealTime \<Rightarrow> Inr (rt_update_current ops rt flags (rt_queue q, a), 1, q, a)
      | KFair \<Rightarrow> rbind (fair_update_current cfg rt flags (fair_queue q, a)) (\<lambda>(b, s, a').
          Inr (b, 2, q\<lparr>fair_queue := s\<rparr>, a'))
      | KIdle \<Rightarrow> Inr (idle_update_current (idle_rq q), 3, q, a))"

definition look_ahead :: "nat \<Rightarrow> 'b cpu_rq \<Rightarrow> bool" where
  "look_ahead lookahead q \<longleftrightarrow>
     lookahead \<ge> 1 \<and> stop_rq q \<noteq> None \<or> lookahead \<ge> 2 \<and> nr_running (rt_queue q) \<noteq> 0 \<or>
     lookahead \<ge> 3 \<and> entities (fair_queue q) \<noteq> [] \<or> lookahead \<ge> 4 \<and> idle_rq q \<noteq> None"

definition update_current ::
  "sched_cfg \<Rightarrow> 'b bitarr_ops \<Rightarrow> nat \<Rightarrow> update_flags \<Rightarrow> 'b cpu_rq \<times> attrs \<Rightarrow> (bool \<times> 'b cpu_rq \<times> attrs) result" where
  "update_current cfg ops now flags = (\<lambda>(q, at).
     rbind (case current q of
              Some (t, rt) \<Rightarrow>
                rbind (runtime_update now rt) (\<lambda>rt'.
                rbind (as_thread at t) (\<lambda>a.
                rbind (class_update_current cfg ops rt' flags (q\<lparr>current := Some (t, rt')\<rparr>) a) (\<lambda>(b, l, q', a').
                  Inr (b, l, q', at(t \<mapsto> a')))))
            | None \<Rightarrow> Inr (False, 4 :: nat, q, at))
       (\<lambda>(should_preempt, lookahead, q', at').
     let lookahead = (if flags = Wait \<or> flags = Exit then 4 else lookahead)
     in Inr (should_preempt \<or> look_ahead lookahead q', q', at')))"

definition dequeue_current :: "'b cpu_rq \<Rightarrow> nat option \<times> 'b cpu_rq" where
  "dequeue_current q = (map_option fst (current q), q\<lparr>current := None\<rparr>)"

section \<open>All CPUs\<close>

record 'b sched =
  rqs :: "'b cpu_rq list"
  last_chosen_cpu :: "nat option"
  attr :: attrs
  task_cpu :: "nat \<Rightarrow> nat option"

definition sched_new :: "'b bitarr_ops \<Rightarrow> nat \<Rightarrow> attrs \<Rightarrow> 'b sched" where
  "sched_new ops n at =
     \<lparr>rqs = replicate n (cpu_rq_new ops), last_chosen_cpu = None, attr = at, task_cpu = (\<lambda>_. None)\<rparr>"

text \<open>\<open>cycle_after\<close>; \<open>ones\<close> is the bit view of the CPU set.\<close>

definition cycle_after :: "(id_set \<Rightarrow> nat \<Rightarrow> nat \<Rightarrow> nat list) \<Rightarrow> nat \<Rightarrow> nat \<Rightarrow> id_set \<Rightarrow> nat list result" where
  "cycle_after ones n cpu cpu_set =
     rbind (ids_iter_in ones n (Bounds (Excluded cpu) Unbounded) cpu_set) (\<lambda>xs.
     rbind (ids_iter_in ones n (RangeToInclusive cpu) cpu_set) (\<lambda>ys. Inr (xs @ ys)))"

definition test_candidate :: "'b sched \<Rightarrow> nat \<Rightarrow> nat \<times> nat \<Rightarrow> (nat \<times> nat) result" where
  "test_candidate st candidate = (\<lambda>(selected, minimum_load).
     if candidate < length (rqs st) then
       let load = queue_len (rqs st ! candidate) in
       Inr (if load < minimum_load then (candidate, load) else (selected, minimum_load))
     else Inl Panic)"

definition select_cpu ::
  "(id_set \<Rightarrow> nat \<Rightarrow> nat \<Rightarrow> nat list) \<Rightarrow> 'b sched \<Rightarrow> nat \<Rightarrow> sched_attr \<Rightarrow> id_set \<Rightarrow> enqueue_flags \<Rightarrow>
    (nat \<times> 'b sched) result" where
  "select_cpu ones st cur a affinity flags =
     (case last_cpu a of
        Some c \<Rightarrow> Inr (c, st)
      | None \<Rightarrow>
          rbind (rassert (flags = Spawn)) (\<lambda>_.
          let n = length (rqs st) in
          rbind (case last_chosen_cpu st of
                   Some c \<Rightarrow> cycle_after ones n c affinity
                 | None \<Rightarrow> ids_iter ones n affinity) (\<lambda>candidates.
          rbind (rfold (test_candidate st) candidates (cur, 2 ^ 32 - 1)) (\<lambda>(selected, _).
            Inr (selected, st\<lparr>last_chosen_cpu := Some selected\<rparr>)))))"

text \<open>The first half of \<open>enqueue\<close>: \<open>None\<close> for a task without a thread, otherwise whether the task is
  still in a run queue, and the CPU.\<close>

definition enqueue_claim ::
  "(id_set \<Rightarrow> nat \<Rightarrow> nat \<Rightarrow> nat list) \<Rightarrow> nat \<Rightarrow> nat \<Rightarrow> id_set \<Rightarrow> enqueue_flags \<Rightarrow> 'b sched \<Rightarrow>
    ((bool \<times> nat) option \<times> 'b sched) result" where
  "enqueue_claim ones cur t affinity flags st =
     (case attr st t of
        None \<Rightarrow> Inr (None, st)
      | Some a \<Rightarrow>
          rbind (select_cpu ones st cur a affinity flags) (\<lambda>(selected, st1).
            case task_cpu st1 t of
              Some c \<Rightarrow> rbind (rassert (flags \<noteq> Spawn)) (\<lambda>_. Inr (Some (True, c), st1))
            | None \<Rightarrow> Inr (Some (False, selected), st1\<lparr>task_cpu := (task_cpu st1)(t := Some selected)\<rparr>)))"

text \<open>The second half, under the lock of the run queue of \<open>cpu\<close>: the CPU to preempt, if any.\<close>

definition should_preempt :: "'b sched \<Rightarrow> nat \<Rightarrow> sched_attr \<Rightarrow> bool result" where
  "should_preempt st cpu a =
     (case current (rqs st ! cpu) of
        None \<Rightarrow> Inr True
      | Some (t', _) \<Rightarrow> rbind (as_thread (attr st) t') (\<lambda>a'.
          Inr (ps_policy (policy a) < ps_policy (policy a'))))"

definition enqueue_commit ::
  "sched_cfg \<Rightarrow> 'b bitarr_ops \<Rightarrow> nat \<Rightarrow> enqueue_flags \<Rightarrow> bool \<times> nat \<Rightarrow> 'b sched \<Rightarrow> (nat option \<times> 'b sched) result" where
  "enqueue_commit cfg ops t flags = (\<lambda>(still_in_rq, cpu) st.
     if \<not> cpu < length (rqs st) then Inl Panic
     else if still_in_rq \<and> task_cpu st t \<noteq> None then Inr (None, st)
     else
       let st1 = (if still_in_rq then st\<lparr>task_cpu := (task_cpu st)(t := Some cpu)\<rparr> else st) in
       rbind (as_thread (attr st1) t) (\<lambda>a.
       rbind (should_preempt st1 cpu a) (\<lambda>preempt.
       let at = (attr st1)(t \<mapsto> a\<lparr>last_cpu := Some cpu\<rparr>) in
       rbind (enqueue_entity cfg ops t (Some flags) (rqs st1 ! cpu, at)) (\<lambda>(q, at').
         Inr (if preempt then Some cpu else None,
              st1\<lparr>rqs := (rqs st1)[cpu := q], attr := at'\<rparr>)))))"

definition sched_enqueue ::
  "sched_cfg \<Rightarrow> 'b bitarr_ops \<Rightarrow> (id_set \<Rightarrow> nat \<Rightarrow> nat \<Rightarrow> nat list) \<Rightarrow> nat \<Rightarrow> nat \<Rightarrow> id_set \<Rightarrow> enqueue_flags \<Rightarrow>
    'b sched \<Rightarrow> (nat option \<times> 'b sched) result" where
  "sched_enqueue cfg ops ones cur t affinity flags st =
     rbind (enqueue_claim ones cur t affinity flags st) (\<lambda>(r, st1).
       case r of None \<Rightarrow> Inr (None, st1) | Some claim \<Rightarrow> enqueue_commit cfg ops t flags claim st1)"

text \<open>The operations on the run queue of CPU \<open>c\<close>.\<close>

definition local_pick :: "sched_cfg \<Rightarrow> 'b bitarr_ops \<Rightarrow> nat \<Rightarrow> nat \<Rightarrow> 'b sched \<Rightarrow> (nat option \<times> 'b sched) result" where
  "local_pick cfg ops c now st =
     (if c < length (rqs st) then
        rbind (try_pick_next cfg ops now (rqs st ! c, attr st)) (\<lambda>(r, q, at).
          Inr (r, st\<lparr>rqs := (rqs st)[c := q], attr := at\<rparr>))
      else Inl Panic)"

definition local_update ::
  "sched_cfg \<Rightarrow> 'b bitarr_ops \<Rightarrow> nat \<Rightarrow> nat \<Rightarrow> update_flags \<Rightarrow> 'b sched \<Rightarrow> (bool \<times> 'b sched) result" where
  "local_update cfg ops c now flags st =
     (if c < length (rqs st) then
        rbind (update_current cfg ops now flags (rqs st ! c, attr st)) (\<lambda>(r, q, at).
          Inr (r, st\<lparr>rqs := (rqs st)[c := q], attr := at\<rparr>))
      else Inl Panic)"

definition local_dequeue :: "nat \<Rightarrow> 'b sched \<Rightarrow> (nat option \<times> 'b sched) result" where
  "local_dequeue c st =
     (if c < length (rqs st) then
        let (r, q) = dequeue_current (rqs st ! c) in
        Inr (r, st\<lparr>rqs := (rqs st)[c := q],
                   task_cpu := (case r of None \<Rightarrow> task_cpu st | Some t \<Rightarrow> (task_cpu st)(t := None))\<rparr>)
      else Inl Panic)"

definition nr_queued_and_running :: "'b sched \<Rightarrow> (nat \<times> nat) result" where
  "nr_queued_and_running st =
     rfold (\<lambda>q (queued, running). rbind (rq_is_idle q (attr st)) (\<lambda>idle.
       if queued + queue_len q < 2 ^ 32 \<and> running + (if idle then 0 else 1) < 2 ^ 32
       then Inr (queued + queue_len q, running + (if idle then 0 else 1)) else Inl Panic)) (rqs st) (0, 0)"

section \<open>The invariant of one CPU\<close>

definition cpu_queued :: "'b cpu_rq \<Rightarrow> nat multiset" where
  "cpu_queued q = single_tasks (stop_rq q) + rt_tasks (rt_queue q) + fair_tasks (fair_queue q) +
     single_tasks (idle_rq q)"

definition current_task :: "'b cpu_rq \<Rightarrow> nat multiset" where
  "current_task q = (case current q of None \<Rightarrow> {#} | Some (t, _) \<Rightarrow> {#t#})"

definition cpu_tasks :: "'b cpu_rq \<Rightarrow> nat multiset" where
  "cpu_tasks q = cpu_queued q + current_task q"

definition cpu_inv :: "'b bitarr_ops \<Rightarrow> attrs \<Rightarrow> 'b cpu_rq \<Rightarrow> bool" where
  "cpu_inv ops at q \<longleftrightarrow> single_inv at (stop_rq q) \<and> rt_inv ops at (rt_queue q) \<and> fair_inv at (fair_queue q) \<and>
     single_inv at (idle_rq q) \<and> (\<forall>t. t \<in># cpu_tasks q \<longrightarrow> at t \<noteq> None \<and> count (cpu_tasks q) t = 1)"

text \<open>Which task is picked: that of the first class that has one; among the fair tasks one of least
  key; among the real-time tasks the oldest of the most urgent priority of the active array, or of
  the other array when that is empty.\<close>

definition rt_choice :: "'b rt_rq \<Rightarrow> nat \<Rightarrow> bool" where
  "rt_choice rq t \<longleftrightarrow>
     (let a = (if pa_tasks (active_array rq) \<noteq> {#} then active_array rq else inactive_array rq)
      in \<exists>p q. p < 100 \<and> queue a ! p = t # q \<and> (\<forall>i<p. queue a ! i = []))"

definition fair_choice :: "fair_rq \<Rightarrow> nat \<Rightarrow> bool" where
  "fair_choice rq t \<longleftrightarrow> (\<exists>v. (t, v) \<in> set (entities rq) \<and> (\<forall>(u, w)\<in>set (entities rq). v \<le> w))"

definition class_choice :: "'b cpu_rq \<Rightarrow> nat \<Rightarrow> bool" where
  "class_choice q t \<longleftrightarrow>
     (if stop_rq q \<noteq> None then stop_rq q = Some t
      else if rt_tasks (rt_queue q) \<noteq> {#} then rt_choice (rt_queue q) t
      else if fair_tasks (fair_queue q) \<noteq> {#} then fair_choice (fair_queue q) t
      else idle_rq q = Some t)"

lemma fair_pick_choice:
  assumes "fair_inv at rq" "fair_pick_next (rq, at) = Inr (Some t, rq', at')"
  shows "fair_choice rq t"
proof -
  obtain v es where p: "heap_pop item_le (entities rq) = Some ((t, v), es)"
    using assms(2) by (auto simp: fair_pick_next_def rust_simps Let_def case_prod_unfold split: option.splits)
  have h: "heap item_le (entities rq)" using assms(1) by (simp add: fair_inv_def)
  have "(t, v) \<in># mset (entities rq)" using fq.delete_Some [OF h p] by simp
  moreover have "v \<le> w" if "(u, w) \<in> set (entities rq)" for u w
    using fq.delete_least [OF h p, of "(u, w)"] that by simp
  ultimately show ?thesis by (auto simp: fair_choice_def)
qed

lemma cpu_inv_count:
  assumes "cpu_inv ops at q" "t \<in># cpu_tasks q"
  shows "at t \<noteq> None" "count (cpu_tasks q) t = 1"
  using assms by (auto simp: cpu_inv_def)

lemma same_weights_mono: "same_weights M at at' \<Longrightarrow> N \<subseteq># M \<Longrightarrow> same_weights N at at'"
  unfolding same_weights_def by (meson mset_subset_eqD)

lemma cpu_tasks_parts:
  "single_tasks (stop_rq q) \<subseteq># cpu_tasks q" "rt_tasks (rt_queue q) \<subseteq># cpu_tasks q"
  "fair_tasks (fair_queue q) \<subseteq># cpu_tasks q" "single_tasks (idle_rq q) \<subseteq># cpu_tasks q"
  by (simp_all add: cpu_tasks_def cpu_queued_def add.assoc subset_mset.add_increasing subset_mset.add_increasing2)

context bitarr
begin

lemma rt_pick_choice:
  assumes inv: "rt_inv ops at rq" and pick: "rt_pick_next ops (rq, at) = Inr (Some t, rq', at')"
  shows "rt_choice rq t"
proof -
  have g: "pa_inv ops (get_array i rq)" for i using inv by (auto simp: rt_inv_def get_array_def)
  have n: "nr_running rq \<noteq> 0" using pick by (auto simp: rt_pick_next_def split: if_splits)
  from pa_pop_ok [OF g [of "index rq"]] show ?thesis
  proof (elim disjE exE conjE)
    fix p t' q a
    assume a: "pa_pop ops (get_array (index rq) rq) = Inr (Some t', a)"
      "pa_tasks (get_array (index rq) rq) = add_mset t' (pa_tasks a)" "p < 100"
      "queue (get_array (index rq) rq) ! p = t' # q" "\<forall>i<p. queue (get_array (index rq) rq) ! i = []"
    have "t' = t" using pick n a(1) by (auto simp: rt_pick_next_def active_array_def rust_simps)
    then show ?thesis using a by (auto simp: rt_choice_def active_array_def Let_def)
  next
    assume e: "pa_pop ops (get_array (index rq) rq) = Inr (None, get_array (index rq) rq)"
      "pa_tasks (get_array (index rq) rq) = {#}"
    have s: "get_array (\<not> index rq) (rq\<lparr>index := \<not> index rq\<rparr>) = get_array (\<not> index rq) rq"
      by (simp add: get_array_def)
    obtain a' where a': "pa_pop ops (get_array (\<not> index rq) rq) = Inr (Some t, a')"
      using pick n e(1) by (auto simp: rt_pick_next_def active_array_def swap_arrays_def s rust_simps split: option.splits)
    with pa_pop_ok [OF g [of "\<not> index rq"]] obtain p q where
      "p < 100" "queue (get_array (\<not> index rq) rq) ! p = t # q" "\<forall>i<p. queue (get_array (\<not> index rq) rq) ! i = []"
      by auto
    then show ?thesis using e(2) by (auto simp: rt_choice_def active_array_def inactive_array_def Let_def)
  qed
qed

lemma cpu_inv_stable:
  assumes "cpu_inv ops at q" "same_weights (cpu_tasks q) at at'"
  shows "cpu_inv ops at' q"
proof -
  have "at' t \<noteq> None" if "t \<in># cpu_tasks q" for t using assms(2) that unfolding same_weights_def by auto
  then show ?thesis
    using assms same_weights_mono [OF assms(2)] cpu_tasks_parts [of q] single.inv_stable rt.inv_stable fair.inv_stable
    unfolding cpu_inv_def by metis
qed

text \<open>A class that does not hold \<open>t\<close> keeps its invariant when another class changes the attributes of \<open>t\<close>.\<close>

lemma cpu_inv_frame:
  assumes inv: "cpu_inv ops at q" and fr: "fair_frame t at at'"
    and parts: "stop_rq q' = stop_rq q \<and> t \<notin># single_tasks (stop_rq q) \<or> single_inv at' (stop_rq q')"
      "rt_queue q' = rt_queue q \<and> t \<notin># rt_tasks (rt_queue q) \<or> rt_inv ops at' (rt_queue q')"
      "fair_queue q' = fair_queue q \<and> t \<notin># fair_tasks (fair_queue q) \<or> fair_inv at' (fair_queue q')"
      "idle_rq q' = idle_rq q \<and> t \<notin># single_tasks (idle_rq q) \<or> single_inv at' (idle_rq q')"
    and ones: "\<forall>u. u \<in># cpu_tasks q' \<longrightarrow> at u \<noteq> None \<and> count (cpu_tasks q') u = 1"
  shows "cpu_inv ops at' q'"
proof -
  have w: "same_weights M at at'" if "t \<notin># M" "M \<subseteq># cpu_tasks q" for M
    using fr that(1)
  proof (rule same_weights_frame)
    show "at u \<noteq> None" if "u \<in># M" for u
      using cpu_inv_count(1) [OF inv] that mset_subset_eqD [OF \<open>M \<subseteq># cpu_tasks q\<close>] by blast
  qed
  have "single_inv at' (stop_rq q')"
    using parts(1) inv w [OF _ cpu_tasks_parts(1)] single.inv_stable unfolding cpu_inv_def by metis
  moreover have "rt_inv ops at' (rt_queue q')"
    using parts(2) inv w [OF _ cpu_tasks_parts(2)] rt.inv_stable unfolding cpu_inv_def by metis
  moreover have "fair_inv at' (fair_queue q')"
    using parts(3) inv w [OF _ cpu_tasks_parts(3)] fair.inv_stable unfolding cpu_inv_def by metis
  moreover have "single_inv at' (idle_rq q')"
    using parts(4) inv w [OF _ cpu_tasks_parts(4)] single.inv_stable unfolding cpu_inv_def by metis
  ultimately show ?thesis using ones fair_frame_dom [OF fr] by (simp add: cpu_inv_def)
qed

lemma entity_of_Some: "at t \<noteq> None \<Longrightarrow> entity_of (Some t) q at = Inr (Some t, q, at)"
  by (simp add: entity_of_def)

text \<open>What a pick or an enqueue leaves of a CPU.\<close>

definition picked :: "attrs \<Rightarrow> 'b cpu_rq \<Rightarrow> nat \<Rightarrow> attrs \<Rightarrow> 'b cpu_rq \<Rightarrow> bool" where
  "picked at q t at' q' \<longleftrightarrow> cpu_inv ops at' q' \<and> cpu_queued q = add_mset t (cpu_queued q') \<and>
     current q' = current q \<and> fair_frame t at at' \<and> at t \<noteq> None"

lemma picked_intro:
  assumes inv: "cpu_inv ops at q" and fr: "fair_frame t at at'"
    and q: "cpu_queued q = add_mset t (cpu_queued q')" "current q' = current q"
    and parts: "stop_rq q' = stop_rq q \<and> t \<notin># single_tasks (stop_rq q) \<or> single_inv at' (stop_rq q')"
      "rt_queue q' = rt_queue q \<and> t \<notin># rt_tasks (rt_queue q) \<or> rt_inv ops at' (rt_queue q')"
      "fair_queue q' = fair_queue q \<and> t \<notin># fair_tasks (fair_queue q) \<or> fair_inv at' (fair_queue q')"
      "idle_rq q' = idle_rq q \<and> t \<notin># single_tasks (idle_rq q) \<or> single_inv at' (idle_rq q')"
  shows "picked at q t at' q'"
proof -
  have ts: "cpu_tasks q = add_mset t (cpu_tasks q')" using q by (simp add: cpu_tasks_def current_task_def)
  have "cpu_inv ops at' q'"
    using inv fr parts by (rule cpu_inv_frame) (use inv in \<open>intro ones_removed [OF _ ts]; simp add: cpu_inv_def\<close>)
  moreover have "at t \<noteq> None" using cpu_inv_count(1) [OF inv, of t] ts by simp
  ultimately show ?thesis using fr q by (simp add: picked_def)
qed

text \<open>A task of one class is in no other.\<close>

lemma class_disjoint:
  assumes "cpu_inv ops at q"
  shows "t \<in># fair_tasks (fair_queue q) \<Longrightarrow> t \<notin># single_tasks (stop_rq q) \<and> t \<notin># rt_tasks (rt_queue q) \<and>
      t \<notin># single_tasks (idle_rq q)"
proof -
  assume f: "t \<in># fair_tasks (fair_queue q)"
  then have "t \<in># cpu_tasks q" by (simp add: cpu_tasks_def cpu_queued_def)
  then have "count (cpu_tasks q) t = 1" by (rule cpu_inv_count(2) [OF assms])
  moreover have "0 < count (fair_tasks (fair_queue q)) t" using f by simp
  ultimately show ?thesis unfolding cpu_tasks_def cpu_queued_def not_in_iff count_union by (intro conjI; linarith)
qed

text \<open>One lemma per class that has the task to pick.\<close>

lemma pick_stop:
  assumes inv: "cpu_inv ops at q" and stop: "stop_rq q = Some t"
  shows "\<exists>q' at'. pick_next_entity ops (q, at) = Inr (Some t, q', at') \<and> picked at q t at' q' \<and> class_choice q t"
proof -
  let ?q = "q\<lparr>stop_rq := None\<rparr>"
  have "cpu_queued q = add_mset t (cpu_queued ?q)" using stop by (simp add: cpu_queued_def single_tasks_def)
  then have "picked at q t at ?q"
    by (intro picked_intro [OF inv]) (use inv in \<open>auto simp: fair_frame_def single_inv_def cpu_inv_def\<close>)
  moreover from this have "pick_next_entity ops (q, at) = Inr (Some t, ?q, at)"
    using stop by (simp add: pick_next_entity_def single_pick_next_def entity_of_Some picked_def)
  ultimately show ?thesis using stop by (auto simp: class_choice_def)
qed

lemma pick_real_time:
  assumes pl: "attrs_plain at" and inv: "cpu_inv ops at q" and stop: "stop_rq q = None"
    and rp: "rt_pick_next ops (rt_queue q, at) = Inr (Some t, s, at1)"
  shows "\<exists>q' at'. pick_next_entity ops (q, at) = Inr (Some t, q', at') \<and> picked at q t at' q' \<and> class_choice q t"
proof -
  have ri: "rt_inv ops at (rt_queue q)" using inv by (simp add: cpu_inv_def)
  note P = rt.pick_Some [OF pl ri rp]
  let ?q = "q\<lparr>stop_rq := None, rt_queue := s\<rparr>"
  have at1: "at1 = at" using rt_pick_ok [OF ri] rp by auto
  have "cpu_queued q = add_mset t (cpu_queued ?q)" using stop P(2) by (simp add: cpu_queued_def)
  then have "picked at q t at1 ?q"
    by (intro picked_intro [OF inv P(3)]) (use inv at1 P(1) stop in \<open>auto simp: cpu_inv_def\<close>)
  moreover from this have "pick_next_entity ops (q, at) = Inr (Some t, ?q, at1)"
    using stop rp at1 by (simp add: pick_next_entity_def single_pick_next_def entity_of_Some picked_def)
  moreover have "class_choice q t" using stop P(2) rt_pick_choice [OF ri rp] by (simp add: class_choice_def)
  ultimately show ?thesis by auto
qed

lemma pick_fair:
  assumes pl: "attrs_plain at" and inv: "cpu_inv ops at q" and stop: "stop_rq q = None"
    and rp: "rt_pick_next ops (rt_queue q, at) = Inr (None, s, at1)"
    and fp: "fair_pick_next (fair_queue q, at) = Inr (Some t, s2, at2)"
  shows "\<exists>q' at'. pick_next_entity ops (q, at) = Inr (Some t, q', at') \<and> picked at q t at' q' \<and> class_choice q t"
proof -
  have ri: "rt_inv ops at (rt_queue q)" and fi: "fair_inv at (fair_queue q)" using inv by (auto simp: cpu_inv_def)
  note R = rt.pick_None [OF pl ri rp] and P = fair.pick_Some [OF pl fi fp]
  let ?q = "q\<lparr>stop_rq := None, rt_queue := rt_queue q, fair_queue := s2\<rparr>"
  have d: "t \<notin># single_tasks (idle_rq q)" using class_disjoint [OF inv, of t] P(2) by simp
  have "cpu_queued q = add_mset t (cpu_queued ?q)" using stop P(2) by (simp add: cpu_queued_def)
  then have "picked at q t at2 ?q"
    using P(1,3) R(1) stop d by (intro picked_intro [OF inv P(3)]) (auto simp: single_tasks_def)
  moreover from this have "pick_next_entity ops (q, at) = Inr (Some t, ?q, at2)"
    using stop rp R fp fair_frame_dom [OF P(3), of t] P(4)
    by (simp add: pick_next_entity_def single_pick_next_def entity_of_Some)
  moreover have "class_choice q t" using stop R(1) P(2) fair_pick_choice [OF fi fp] by (simp add: class_choice_def)
  ultimately show ?thesis by auto
qed

lemma pick_idle:
  assumes inv: "cpu_inv ops at q" and stop: "stop_rq q = None" and idle: "idle_rq q = Some t"
    and none: "rt_tasks (rt_queue q) = {#}" "fair_tasks (fair_queue q) = {#}"
    and eq: "pick_next_entity ops (q, at) = entity_of (idle_rq q) (q\<lparr>stop_rq := None, idle_rq := None\<rparr>) at"
  shows "\<exists>q' at'. pick_next_entity ops (q, at) = Inr (Some t, q', at') \<and> picked at q t at' q' \<and> class_choice q t"
proof -
  let ?q = "q\<lparr>stop_rq := None, idle_rq := None\<rparr>"
  have "cpu_queued q = add_mset t (cpu_queued ?q)" using idle stop by (simp add: cpu_queued_def single_tasks_def)
  then have "picked at q t at ?q"
    by (intro picked_intro [OF inv]) (use inv stop in \<open>auto simp: fair_frame_def single_inv_def cpu_inv_def\<close>)
  then show ?thesis using eq idle stop none by (auto simp: entity_of_def class_choice_def picked_def)
qed

lemma pick_next_entity_ok:
  assumes pl: "attrs_plain at" and inv: "cpu_inv ops at q"
  shows "\<exists>r q' at'. pick_next_entity ops (q, at) = Inr (r, q', at') \<and>
    (case r of None \<Rightarrow> cpu_queued q = {#} \<and> q' = q \<and> at' = at
     | Some t \<Rightarrow> picked at q t at' q' \<and> class_choice q t)"
proof -
  have fin: ?thesis if "\<exists>q' at'. pick_next_entity ops (q, at) = Inr (Some t, q', at') \<and> picked at q t at' q' \<and> class_choice q t" for t
    using that by fastforce
  have ri: "rt_inv ops at (rt_queue q)" and fi: "fair_inv at (fair_queue q)" using inv by (auto simp: cpu_inv_def)
  obtain r s at1 where rp: "rt_pick_next ops (rt_queue q, at) = Inr (r, s, at1)" using rt.pick_ok [OF pl ri] by blast
  obtain r2 s2 at2 where fp: "fair_pick_next (fair_queue q, at) = Inr (r2, s2, at2)"
    using fair.pick_ok [OF pl fi] by blast
  consider (stop) t where "stop_rq q = Some t" | (rt) t where "stop_rq q = None" "r = Some t"
    | (fair) t where "stop_rq q = None" "r = None" "r2 = Some t" | (none) "stop_rq q = None" "r = None" "r2 = None"
    by (cases "stop_rq q"; cases r; cases r2) auto
  then show ?thesis
  proof cases
    case none
    note R = rt.pick_None [OF pl ri rp [unfolded none]] and F = fair.pick_None [OF pl fi fp [unfolded none]]
    have eq: "pick_next_entity ops (q, at) = entity_of (idle_rq q) (q\<lparr>stop_rq := None, idle_rq := None\<rparr>) at"
      using none rp R fp F by (simp add: pick_next_entity_def single_pick_next_def)
    show ?thesis
    proof (cases "idle_rq q")
      case None
      then have "q\<lparr>stop_rq := None, idle_rq := None\<rparr> = q" using none by (cases q) simp
      then show ?thesis using eq None none R(1) F(1) by (simp add: entity_of_def cpu_queued_def single_tasks_def)
    next
      case (Some t)
      then show ?thesis using pick_idle [OF inv none(1) _ R(1) F(1) eq] by (intro fin)
    qed
  qed (use pick_stop [OF inv] pick_real_time [OF pl inv] pick_fair [OF pl inv] rp fp fin in blast)+
qed

lemma enqueue_entity_ok:
  assumes pl: "attrs_plain at" and inv: "cpu_inv ops at q" and t: "t \<notin># cpu_tasks q"
    and enq: "enqueue_entity cfg ops t fl (q, at) = Inr (q', at')"
  shows "cpu_inv ops at' q' \<and> cpu_queued q' = add_mset t (cpu_queued q) \<and> current q' = current q \<and>
    fair_frame t at at'"
proof -
  obtain a where a: "at t = Some a" using enq by (auto simp: enqueue_entity_def as_thread_def rust_simps split: option.splits)
  have nt: "t \<notin># single_tasks (stop_rq q)" "t \<notin># rt_tasks (rt_queue q)" "t \<notin># fair_tasks (fair_queue q)"
    "t \<notin># single_tasks (idle_rq q)" using t by (auto simp: cpu_tasks_def cpu_queued_def)
  have i: "single_inv at (stop_rq q)" "rt_inv ops at (rt_queue q)" "fair_inv at (fair_queue q)" "single_inv at (idle_rq q)"
    using inv by (auto simp: cpu_inv_def)
  note E = single.enqueue_ok [OF pl i(1) nt(1)] rt.enqueue_ok [OF pl i(2) nt(2)]
    fair.enqueue_ok [OF pl i(3) nt(3)] single.enqueue_ok [OF pl i(4) nt(4)]
  have fin: ?thesis if "fair_frame t at at'" "cpu_queued q' = add_mset t (cpu_queued q)" "current q' = current q"
    "stop_rq q' = stop_rq q \<or> single_inv at' (stop_rq q')" "rt_queue q' = rt_queue q \<or> rt_inv ops at' (rt_queue q')"
    "fair_queue q' = fair_queue q \<or> fair_inv at' (fair_queue q')" "idle_rq q' = idle_rq q \<or> single_inv at' (idle_rq q')"
  proof -
    have ts: "cpu_tasks q' = add_mset t (cpu_tasks q)" using that(2,3) by (simp add: cpu_tasks_def current_task_def)
    have "\<forall>u. u \<in># cpu_tasks q' \<longrightarrow> at u \<noteq> None \<and> count (cpu_tasks q') u = 1"
      unfolding ts using inv t a by (auto simp: cpu_inv_def not_in_iff)
    then have "cpu_inv ops at' q'" using that nt by (intro cpu_inv_frame [OF inv that(1)]) auto
    then show ?thesis using that by simp
  qed
  show ?thesis
  proof (cases "ps_kind (policy a)")
    case KStop
    with enq a obtain s where s: "single_enqueue t fl (stop_rq q, at) = Inr (s, at')" "q' = q\<lparr>stop_rq := s\<rparr>"
      by (auto simp: enqueue_entity_def as_thread_def rust_simps)
    show ?thesis by (rule fin) (use E(1) [OF _ s(1)] a in \<open>auto simp: s(2) cpu_queued_def\<close>)
  next
    case KRealTime
    with enq a obtain s where s: "rt_enqueue ops t fl (rt_queue q, at) = Inr (s, at')" "q' = q\<lparr>rt_queue := s\<rparr>"
      by (auto simp: enqueue_entity_def as_thread_def rust_simps)
    show ?thesis by (rule fin) (use E(2) [OF _ s(1)] a in \<open>auto simp: s(2) cpu_queued_def\<close>)
  next
    case KFair
    with enq a obtain s where s: "fair_enqueue cfg t fl (fair_queue q, at) = Inr (s, at')" "q' = q\<lparr>fair_queue := s\<rparr>"
      by (auto simp: enqueue_entity_def as_thread_def rust_simps)
    show ?thesis by (rule fin) (use E(3) [OF _ s(1)] a in \<open>auto simp: s(2) cpu_queued_def\<close>)
  next
    case KIdle
    with enq a obtain s where s: "single_enqueue t fl (idle_rq q, at) = Inr (s, at')" "q' = q\<lparr>idle_rq := s\<rparr>"
      by (auto simp: enqueue_entity_def as_thread_def rust_simps)
    show ?thesis by (rule fin) (use E(4) [OF _ s(1)] a in \<open>auto simp: s(2) cpu_queued_def\<close>)
  qed
qed

end

text \<open>What an operation on a CPU with tasks \<open>M\<close> may do to the attributes.\<close>

definition last_cpus_ok :: "nat \<Rightarrow> attrs \<Rightarrow> bool" where
  "last_cpus_ok n at \<longleftrightarrow> (\<forall>t a c. at t = Some a \<longrightarrow> last_cpu a = Some c \<longrightarrow> c < n)"

lemma last_cpus_frame: "last_cpus_ok n at \<Longrightarrow> fair_frame t at at' \<Longrightarrow> last_cpus_ok n at'"
  unfolding last_cpus_ok_def fair_frame_def by (auto split: if_splits)

definition attrs_step :: "nat multiset \<Rightarrow> attrs \<Rightarrow> attrs \<Rightarrow> bool" where
  "attrs_step M at at' \<longleftrightarrow> (\<forall>u. u \<notin># M \<longrightarrow> at' u = at u) \<and> (\<forall>u. at' u = None \<longleftrightarrow> at u = None) \<and>
     (\<forall>cfg. attrs_ok cfg at \<longrightarrow> attrs_ok cfg at') \<and> (attrs_plain at \<longrightarrow> attrs_plain at') \<and>
     (\<forall>n. last_cpus_ok n at \<longrightarrow> last_cpus_ok n at')"

lemma attrs_step_refl [simp]: "attrs_step M at at"
  by (simp add: attrs_step_def)

lemma attrs_step_frame: "fair_frame t at at' \<Longrightarrow> t \<in># M \<Longrightarrow> attrs_step M at at'"
  using fair_frame_other fair_frame_dom fair_frame_ok fair_frame_plain last_cpus_frame unfolding attrs_step_def by metis

lemma attrs_step_trans: "attrs_step M at at1 \<Longrightarrow> attrs_step M at1 at2 \<Longrightarrow> attrs_step M at at2"
  unfolding attrs_step_def by metis

context bitarr
begin

lemma cpu_inv_current:
  assumes "cpu_inv ops at q" "cpu_tasks (q\<lparr>current := c\<rparr>) \<subseteq># M"
    "\<forall>t. t \<in># M \<longrightarrow> at t \<noteq> None \<and> count M t = 1"
  shows "cpu_inv ops at (q\<lparr>current := c\<rparr>)"
proof -
  have "at t \<noteq> None \<and> count (cpu_tasks (q\<lparr>current := c\<rparr>)) t = 1" if t: "t \<in># cpu_tasks (q\<lparr>current := c\<rparr>)" for t
  proof -
    have "t \<in># M" using assms(2) t by (rule mset_subset_eqD)
    moreover have "0 < count (cpu_tasks (q\<lparr>current := c\<rparr>)) t" "count (cpu_tasks (q\<lparr>current := c\<rparr>)) t \<le> count M t"
      using t assms(2) by (simp_all add: mset_subset_eq_count)
    ultimately show ?thesis using assms(3) by (metis One_nat_def Suc_leI le_antisym)
  qed
  then show ?thesis using assms(1) by (simp add: cpu_inv_def)
qed

lemma try_pick_next_ok:
  assumes pl: "attrs_plain at" and inv: "cpu_inv ops at q"
    and pick: "try_pick_next cfg ops now (q, at) = Inr (r, q', at')"
  shows "cpu_inv ops at' q' \<and> cpu_tasks q' = cpu_tasks q \<and> attrs_step (cpu_tasks q) at at' \<and>
    (case r of None \<Rightarrow> cpu_queued q = {#} \<and> q' = q \<and> at' = at
     | Some t \<Rightarrow> class_choice q t \<and> current q' = Some (t, runtime_new now))"
proof -
  obtain r1 q1 at1 where p: "pick_next_entity ops (q, at) = Inr (r1, q1, at1)"
    "case r1 of None \<Rightarrow> cpu_queued q = {#} \<and> q1 = q \<and> at1 = at | Some t \<Rightarrow> picked at q t at1 q1 \<and> class_choice q t"
    using pick_next_entity_ok [OF pl inv] by blast
  show ?thesis
  proof (cases r1)
    case None
    then show ?thesis using p pick inv by (auto simp: try_pick_next_def)
  next
    case (Some t)
    let ?q = "q1\<lparr>current := Some (t, runtime_new now)\<rparr>"
    have P: "cpu_inv ops at1 q1" "cpu_queued q = add_mset t (cpu_queued q1)" "current q1 = current q"
      "fair_frame t at at1" "at t \<noteq> None" using p(2) Some by (auto simp: picked_def)
    have tin: "t \<in># cpu_tasks q" using P(2) by (simp add: cpu_tasks_def)
    have st: "attrs_step (cpu_tasks q) at at1" using attrs_step_frame [OF P(4) tin] .
    have ones: "\<forall>u. u \<in># cpu_tasks q \<longrightarrow> at1 u \<noteq> None \<and> count (cpu_tasks q) u = 1"
      using inv fair_frame_dom [OF P(4)] by (auto simp: cpu_inv_def)
    have ts: "cpu_tasks q = cpu_tasks ?q + current_task q"
      using P(2) by (simp add: cpu_tasks_def current_task_def cpu_queued_def)
    have iq: "cpu_inv ops at1 ?q" by (rule cpu_inv_current [OF P(1) _ ones]) (simp add: ts)
    show ?thesis
    proof (cases "current q")
      case None
      then have "r = Some t" "q' = ?q" "at' = at1" using pick p(1) Some P(3) by (auto simp: try_pick_next_def)
      then show ?thesis using iq ts None st p(2) Some by (simp add: current_task_def)
    next
      case c: (Some c)
      obtain t0 rt where c': "c = (t0, rt)" by (cases c)
      from pick p(1) Some P(3) c c' have e: "r = Some t" "enqueue_entity cfg ops t0 None (?q, at1) = Inr (q', at')"
        by (auto simp: try_pick_next_def rust_simps)
      have ts0: "cpu_tasks q = add_mset t0 (cpu_tasks ?q)" using ts c c' by (simp add: current_task_def)
      have "t0 \<notin># cpu_tasks ?q"
        using ones ts0 by (intro count_one_removed [OF ts0]) simp
      from enqueue_entity_ok [OF fair_frame_plain [OF pl P(4)] iq this e(2)]
      have E: "cpu_inv ops at' q'" "cpu_queued q' = add_mset t0 (cpu_queued ?q)" "current q' = current ?q"
        "fair_frame t0 at1 at'" by auto
      have "cpu_tasks q' = cpu_tasks q" using E(2,3) ts0 by (simp add: cpu_tasks_def current_task_def)
      moreover have "attrs_step (cpu_tasks q) at1 at'" using attrs_step_frame [OF E(4)] ts0 by simp
      ultimately show ?thesis using E st p(2) Some e(1) attrs_step_trans by auto
    qed
  qed
qed

end

lemma fair_update_current_ok:
  assumes "fair_update_current cfg rt flags (rq, a) = Inr (b, rq', a')" "plain (pending_weight (fair a))"
  shows "entities rq' = entities rq \<and> total_weight rq' = total_weight rq \<and> (b \<longrightarrow> entities rq \<noteq> []) \<and>
    (\<exists>f. a' = a\<lparr>fair := f\<rparr> \<and> plain (pending_weight f) \<and>
      snd (fst (fetch_weight f)) = snd (fst (fetch_weight (fair a))))"
proof (cases "flags = Exit")
  case True
  then have e: "rq' = rq" "a' = a" "b = (entities rq \<noteq> [])" using assms(1) by (auto simp: fair_update_current_def)
  have "a = a\<lparr>fair := fair a\<rparr>" by simp
  then show ?thesis using e assms(2) by blast
next
  case False
  obtain old w f where f: "fetch_weight (fair a) = ((old, w), f)" by (metis prod.collapse)
  note F = fetch_weight_ok [OF assms(2) f]
  from assms(1) False f obtain v f' m where u: "update_vruntime (delta rt) (unat w) f = Inr (v, f')"
    "rq' = rq\<lparr>min_vruntime := m\<rparr>" "a' = a\<lparr>fair := f'\<rparr>" "b \<longrightarrow> entities rq \<noteq> []"
    by (auto simp: fair_update_current_def rust_simps Let_def split: if_splits)
  have "f' = f\<lparr>vruntime := v\<rparr>" using u(1) by (auto simp: update_vruntime_def rust_simps)
  then have "plain (pending_weight f')" "snd (fst (fetch_weight f')) = w"
    using F assms(2) by (auto simp: fetch_weight_def split: if_splits)
  then show ?thesis using u f by auto
qed

lemma fair_inv_min [simp]: "fair_inv at (rq\<lparr>min_vruntime := m\<rparr>) = fair_inv at rq"
  by (simp add: fair_inv_def fair_tasks_def)

lemma fair_inv_same:
  assumes "fair_inv at rq" "entities rq' = entities rq" "total_weight rq' = total_weight rq"
  shows "fair_inv at rq'" "fair_tasks rq' = fair_tasks rq"
  using assms by (simp_all add: fair_inv_def fair_tasks_def)

definition has_task :: "'b cpu_rq \<Rightarrow> bool" where
  "has_task q \<longleftrightarrow> stop_rq q \<noteq> None \<or> nr_running (rt_queue q) \<noteq> 0 \<or> entities (fair_queue q) \<noteq> [] \<or> idle_rq q \<noteq> None"

context bitarr
begin

lemma has_task_queued: "cpu_inv ops at q \<Longrightarrow> has_task q \<longleftrightarrow> cpu_queued q \<noteq> {#}"
  by (auto simp: has_task_def cpu_queued_def cpu_inv_def rt_inv_def fair_tasks_def single_tasks_def split: option.splits)

lemma peek_prio_None: "pa_inv ops a \<Longrightarrow> peek_prio ops a \<noteq> None \<Longrightarrow> pa_tasks a \<noteq> {#}"
  using pa_pop_ok [of a] by (auto simp: peek_prio_def pa_pop_def split: if_splits list.splits)

lemma rt_update_current_sound:
  assumes "rt_inv ops at rq" "rt_update_current ops rt flags (rq, a)"
  shows "nr_running rq \<noteq> 0"
proof (rule ccontr)
  assume "\<not> nr_running rq \<noteq> 0"
  then have "pa_tasks (get_array i rq) = {#}" "pa_inv ops (get_array i rq)" for i
    using assms(1) by (auto simp: rt_inv_def rt_tasks_def get_array_def)
  then have "peek_prio ops (get_array i rq) = None" for i using peek_prio_None by blast
  then show False using assms(2) \<open>\<not> nr_running rq \<noteq> 0\<close>
    by (auto simp: rt_update_current_def active_array_def inactive_array_def split: if_splits)
qed

lemma class_update_current_ok:
  assumes "cpu_inv ops at q" "at t = Some a" "t \<in># current_task q" "plain (pending_weight (fair a))"
    "class_update_current cfg ops rt flags q a = Inr (b, l, q', a')"
  shows "cpu_inv ops (at(t \<mapsto> a')) q' \<and> cpu_queued q' = cpu_queued q \<and> current q' = current q \<and>
    fair_frame t at (at(t \<mapsto> a')) \<and> (b \<longrightarrow> has_task q') \<and> l \<le> 4 \<and> has_task q' = has_task q"
proof (cases "ps_kind (policy a) = KFair")
  case False
  have ri: "rt_inv ops at (rt_queue q)" using assms(1) by (simp add: cpu_inv_def)
  have e: "q' = q" "a' = a" "l \<le> 4" "b \<longrightarrow> has_task q"
    using assms(5) False rt_update_current_sound [OF ri]
    by (auto simp: class_update_current_def stop_update_current_def idle_update_current_def has_task_def
        split: sched_policy_kind.splits)
  have "at(t \<mapsto> a') = at" using e(2) assms(2) by auto
  then show ?thesis using e assms(1) by (simp add: fair_frame_def)
next
  case True
  then obtain s where s: "fair_update_current cfg rt flags (fair_queue q, a) = Inr (b, s, a')" "q' = q\<lparr>fair_queue := s\<rparr>" "l = 2"
    using assms(5) by (auto simp: class_update_current_def rust_simps)
  note U = fair_update_current_ok [OF s(1) assms(4)]
  obtain f where f: "a' = a\<lparr>fair := f\<rparr>" "plain (pending_weight f)"
    "snd (fst (fetch_weight f)) = snd (fst (fetch_weight (fair a)))" using U by blast
  have fr: "fair_frame t at (at(t \<mapsto> a'))" using f assms(2) unfolding fair_frame_def by blast
  have fi: "fair_inv at (fair_queue q)" using assms(1) by (simp add: cpu_inv_def)
  have fs: "fair_tasks s = fair_tasks (fair_queue q)" using fair_inv_same [OF fi] U by blast
  have qs: "cpu_queued q' = cpu_queued q" "current q' = current q" by (simp_all add: s(2) cpu_queued_def fs)
  have "t \<in># cpu_tasks q" using assms(3) by (simp add: cpu_tasks_def)
  then have "count (cpu_queued q) t + count (current_task q) t = 1"
    using cpu_inv_count(2) [OF assms(1)] by (metis cpu_tasks_def count_union)
  moreover have "0 < count (current_task q) t" using assms(3) by simp
  ultimately have "count (cpu_queued q) t = 0" by linarith
  then have nt: "t \<notin># cpu_queued q" by (simp add: not_in_iff)
  have "same_weights (fair_tasks s) at (at(t \<mapsto> a'))"
    using fr nt fi fs by (intro same_weights_frame [OF fr]) (auto simp: cpu_queued_def fair_inv_def)
  moreover have "fair_inv at s" using fair_inv_same [OF fi] U by blast
  ultimately have fi': "fair_inv (at(t \<mapsto> a')) s" using fair_inv_stable by blast
  have "cpu_tasks q' = cpu_tasks q" using qs by (simp add: cpu_tasks_def current_task_def)
  then have "cpu_inv ops (at(t \<mapsto> a')) q'"
    using nt assms(1) fi' by (intro cpu_inv_frame [OF assms(1) fr]) (auto simp: s(2) cpu_queued_def cpu_inv_def)
  then show ?thesis using fr qs s(3) U by (auto simp: has_task_def s(2))
qed

lemma update_current_ok:
  assumes pl: "attrs_plain at" and inv: "cpu_inv ops at q"
    and upd: "update_current cfg ops now flags (q, at) = Inr (b, q', at')"
  shows "cpu_inv ops at' q' \<and> cpu_tasks q' = cpu_tasks q \<and> attrs_step (cpu_tasks q) at at' \<and>
    (b \<longrightarrow> cpu_queued q \<noteq> {#}) \<and> (flags = Wait \<or> flags = Exit \<or> current q = None \<longrightarrow> b = (cpu_queued q \<noteq> {#})) \<and>
    cpu_queued q' = cpu_queued q"
proof (cases "current q")
  case None
  then have "q' = q" "at' = at" "b = has_task q" using upd by (auto simp: update_current_def has_task_def look_ahead_def)
  then show ?thesis using inv has_task_queued [OF inv] by simp
next
  case (Some c)
  obtain t rt where c: "c = (t, rt)" by (cases c)
  from upd Some c obtain rt' a b1 l a' where
    a: "as_thread at t = Inr a" and
    u: "class_update_current cfg ops rt' flags (q\<lparr>current := Some (t, rt')\<rparr>) a = Inr (b1, l, q', a')" and
    r: "at' = at(t \<mapsto> a')" "b = (b1 \<or> look_ahead (if flags = Wait \<or> flags = Exit then 4 else l) q')"
    by (clarsimp simp: update_current_def rust_simps Let_def)
  let ?q = "q\<lparr>current := Some (t, rt')\<rparr>"
  have at: "at t = Some a" using a by (auto simp: as_thread_def split: option.splits)
  have ts: "cpu_tasks ?q = cpu_tasks q" "cpu_queued ?q = cpu_queued q" "has_task ?q = has_task q"
    using Some c by (auto simp: cpu_tasks_def current_task_def cpu_queued_def has_task_def)
  have iq: "cpu_inv ops at ?q" using inv ts(1) by (simp add: cpu_inv_def)
  have "plain (pending_weight (fair a))" using pl at by (auto simp: attrs_plain_def)
  from class_update_current_ok [OF iq at _ this u]
  have U: "cpu_inv ops at' q'" "cpu_queued q' = cpu_queued q" "current q' = Some (t, rt')" "fair_frame t at at'"
    "b1 \<longrightarrow> has_task q'" "has_task q' = has_task q" by (auto simp: current_task_def r(1) ts)
  have "cpu_tasks q' = cpu_tasks q" using U(2,3) Some c by (simp add: cpu_tasks_def current_task_def)
  moreover have "t \<in># cpu_tasks q" using Some c by (simp add: cpu_tasks_def current_task_def)
  then have "attrs_step (cpu_tasks q) at at'" by (rule attrs_step_frame [OF U(4)])
  moreover have "b \<longrightarrow> has_task q'" "flags = Wait \<or> flags = Exit \<longrightarrow> b = has_task q'"
    using U(5) unfolding r(2) by (auto simp: has_task_def look_ahead_def)
  ultimately show ?thesis using U has_task_queued [OF inv] Some by auto
qed

end

section \<open>All CPUs in parallel\<close>

text \<open>
  The state of the system: the scheduler and the calls of \<open>enqueue\<close> that have claimed their task and not
  yet entered the run queue. A call may be made by any CPU for any task with a thread at any time.
  \<open>set_policy\<close> stands for the scheduling calls on any thread.
\<close>

record 'b system =
  sch :: "'b sched"
  in_flight :: "(nat \<times> enqueue_flags \<times> bool \<times> nat) list"

inductive sched_step ::
  "sched_cfg \<Rightarrow> 'b bitarr_ops \<Rightarrow> (id_set \<Rightarrow> nat \<Rightarrow> nat \<Rightarrow> nat list) \<Rightarrow> 'b system \<Rightarrow> 'b system \<Rightarrow> bool"
  for cfg ops ones where
  claim: "cur < length (rqs (sch s)) \<Longrightarrow> ids_ok (length (rqs (sch s))) affinity \<Longrightarrow>
    enqueue_claim ones cur t affinity flags (sch s) = Inr (Some (still, cpu), st) \<Longrightarrow>
    sched_step cfg ops ones s (s\<lparr>sch := st, in_flight := (t, flags, still, cpu) # in_flight s\<rparr>)"
| commit: "in_flight s = xs @ (t, flags, still, cpu) # ys \<Longrightarrow>
    enqueue_commit cfg ops t flags (still, cpu) (sch s) = Inr (r, st) \<Longrightarrow>
    sched_step cfg ops ones s (s\<lparr>sch := st, in_flight := xs @ ys\<rparr>)"
| pick: "local_pick cfg ops c now (sch s) = Inr (r, st) \<Longrightarrow> sched_step cfg ops ones s (s\<lparr>sch := st\<rparr>)"
| update: "local_update cfg ops c now flags (sch s) = Inr (b, st) \<Longrightarrow> sched_step cfg ops ones s (s\<lparr>sch := st\<rparr>)"
| dequeue: "local_dequeue c (sch s) = Inr (r, st) \<Longrightarrow> sched_step cfg ops ones s (s\<lparr>sch := st\<rparr>)"
| policy: "attr (sch s) t = Some a \<Longrightarrow> policy_ok p \<Longrightarrow> set_policy cfg p a = Inr a' \<Longrightarrow>
    sched_step cfg ops ones s (s\<lparr>sch := (sch s)\<lparr>attr := (attr (sch s))(t \<mapsto> a')\<rparr>\<rparr>)"

inductive sched_reachable ::
  "sched_cfg \<Rightarrow> 'b bitarr_ops \<Rightarrow> (id_set \<Rightarrow> nat \<Rightarrow> nat \<Rightarrow> nat list) \<Rightarrow> nat \<Rightarrow> attrs \<Rightarrow> 'b system \<Rightarrow> bool"
  for cfg ops ones n at0 where
  init: "sched_reachable cfg ops ones n at0 \<lparr>sch = sched_new ops n at0, in_flight = []\<rparr>"
| step: "sched_reachable cfg ops ones n at0 s \<Longrightarrow> sched_step cfg ops ones s s' \<Longrightarrow>
    sched_reachable cfg ops ones n at0 s'"

text \<open>The claims among the calls in flight.\<close>

definition claims :: "(nat \<times> enqueue_flags \<times> bool \<times> nat) list \<Rightarrow> (nat \<times> nat) list" where
  "claims fl = map (\<lambda>(t, _, _, c). (t, c)) (filter (\<lambda>(_, _, still, _). \<not> still) fl)"

text \<open>Every task is in at most one place, a run queue or a claim, and that is at the CPU recorded in it;
  a task with no CPU recorded is nowhere. \<open>T\<close> gives the tasks of each of the \<open>n\<close> CPUs.\<close>

definition placed :: "nat \<Rightarrow> (nat \<Rightarrow> nat multiset) \<Rightarrow> (nat \<Rightarrow> nat option) \<Rightarrow> (nat \<times> nat) list \<Rightarrow> bool" where
  "placed n T tc cl \<longleftrightarrow>
     (\<forall>c t. c < n \<and> t \<in># T c \<longrightarrow> tc t = Some c \<and> t \<notin> fst ` set cl) \<and>
     (\<forall>t c. (t, c) \<in> set cl \<longrightarrow> tc t = Some c \<and> c < n) \<and> distinct (map fst cl) \<and>
     (\<forall>t c. tc t = Some c \<longrightarrow> c < n \<and> (t \<in># T c \<or> t \<in> fst ` set cl))"

definition located :: "'b system \<Rightarrow> bool" where
  "located s \<longleftrightarrow> placed (length (rqs (sch s))) (\<lambda>c. cpu_tasks (rqs (sch s) ! c)) (task_cpu (sch s)) (claims (in_flight s))"

definition sched_inv :: "sched_cfg \<Rightarrow> 'b bitarr_ops \<Rightarrow> 'b system \<Rightarrow> bool" where
  "sched_inv cfg ops s \<longleftrightarrow> attrs_ok cfg (attr (sch s)) \<and> located s \<and>
     (\<forall>c<length (rqs (sch s)). cpu_inv ops (attr (sch s)) (rqs (sch s) ! c)) \<and>
     last_cpus_ok (length (rqs (sch s))) (attr (sch s)) \<and>
     (\<forall>c. last_chosen_cpu (sch s) = Some c \<longrightarrow> c < length (rqs (sch s))) \<and>
     (\<forall>x\<in>set (in_flight s). snd (snd (snd x)) < length (rqs (sch s)))"

lemma placedD:
  assumes "placed n T tc cl"
  shows "c < n \<Longrightarrow> t \<in># T c \<Longrightarrow> tc t = Some c \<and> t \<notin> fst ` set cl"
    "(t, c) \<in> set cl \<Longrightarrow> tc t = Some c \<and> c < n"
    "distinct (map fst cl)"
    "tc t = Some c \<Longrightarrow> c < n \<and> (t \<in># T c \<or> t \<in> fst ` set cl)"
  using assms unfolding placed_def by blast+

lemma placed_cong: "(\<And>c. c < n \<Longrightarrow> T c = T' c) \<Longrightarrow> placed n T tc cl = placed n T' tc cl"
  unfolding placed_def by (simp cong: conj_cong)

lemma placed_None:
  assumes "placed n T tc cl" "tc t = None"
  shows "c < n \<Longrightarrow> t \<notin># T c" "t \<notin> fst ` set cl"
  using placedD(1,2) [OF assms(1)] assms(2) by force+

lemma placed_remove:
  assumes "placed n T tc cl" "c < n" "T c = add_mset t M" "t \<notin># M"
  shows "placed n (T(c := M)) (tc(t := None)) cl"
  unfolding placed_def
proof (intro conjI allI impI)
  note D = placedD [OF assms(1)]
  have t: "tc t = Some c" "t \<notin> fst ` set cl" using D(1) [OF assms(2), of t] assms(3) by auto
  {
    fix d u assume d: "d < n \<and> u \<in># (T(c := M)) d"
    then have u: "u \<in># T d \<and> u \<noteq> t" using assms(3,4) D(1) [of d t] t(1) by (cases "d = c") auto
    then show "(tc(t := None)) u = Some d" "u \<notin> fst ` set cl" using D(1) [of d u] d by auto
  next
    fix u d assume "(u, d) \<in> set cl"
    then show "(tc(t := None)) u = Some d" "d < n" using D(2) [of u d] t(2) by force+
  next
    show "distinct (map fst cl)" by (rule D(3))
  next
    fix u d assume "(tc(t := None)) u = Some d"
    then have "u \<noteq> t" "tc u = Some d" by (auto split: if_splits)
    then show "d < n" "u \<in># (T(c := M)) d \<or> u \<in> fst ` set cl" using D(4) [of u d] assms(3) by auto
  }
qed

lemma placed_claim:
  assumes "placed n T tc cl" "c < n" "tc t = None"
  shows "placed n T (tc(t := Some c)) ((t, c) # cl)"
  unfolding placed_def
proof (intro conjI allI impI)
  note D = placedD [OF assms(1)] and N = placed_None [OF assms(1,3)]
  fix d u
  show "(tc(t := Some c)) u = Some d" "u \<notin> fst ` set ((t, c) # cl)" if "d < n \<and> u \<in># T d"
    using D(1) [of d u] that N(1) by auto
  show "(tc(t := Some c)) u = Some d" "d < n" if "(u, d) \<in> set ((t, c) # cl)"
    using D(2) [of u d] that N(2) assms(2) by force+
  show "distinct (map fst ((t, c) # cl))" using D(3) N(2) by simp
  show "d < n" "u \<in># T d \<or> u \<in> fst ` set ((t, c) # cl)" if "(tc(t := Some c)) u = Some d"
    using D(4) [of u d] that assms(2) by (auto split: if_splits)
qed

lemma placed_commit:
  assumes "placed n T tc (xs @ (t, c) # ys)"
  shows "placed n (T(c := add_mset t (T c))) tc (xs @ ys)" "t \<notin># T c" "tc t = Some c" "c < n"
proof -
  note D = placedD [OF assms]
  show t: "tc t = Some c" "c < n" using D(2) [of t c] by auto
  show "t \<notin># T c" using D(1) [of c t] t(2) by auto
  show "placed n (T(c := add_mset t (T c))) tc (xs @ ys)"
    unfolding placed_def
  proof (intro conjI allI impI)
    fix d u assume d: "d < n \<and> u \<in># (T(c := add_mset t (T c))) d"
    then consider "u = t" "d = c" | "u \<in># T d" by (cases "d = c") auto
    then have "tc u = Some d \<and> u \<notin> fst ` set (xs @ ys)"
    proof cases
      case 1
      then show ?thesis using t D(3) by (auto simp: image_iff)
    next
      case 2
      then show ?thesis using D(1) [of d u] d by auto
    qed
    then show "tc u = Some d" "u \<notin> fst ` set (xs @ ys)" by auto
  next
    fix u d assume "(u, d) \<in> set (xs @ ys)"
    then show "tc u = Some d" "d < n" using D(2) [of u d] by auto
  next
    show "distinct (map fst (xs @ ys))" using D(3) by auto
  next
    fix u d assume u: "tc u = Some d"
    then show "d < n" "u \<in># (T(c := add_mset t (T c))) d \<or> u \<in> fst ` set (xs @ ys)"
      using D(4) [OF u] t(1) by auto
  qed
qed

lemma claims_append [simp]: "claims (xs @ ys) = claims xs @ claims ys"
  by (simp add: claims_def)

lemma claims_Cons [simp]: "claims ((t, f, still, c) # xs) = (if still then claims xs else (t, c) # claims xs)"
  by (simp add: claims_def)

lemma claims_Nil [simp]: "claims [] = []"
  by (simp add: claims_def)

lemma select_cpu_bound:
  assumes "select_cpu ones st cur a affinity flags = Inr (c, st')" "cur < length (rqs st)"
    "\<And>c. last_cpu a = Some c \<Longrightarrow> c < length (rqs st)"
    "\<And>c. last_chosen_cpu st = Some c \<Longrightarrow> c < length (rqs st)"
  shows "c < length (rqs st)" "\<exists>l. st' = st\<lparr>last_chosen_cpu := l\<rparr> \<and> (\<forall>c. l = Some c \<longrightarrow> c < length (rqs st))"
proof -
  have fold: "sel' < length (rqs st)"
    if "rfold (test_candidate st) cs (sel, m) = Inr (sel', m')" "sel < length (rqs st)" for cs sel m sel' m'
    using that
  proof (induction cs arbitrary: sel m)
    case (Cons x cs)
    then show ?case by (auto simp: test_candidate_def Let_def split: if_splits)
  qed simp
  show "c < length (rqs st)" "\<exists>l. st' = st\<lparr>last_chosen_cpu := l\<rparr> \<and> (\<forall>c. l = Some c \<longrightarrow> c < length (rqs st))"
  proof (atomize (full), cases "last_cpu a")
    case None
    then obtain cs m where r: "rfold (test_candidate st) cs (cur, 2 ^ 32 - 1) = Inr (c, m)"
      "st' = st\<lparr>last_chosen_cpu := Some c\<rparr>" using assms(1) by (auto simp: select_cpu_def rust_simps Let_def)
    then show "c < length (rqs st) \<and> (\<exists>l. st' = st\<lparr>last_chosen_cpu := l\<rparr> \<and> (\<forall>c. l = Some c \<longrightarrow> c < length (rqs st)))"
      using fold [OF r(1) assms(2)] by auto
  next
    case (Some c')
    then have e: "c = c'" "st' = st" using assms(1) by (auto simp: select_cpu_def)
    have "st = st\<lparr>last_chosen_cpu := last_chosen_cpu st\<rparr>" by simp
    then show "c < length (rqs st) \<and> (\<exists>l. st' = st\<lparr>last_chosen_cpu := l\<rparr> \<and> (\<forall>c. l = Some c \<longrightarrow> c < length (rqs st)))"
      using e assms(3,4) Some by metis
  qed
qed

lemma same_weights_upd:
  assumes "at t = Some a" "queued_weight a' = queued_weight a" "\<And>u. u \<in># M \<Longrightarrow> at u \<noteq> None"
  shows "same_weights M at (at(t \<mapsto> a'))"
  unfolding same_weights_def
proof (intro allI impI)
  fix u assume "u \<in># M"
  then obtain b where "at u = Some b" using assms(3) by blast
  then show "\<exists>a a''. at u = Some a \<and> (at(t \<mapsto> a')) u = Some a'' \<and> queued_weight a'' = queued_weight a"
    using assms(1,2) by (cases "u = t") auto
qed

lemma set_policy_weight:
  assumes "set_policy cfg p a = Inr a'"
  shows "queued_weight a' = queued_weight a" "last_cpu a' = last_cpu a"
  using assms
  by (auto simp: set_policy_def apply_policy_def fair_attr_update_def queued_weight_def rust_simps Let_def
      split: sched_policy.splits)

context bitarr
begin

text \<open>An operation of CPU \<open>c\<close> that keeps its tasks.\<close>

lemma local_op_inv:
  assumes inv: "sched_inv cfg ops s" and c: "c < length (rqs (sch s))"
    and q: "cpu_inv ops at q" "cpu_tasks q = cpu_tasks (rqs (sch s) ! c)"
    and st: "attrs_step (cpu_tasks (rqs (sch s) ! c)) (attr (sch s)) at"
  shows "sched_inv cfg ops (s\<lparr>sch := (sch s)\<lparr>rqs := (rqs (sch s))[c := q], attr := at\<rparr>\<rparr>)"
proof -
  have loc: "placed (length (rqs (sch s))) (\<lambda>c. cpu_tasks (rqs (sch s) ! c)) (task_cpu (sch s)) (claims (in_flight s))"
    using inv by (simp add: sched_inv_def located_def)
  have "cpu_inv ops at (rqs (sch s) ! d)" if d: "d < length (rqs (sch s))" "d \<noteq> c" for d
  proof (rule cpu_inv_stable)
    show id: "cpu_inv ops (attr (sch s)) (rqs (sch s) ! d)" using inv d by (simp add: sched_inv_def)
    show "same_weights (cpu_tasks (rqs (sch s) ! d)) (attr (sch s)) at"
      unfolding same_weights_def
    proof (intro allI impI)
      fix t assume t: "t \<in># cpu_tasks (rqs (sch s) ! d)"
      then have "t \<notin># cpu_tasks (rqs (sch s) ! c)" using placedD(1) [OF loc d(1) t] placedD(1) [OF loc c] d(2) by auto
      then have "at t = attr (sch s) t" using st by (simp add: attrs_step_def)
      then show "\<exists>a a'. attr (sch s) t = Some a \<and> at t = Some a' \<and> queued_weight a' = queued_weight a"
        using cpu_inv_count(1) [OF id t] by auto
    qed
  qed
  then have "\<forall>d<length (rqs (sch s)). cpu_inv ops at ((rqs (sch s))[c := q] ! d)"
    using q(1) c by (auto simp: nth_list_update)
  moreover have "placed (length (rqs (sch s))) (\<lambda>d. cpu_tasks ((rqs (sch s))[c := q] ! d)) (task_cpu (sch s))
      (claims (in_flight s))"
    using loc by (rule placed_cong [THEN iffD1, rotated]) (use q(2) c in \<open>auto simp: nth_list_update\<close>)
  then have "located (s\<lparr>sch := (sch s)\<lparr>rqs := (rqs (sch s))[c := q], attr := at\<rparr>\<rparr>)" by (simp add: located_def)
  ultimately show ?thesis using inv st by (auto simp: sched_inv_def attrs_step_def)
qed

lemma inv_plain: "sched_inv cfg ops s \<Longrightarrow> attrs_plain (attr (sch s))"
  by (auto simp: sched_inv_def intro: attrs_ok_plain)

lemma pick_inv:
  assumes inv: "sched_inv cfg ops s" and "local_pick cfg ops c now (sch s) = Inr (r, st)"
  shows "sched_inv cfg ops (s\<lparr>sch := st\<rparr>)"
proof -
  obtain q at where p: "c < length (rqs (sch s))" "try_pick_next cfg ops now (rqs (sch s) ! c, attr (sch s)) = Inr (r, q, at)"
    "st = (sch s)\<lparr>rqs := (rqs (sch s))[c := q], attr := at\<rparr>"
    using assms(2) by (auto simp: local_pick_def rust_simps split: if_splits)
  have "cpu_inv ops (attr (sch s)) (rqs (sch s) ! c)" using inv p(1) by (simp add: sched_inv_def)
  then show ?thesis
    unfolding p(3) using try_pick_next_ok [OF inv_plain [OF inv] _ p(2)] by (intro local_op_inv [OF inv p(1)]) auto
qed

lemma update_inv:
  assumes inv: "sched_inv cfg ops s" and "local_update cfg ops c now flags (sch s) = Inr (b, st)"
  shows "sched_inv cfg ops (s\<lparr>sch := st\<rparr>)"
proof -
  obtain q at where p: "c < length (rqs (sch s))" "update_current cfg ops now flags (rqs (sch s) ! c, attr (sch s)) = Inr (b, q, at)"
    "st = (sch s)\<lparr>rqs := (rqs (sch s))[c := q], attr := at\<rparr>"
    using assms(2) by (auto simp: local_update_def rust_simps split: if_splits)
  have "cpu_inv ops (attr (sch s)) (rqs (sch s) ! c)" using inv p(1) by (simp add: sched_inv_def)
  then show ?thesis
    unfolding p(3) using update_current_ok [OF inv_plain [OF inv] _ p(2)] by (intro local_op_inv [OF inv p(1)]) auto
qed

lemma dequeue_inv:
  assumes inv: "sched_inv cfg ops s" and "local_dequeue c (sch s) = Inr (r, st)"
  shows "sched_inv cfg ops (s\<lparr>sch := st\<rparr>)"
proof -
  have c: "c < length (rqs (sch s))" using assms(2) by (auto simp: local_dequeue_def split: if_splits)
  let ?q = "rqs (sch s) ! c"
  have st: "st = (sch s)\<lparr>rqs := (rqs (sch s))[c := ?q\<lparr>current := None\<rparr>],
      task_cpu := (case current ?q of None \<Rightarrow> task_cpu (sch s) | Some (t, _) \<Rightarrow> (task_cpu (sch s))(t := None))\<rparr>"
    using assms(2) c by (auto simp: local_dequeue_def dequeue_current_def Let_def split: option.splits)
  have loc: "placed (length (rqs (sch s))) (\<lambda>c. cpu_tasks (rqs (sch s) ! c)) (task_cpu (sch s)) (claims (in_flight s))"
    and iq: "cpu_inv ops (attr (sch s)) ?q" using inv c by (auto simp: sched_inv_def located_def)
  show ?thesis
  proof (cases "current ?q")
    case None
    then have "?q\<lparr>current := None\<rparr> = ?q" by (cases ?q) simp
    then have "(rqs (sch s))[c := ?q\<lparr>current := None\<rparr>] = rqs (sch s)" by (metis list_update_id)
    then have "st = sch s" using st None by simp
    then show ?thesis using inv by simp
  next
    case (Some x)
    obtain t rt where x: "x = (t, rt)" by (cases x)
    let ?q' = "?q\<lparr>current := None\<rparr>"
    have ts: "cpu_tasks ?q = add_mset t (cpu_tasks ?q')"
      using Some x by (simp add: cpu_tasks_def current_task_def cpu_queued_def)
    have nt: "t \<notin># cpu_tasks ?q'"
      using cpu_inv_count(2) [OF iq, of t] ts by (intro count_one_removed [OF ts]) simp
    have iq': "cpu_inv ops (attr (sch s)) ?q'"
      by (rule cpu_inv_current [OF iq, of _ "cpu_tasks ?q"]) (use ts iq in \<open>auto simp: cpu_inv_def\<close>)
    have "placed (length (rqs (sch s))) (\<lambda>d. cpu_tasks ((rqs (sch s))[c := ?q'] ! d)) ((task_cpu (sch s))(t := None))
        (claims (in_flight s))"
      using placed_remove [OF loc c ts nt] by (rule placed_cong [THEN iffD1, rotated]) (use c in \<open>auto simp: nth_list_update\<close>)
    then show ?thesis using inv iq' c Some x by (auto simp: sched_inv_def located_def st nth_list_update)
  qed
qed

lemma claim_inv:
  assumes inv: "sched_inv cfg ops s" and cur: "cur < length (rqs (sch s))"
    and cl: "enqueue_claim ones cur t affinity flags (sch s) = Inr (Some (still, cpu), st)"
  shows "sched_inv cfg ops (s\<lparr>sch := st, in_flight := (t, flags, still, cpu) # in_flight s\<rparr>)"
proof -
  have loc: "placed (length (rqs (sch s))) (\<lambda>c. cpu_tasks (rqs (sch s) ! c)) (task_cpu (sch s)) (claims (in_flight s))"
    using inv by (simp add: sched_inv_def located_def)
  obtain a sel st1 where a: "attr (sch s) t = Some a" and sel: "select_cpu ones (sch s) cur a affinity flags = Inr (sel, st1)"
    using cl by (auto simp: enqueue_claim_def rust_simps split: option.splits)
  have b: "last_cpu a = Some c \<Longrightarrow> c < length (rqs (sch s))" "last_chosen_cpu (sch s) = Some c \<Longrightarrow> c < length (rqs (sch s))" for c
    using inv a by (auto simp: sched_inv_def last_cpus_ok_def)
  obtain l where S: "sel < length (rqs (sch s))" "st1 = (sch s)\<lparr>last_chosen_cpu := l\<rparr>"
    "\<forall>c. l = Some c \<longrightarrow> c < length (rqs (sch s))"
    using select_cpu_bound [OF sel cur b] by blast
  show ?thesis
  proof (cases "task_cpu (sch s) t")
    case None
    then have e: "\<not> still" "cpu = sel" "st = (sch s)\<lparr>last_chosen_cpu := l, task_cpu := (task_cpu (sch s))(t := Some sel)\<rparr>"
      using cl a sel S(2) by (auto simp: enqueue_claim_def)
    have "located (s\<lparr>sch := st, in_flight := (t, flags, still, cpu) # in_flight s\<rparr>)"
      using placed_claim [OF loc S(1) None] e by (simp add: located_def)
    then show ?thesis using inv S e by (auto simp: sched_inv_def)
  next
    case (Some c)
    then have e: "still" "cpu = c" "st = (sch s)\<lparr>last_chosen_cpu := l\<rparr>"
      using cl a sel S(2) by (auto simp: enqueue_claim_def rust_simps)
    have "c < length (rqs (sch s))" using placedD(4) [OF loc Some] by simp
    moreover have "located (s\<lparr>sch := st, in_flight := (t, flags, still, cpu) # in_flight s\<rparr>)"
      using loc e by (simp add: located_def)
    ultimately show ?thesis using inv S e by (auto simp: sched_inv_def)
  qed
qed

lemma commit_placed:
  assumes loc: "placed n T tc (claims (xs @ (t, flags, still, cpu) # ys))" and cpu: "cpu < n"
    and none: "\<not> (still \<and> tc t \<noteq> None)" and tc': "tc' = (if still then tc(t := Some cpu) else tc)"
  shows "placed n (T(cpu := add_mset t (T cpu))) tc' (claims (xs @ ys))" "d < n \<Longrightarrow> t \<notin># T d"
proof -
  have "\<exists>xs' ys'. placed n T tc' (xs' @ (t, cpu) # ys') \<and> claims (xs @ ys) = xs' @ ys'"
  proof (cases still)
    case True
    then have "placed n T tc' ((t, cpu) # claims (xs @ ys))"
      using placed_claim [of n T tc "claims (xs @ ys)" cpu t] loc cpu none by (auto simp: tc')
    then show ?thesis by (metis append_Nil)
  next
    case False
    then show ?thesis using loc by (auto simp: tc')
  qed
  then obtain xs' ys' where P: "placed n T tc' (xs' @ (t, cpu) # ys')" "claims (xs @ ys) = xs' @ ys'" by blast
  show "placed n (T(cpu := add_mset t (T cpu))) tc' (claims (xs @ ys))" using placed_commit(1) [OF P(1)] P(2) by simp
  show "t \<notin># T d" if "d < n" using placedD(1) [OF P(1) that, of t] by auto
qed

lemma record_last_cpu:
  assumes inv: "sched_inv cfg ops s" and cpu: "cpu < length (rqs (sch s))" and at: "attr (sch s) t = Some a"
  defines "at1 \<equiv> (attr (sch s))(t \<mapsto> a\<lparr>last_cpu := Some cpu\<rparr>)"
  shows "attrs_ok cfg at1" "last_cpus_ok (length (rqs (sch s))) at1"
    "d < length (rqs (sch s)) \<Longrightarrow> cpu_inv ops at1 (rqs (sch s) ! d)"
proof -
  show "attrs_ok cfg at1" using inv at unfolding sched_inv_def attrs_ok_def at1_def
    by (auto simp: attr_ok_def split: if_splits sched_policy.splits)
  show "last_cpus_ok (length (rqs (sch s))) at1"
    using inv cpu by (auto simp: sched_inv_def last_cpus_ok_def at1_def split: if_splits)
  assume d: "d < length (rqs (sch s))"
  show "cpu_inv ops at1 (rqs (sch s) ! d)"
  proof (rule cpu_inv_stable)
    show id: "cpu_inv ops (attr (sch s)) (rqs (sch s) ! d)" using inv d by (simp add: sched_inv_def)
    show "same_weights (cpu_tasks (rqs (sch s) ! d)) (attr (sch s)) at1"
      using at cpu_inv_count(1) [OF id] unfolding at1_def by (intro same_weights_upd) (auto simp: queued_weight_def)
  qed
qed

lemma commit_inv:
  assumes inv: "sched_inv cfg ops s" and fl: "in_flight s = xs @ (t, flags, still, cpu) # ys"
    and cm: "enqueue_commit cfg ops t flags (still, cpu) (sch s) = Inr (r, st)"
  shows "sched_inv cfg ops (s\<lparr>sch := st, in_flight := xs @ ys\<rparr>)"
proof (cases "still \<and> task_cpu (sch s) t \<noteq> None")
  case True
  then have "st = sch s" using cm by (auto simp: enqueue_commit_def split: if_splits)
  then show ?thesis using inv fl True by (auto simp: sched_inv_def located_def)
next
  case False
  let ?n = "length (rqs (sch s))" and ?T = "\<lambda>c. cpu_tasks (rqs (sch s) ! c)"
  define tc where "tc = (if still then (task_cpu (sch s))(t := Some cpu) else task_cpu (sch s))"
  have cpu: "cpu < ?n" using cm by (auto simp: enqueue_commit_def split: if_splits)
  have "placed ?n ?T (task_cpu (sch s)) (claims (xs @ (t, flags, still, cpu) # ys))"
    using inv fl by (simp add: sched_inv_def located_def)
  note P = commit_placed [OF this cpu False tc_def]
  let ?at = "attr (sch s)"
  have "rbind (as_thread ?at t) (\<lambda>a. rbind (should_preempt ((sch s)\<lparr>task_cpu := tc\<rparr>) cpu a) (\<lambda>preempt.
      rbind (enqueue_entity cfg ops t (Some flags) (rqs (sch s) ! cpu, ?at(t \<mapsto> a\<lparr>last_cpu := Some cpu\<rparr>))) (\<lambda>(q, at').
        Inr (if preempt then Some cpu else None,
          (sch s)\<lparr>task_cpu := tc, rqs := (rqs (sch s))[cpu := q], attr := at'\<rparr>)))) = Inr (r, st)"
    using cm False cpu by (cases still) (simp_all add: enqueue_commit_def Let_def tc_def)
  then obtain a q at' where a: "as_thread ?at t = Inr a"
    and e: "enqueue_entity cfg ops t (Some flags) (rqs (sch s) ! cpu, ?at(t \<mapsto> a\<lparr>last_cpu := Some cpu\<rparr>)) = Inr (q, at')"
    and st: "st = (sch s)\<lparr>task_cpu := tc, rqs := (rqs (sch s))[cpu := q], attr := at'\<rparr>"
    by (clarsimp simp: rust_simps)
  have at: "?at t = Some a" using a by (auto simp: as_thread_def split: option.splits)
  let ?at1 = "?at(t \<mapsto> a\<lparr>last_cpu := Some cpu\<rparr>)"
  note ok1 = record_last_cpu(1) [OF inv cpu at] and lc1 = record_last_cpu(2) [OF inv cpu at]
    and i1 = record_last_cpu(3) [OF inv cpu at]
  note E = enqueue_entity_ok [OF attrs_ok_plain [OF ok1] i1 [OF cpu] P(2) [OF cpu] e]
  have qt: "cpu_tasks q = add_mset t (?T cpu)" using E by (simp add: cpu_tasks_def current_task_def)
  have "cpu_inv ops at' (rqs (sch s) ! d)" if d: "d < ?n" "d \<noteq> cpu" for d
  proof (rule cpu_inv_stable [OF i1 [OF d(1)]])
    show "same_weights (?T d) ?at1 at'"
      using E P(2) [OF d(1)] cpu_inv_count(1) [OF i1 [OF d(1)]] by (intro same_weights_frame [of t]) auto
  qed
  moreover have "cpu_inv ops at' q" using E by blast
  ultimately have "\<forall>d<?n. cpu_inv ops at' ((rqs (sch s))[cpu := q] ! d)"
    using cpu by (auto simp: nth_list_update)
  moreover have "placed ?n (\<lambda>d. cpu_tasks ((rqs (sch s))[cpu := q] ! d)) tc (claims (xs @ ys))"
    using P(1) by (rule placed_cong [THEN iffD1, rotated]) (use qt cpu in \<open>auto simp: nth_list_update\<close>)
  moreover have "attrs_ok cfg at'" "last_cpus_ok ?n at'"
    using E fair_frame_ok [OF ok1] last_cpus_frame [OF lc1] by auto
  ultimately show ?thesis using inv fl by (auto simp: sched_inv_def located_def st)
qed

lemma policy_inv:
  assumes inv: "sched_inv cfg ops s" and a: "attr (sch s) t = Some a" "policy_ok p" "set_policy cfg p a = Inr a'"
  shows "sched_inv cfg ops (s\<lparr>sch := (sch s)\<lparr>attr := (attr (sch s))(t \<mapsto> a')\<rparr>\<rparr>)"
proof -
  let ?at = "(attr (sch s))(t \<mapsto> a')"
  have "attr_ok cfg a" using inv a(1) by (auto simp: sched_inv_def attrs_ok_def)
  then have "attr_ok cfg a'" using a(2,3) by (rule set_policy_ok)
  then have "attrs_ok cfg ?at" using inv by (auto simp: sched_inv_def attrs_ok_def)
  moreover have "last_cpus_ok (length (rqs (sch s))) ?at"
    using inv set_policy_weight(2) [OF a(3)] a(1) by (auto simp: sched_inv_def last_cpus_ok_def)
  moreover have "cpu_inv ops ?at (rqs (sch s) ! c)" if c: "c < length (rqs (sch s))" for c
  proof (rule cpu_inv_stable)
    show i: "cpu_inv ops (attr (sch s)) (rqs (sch s) ! c)" using inv c by (simp add: sched_inv_def)
    show "same_weights (cpu_tasks (rqs (sch s) ! c)) (attr (sch s)) ?at"
      using a(1) set_policy_weight(1) [OF a(3)] cpu_inv_count(1) [OF i] by (intro same_weights_upd) auto
  qed
  ultimately show ?thesis using inv by (auto simp: sched_inv_def located_def)
qed

lemma step_inv: "sched_step cfg ops ones s s' \<Longrightarrow> sched_inv cfg ops s \<Longrightarrow> sched_inv cfg ops s'"
  by (induction rule: sched_step.induct)
    (blast intro: claim_inv commit_inv pick_inv update_inv dequeue_inv policy_inv)+

lemma new_inv:
  assumes "attrs_ok cfg at0" "\<And>t a. at0 t = Some a \<Longrightarrow> last_cpu a = None"
  shows "sched_inv cfg ops \<lparr>sch = sched_new ops n at0, in_flight = []\<rparr>"
proof -
  have t: "cpu_tasks (cpu_rq_new ops) = {#}"
    using rt.new_tasks fair.new_tasks
    by (simp add: cpu_tasks_def cpu_queued_def current_task_def cpu_rq_new_def single_tasks_def)
  have "cpu_inv ops at0 (cpu_rq_new ops)"
    using rt.new_inv fair.new_inv t by (simp add: cpu_inv_def single_inv_def cpu_rq_new_def)
  then show ?thesis using assms t
    by (auto simp: sched_inv_def sched_new_def located_def placed_def last_cpus_ok_def)
qed

lemma reachable_inv:
  assumes "sched_reachable cfg ops ones n at0 s" "attrs_ok cfg at0" "\<And>t a. at0 t = Some a \<Longrightarrow> last_cpu a = None"
  shows "sched_inv cfg ops s"
  using assms(1)
proof induction
  case init
  show ?case using assms(2,3) by (rule new_inv)
next
  case (step s s')
  then show ?case using step_inv by blast
qed

end

end
