(* ===== verification/Scheduler_Safety.thy ===== *)
theory Scheduler_Safety
  imports Class_Scheduler
begin

text \<open>
  What the scheduler as a whole promises: where a new task goes, that a reschedule finds a task, that no
  interleaving puts a task in two places or loses it, and where the real-time class departs from its
  documentation. The laws of the classes come from the interpretations in \<open>Sched_Classes\<close>, those of the
  CPU sets from \<open>Id_Set\<close>, and the invariant from \<open>Class_Scheduler\<close>.
\<close>

section \<open>Where a new task goes\<close>

abbreviation load_of :: "'b sched \<Rightarrow> nat \<Rightarrow> nat" where
  "load_of st c \<equiv> queue_len (rqs st ! c)"

text \<open>The fold takes the first of the candidates of least load below the bound.\<close>

lemma test_candidates_first_least:
  assumes "\<forall>c\<in>set cs. c < length (rqs st)"
  shows "\<exists>sel' m'. rfold (test_candidate st) cs (sel, m) = Inr (sel', m') \<and>
    (sel' = sel \<and> m' = m \<and> (\<forall>c\<in>set cs. m \<le> load_of st c) \<or>
     (\<exists>us vs. cs = us @ sel' # vs \<and> load_of st sel' < m \<and> (\<forall>u\<in>set us. load_of st sel' < load_of st u) \<and>
        (\<forall>v\<in>set vs. load_of st sel' \<le> load_of st v) \<and> m' = load_of st sel'))"
  using assms
proof (induction cs arbitrary: sel m)
  case (Cons x cs)
  let ?new = "load_of st x < m"
  obtain sel' m' where r: "rfold (test_candidate st) cs (if ?new then (x, load_of st x) else (sel, m)) = Inr (sel', m')"
    and d: "sel' = (if ?new then x else sel) \<and> m' = (if ?new then load_of st x else m) \<and>
        (\<forall>c\<in>set cs. (if ?new then load_of st x else m) \<le> load_of st c) \<or>
     (\<exists>us vs. cs = us @ sel' # vs \<and> load_of st sel' < (if ?new then load_of st x else m) \<and>
        (\<forall>u\<in>set us. load_of st sel' < load_of st u) \<and>
        (\<forall>v\<in>set vs. load_of st sel' \<le> load_of st v) \<and> m' = load_of st sel')"
    using Cons.IH [of "fst (if ?new then (x, load_of st x) else (sel, m))" "snd (if ?new then (x, load_of st x) else (sel, m))"]
      Cons.prems by (cases ?new) (simp; blast)+
  have e: "rfold (test_candidate st) (x # cs) (sel, m) = Inr (sel', m')"
    using r Cons.prems by (simp add: test_candidate_def Let_def)
  from d consider (keep) "sel' = (if ?new then x else sel)" "m' = (if ?new then load_of st x else m)"
      "\<forall>c\<in>set cs. (if ?new then load_of st x else m) \<le> load_of st c"
    | (later) us vs where "cs = us @ sel' # vs" "load_of st sel' < (if ?new then load_of st x else m)"
      "\<forall>u\<in>set us. load_of st sel' < load_of st u" "\<forall>v\<in>set vs. load_of st sel' \<le> load_of st v" "m' = load_of st sel'"
    by blast
  then show ?case
  proof cases
    case keep
    show ?thesis
    proof (cases ?new)
      case True
      then show ?thesis using keep e by (intro exI [of _ sel'] exI [of _ m'] conjI disjI2 exI [of _ "[]"] exI [of _ cs]) auto
    next
      case False
      then show ?thesis using keep e by (intro exI [of _ sel'] exI [of _ m'] conjI disjI1) auto
    qed
  next
    case later
    have "load_of st sel' < m" "load_of st sel' < load_of st x" using later(2) by (auto split: if_splits)
    then show ?thesis using later e
      by (intro exI [of _ sel'] exI [of _ m'] conjI disjI2 exI [of _ "x # us"] exI [of _ vs]) auto
  qed
qed simp

text \<open>The rank of a CPU in the round robin after the CPU chosen last.\<close>

definition cycle_rank :: "nat \<Rightarrow> nat option \<Rightarrow> nat \<Rightarrow> nat" where
  "cycle_rank n chosen c = (case chosen of None \<Rightarrow> c | Some l \<Rightarrow> if l < c then c - l - 1 else c + n - l - 1)"

lemma candidates_ordered:
  assumes "bit_view ones" "ids_ok n affinity" "\<And>l. chosen = Some l \<Longrightarrow> l < n"
  shows "\<exists>cs. (case chosen of Some c \<Rightarrow> cycle_after ones n c affinity | None \<Rightarrow> ids_iter ones n affinity) = Inr cs \<and>
    set cs = ids_set affinity \<and> sorted_wrt (\<lambda>c d. cycle_rank n chosen c < cycle_rank n chosen d) cs"
proof (cases chosen)
  case None
  have "ids_iter ones n affinity = Inr (filter (\<lambda>i. i \<in> ids_set affinity) [0..<n])"
    unfolding ids_iter_def using bit_view.iter_in_ok [OF assms(1,2), of RangeFull 0 n] by simp
  moreover have "ids_set affinity \<subseteq> {0..<n}" using assms(2) by (simp add: ids_ok_def)
  ultimately show ?thesis using None by (auto simp: cycle_rank_def intro: sorted_wrt_filter)
next
  case (Some l)
  then have l: "l < n" using assms(3) by simp
  let ?xs = "filter (\<lambda>i. i \<in> ids_set affinity) [l + 1..<n]" and ?ys = "filter (\<lambda>i. i \<in> ids_set affinity) [0..<l + 1]"
  have "cycle_after ones n l affinity = Inr (?xs @ ?ys)"
    using bit_view.iter_in_ok [OF assms(1,2), of "Bounds (Excluded l) Unbounded" "l + 1" n]
      bit_view.iter_in_ok [OF assms(1,2), of "RangeToInclusive l" 0 "l + 1"] l
    by (simp add: cycle_after_def)
  moreover have "set (?xs @ ?ys) = ids_set affinity" using assms(2) l by (auto simp: ids_ok_def subset_iff simp del: upt_Suc)
  moreover have "sorted_wrt (\<lambda>c d. cycle_rank n chosen c < cycle_rank n chosen d) [l + 1..<n]"
    "sorted_wrt (\<lambda>c d. cycle_rank n chosen c < cycle_rank n chosen d) [0..<l + 1]"
    using l by (auto simp: Some cycle_rank_def sorted_wrt_iff_nth_less simp del: upt_Suc)
  then have "sorted_wrt (\<lambda>c d. cycle_rank n chosen c < cycle_rank n chosen d) (?xs @ ?ys)"
    unfolding sorted_wrt_append
    by (intro conjI sorted_wrt_filter) (use l in \<open>auto simp: Some cycle_rank_def\<close>)
  ultimately show ?thesis using Some by auto
qed

section \<open>A concrete system\<close>

lemma a_fair_thread_ok: "attrs_ok a_cfg [7 \<mapsto> a_fair_thread]"
proof -
  have "plain 1024" by (simp add: plain_bit bit_numeral_rec)
  then show ?thesis
    by (simp add: attrs_ok_def attr_ok_def a_fair_thread_def policy_state_new_def fetch_weight_def
        plain_def [symmetric] nice_weight_def WEIGHT_0_def NICE_MIN_def NICE_MAX_def)
qed

text \<open>Two CPUs and one fair thread that may run on the second.\<close>

lemma a_affinity: "ids_ok 2 [2]" "ids_iter list_ones 2 [2] = Inr [1]"
proof -
  have b: "bit (2 :: 64 word) i \<longleftrightarrow> i = 1" for i using bit_one_shift [of 1 i] by simp
  have "ids_set [2] = {1}" unfolding ids_set_Cons b by (auto simp: ids_set_def)
  then show "ids_ok 2 [2]" by (simp add: ids_ok_def parts_for_ids_def)
  show "ids_iter list_ones 2 [2] = Inr [1]" by code_simp
qed

abbreviation a_sched :: "(nat \<Rightarrow> bool) sched" where
  "a_sched \<equiv> sched_new fn_bitarr 2 [7 \<mapsto> a_fair_thread]"

lemma a_claim:
  "enqueue_claim list_ones 0 7 [2] Spawn a_sched =
     Inr (Some (False, 1), a_sched\<lparr>last_chosen_cpu := Some 1, task_cpu := (\<lambda>_. None)(7 := Some 1)\<rparr>)"
  by (simp add: enqueue_claim_def select_cpu_def sched_new_def a_affinity a_fair_thread_def test_candidate_def rust_simps
      Let_def queue_len_def cpu_rq_new_def single_len_def rt_new_def fair_new_def fair_len_def)

lemma a_slice: "vtime_slice a_cfg fair_new = Inr 24000000"
  by (simp add: vtime_slice_def period_def a_cfg_def fair_new_def umul_def udiv_def ilog2.simps)

lemma a_enqueue:
  "\<exists>q at. fair_enqueue a_cfg 7 (Some Spawn) (fair_new, [7 \<mapsto> a_fair_thread\<lparr>last_cpu := Some 1\<rparr>]) = Inr (q, at)"
proof -
  have "plain 1024" by (simp add: plain_bit bit_numeral_rec)
  then show ?thesis
    by (simp add: fair_enqueue_def a_slice [unfolded fair_new_def] as_thread_def a_fair_thread_def fetch_weight_def plain_def fair_new_def
        uadd_def Let_def)
qed

lemma a_commit:
  "\<exists>r st. enqueue_commit a_cfg fn_bitarr 7 Spawn (False, 1)
     (a_sched\<lparr>last_chosen_cpu := Some 1, task_cpu := (\<lambda>_. None)(7 := Some 1)\<rparr>) = Inr (r, st) \<and> task_cpu st 7 = Some 1"
proof -
  obtain q at where "fair_enqueue a_cfg 7 (Some Spawn) (fair_new, [7 \<mapsto> a_fair_thread\<lparr>last_cpu := Some 1\<rparr>]) = Inr (q, at)"
    using a_enqueue by blast
  moreover have "ps_kind (policy a_fair_thread) = KFair" by (simp add: a_fair_thread_def policy_state_new_def)
  ultimately show ?thesis
    by (simp add: enqueue_commit_def sched_new_def as_thread_def should_preempt_def enqueue_entity_def cpu_rq_new_def Let_def)
qed

section \<open>Properties\<close>

text \<open>C1. One place for every task. In every interleaving of enqueues (two steps each), picks, timer
  ticks, waits, exits and policy changes on any number of CPUs, a task that is queued or running on
  a CPU is there once, on no other CPU, and that CPU is the one recorded in the task; a task with
  a recorded CPU is there unless a call of \<open>enqueue\<close> is about to put it there, so none is lost. The
  total weight of each fair queue is the sum of the weights of its tasks, and the number of
  real-time tasks is exact.\<close>

theorem task_in_one_run_queue:
  assumes "bitarr ops" "sched_reachable cfg ops ones n at0 s" "attrs_ok cfg at0"
    "\<forall>t a. at0 t = Some a \<longrightarrow> last_cpu a = None"
  shows "(\<forall>c t. c < length (rqs (sch s)) \<and> t \<in># cpu_tasks (rqs (sch s) ! c) \<longrightarrow>
      task_cpu (sch s) t = Some c \<and> count (cpu_tasks (rqs (sch s) ! c)) t = 1 \<and>
      (\<forall>d<length (rqs (sch s)). d \<noteq> c \<longrightarrow> t \<notin># cpu_tasks (rqs (sch s) ! d))) \<and>
    (\<forall>c t. task_cpu (sch s) t = Some c \<and> t \<notin> fst ` set (in_flight s) \<longrightarrow>
      c < length (rqs (sch s)) \<and> t \<in># cpu_tasks (rqs (sch s) ! c)) \<and>
    (\<forall>c<length (rqs (sch s)).
      let q = rqs (sch s) ! c in
      total_weight (fair_queue q) = (\<Sum>t\<in>#fair_tasks (fair_queue q). queued_weight (the (attr (sch s) t))) \<and>
      nr_running (rt_queue q) = size (rt_tasks (rt_queue q)))"
proof -
  have inv: "sched_inv cfg ops s" using bitarr.reachable_inv [OF assms(1-3)] assms(4) by blast
  then have pl: "placed (length (rqs (sch s))) (\<lambda>c. cpu_tasks (rqs (sch s) ! c)) (task_cpu (sch s)) (claims (in_flight s))"
    and ci: "\<And>c. c < length (rqs (sch s)) \<Longrightarrow> cpu_inv ops (attr (sch s)) (rqs (sch s) ! c)"
    by (auto simp: sched_inv_def located_def)
  have cl: "fst ` set (claims (in_flight s)) \<subseteq> fst ` set (in_flight s)" by (force simp: claims_def)
  show ?thesis
  proof (intro conjI allI impI; (elim conjE)?)
    fix c t assume c: "c < length (rqs (sch s))" "t \<in># cpu_tasks (rqs (sch s) ! c)"
    show "task_cpu (sch s) t = Some c" using placedD(1) [OF pl c] by simp
    show "count (cpu_tasks (rqs (sch s) ! c)) t = 1" using cpu_inv_count(2) [OF ci [OF c(1)] c(2)] .
    show "t \<notin># cpu_tasks (rqs (sch s) ! d)" if "d < length (rqs (sch s))" "d \<noteq> c" for d
      using placedD(1) [OF pl c] placedD(1) [OF pl that(1)] that(2) by auto
  next
    fix c t assume t: "task_cpu (sch s) t = Some c" "t \<notin> fst ` set (in_flight s)"
    show "c < length (rqs (sch s))" "t \<in># cpu_tasks (rqs (sch s) ! c)" using placedD(4) [OF pl t(1)] t(2) cl by auto
  next
    fix c assume "c < length (rqs (sch s))"
    from ci [OF this] show "let q = rqs (sch s) ! c in
      total_weight (fair_queue q) = (\<Sum>t\<in>#fair_tasks (fair_queue q). queued_weight (the (attr (sch s) t))) \<and>
      nr_running (rt_queue q) = size (rt_tasks (rt_queue q))"
      by (simp add: cpu_inv_def fair_inv_def rt_inv_def)
  qed
qed

theorem task_in_one_run_queue_witness:
  "\<exists>s. sched_reachable a_cfg fn_bitarr list_ones 2 [7 \<mapsto> a_fair_thread] s \<and> task_cpu (sch s) 7 = Some 1 \<and>
     7 \<in># cpu_tasks (rqs (sch s) ! 1)"
proof -
  let ?s0 = "\<lparr>sch = a_sched, in_flight = []\<rparr>"
  let ?st1 = "a_sched\<lparr>last_chosen_cpu := Some 1, task_cpu := (\<lambda>_. None)(7 := Some 1)\<rparr>"
  let ?s1 = "\<lparr>sch = ?st1, in_flight = [(7, Spawn, False, 1)]\<rparr>"
  obtain r st where c: "enqueue_commit a_cfg fn_bitarr 7 Spawn (False, 1) ?st1 = Inr (r, st)" "task_cpu st 7 = Some 1"
    using a_commit by blast
  have step1: "sched_step a_cfg fn_bitarr list_ones ?s0 ?s1"
    using sched_step.claim [of 0 ?s0 "[2]" list_ones 7 Spawn False 1 ?st1 a_cfg fn_bitarr] a_claim a_affinity(1)
    by (simp add: sched_new_def numeral_2_eq_2)
  have step2: "sched_step a_cfg fn_bitarr list_ones ?s1 \<lparr>sch = st, in_flight = []\<rparr>"
    using sched_step.commit [of ?s1 "[]" 7 Spawn False 1 "[]" a_cfg fn_bitarr r st list_ones] c(1) by simp
  have reach: "sched_reachable a_cfg fn_bitarr list_ones 2 [7 \<mapsto> a_fair_thread] \<lparr>sch = st, in_flight = []\<rparr>"
    by (rule sched_reachable.step [OF sched_reachable.step [OF sched_reachable.init step1] step2])
  have "bitarr fn_bitarr" ..
  note P = task_in_one_run_queue [OF this reach a_fair_thread_ok]
  have "\<forall>t a. [7 \<mapsto> a_fair_thread] t = Some a \<longrightarrow> last_cpu a = None" by (simp add: a_fair_thread_def)
  from P [OF this, THEN conjunct2, THEN conjunct1, rule_format, of 7 1] c(2)
  have "7 \<in># cpu_tasks (rqs st ! 1)" by simp
  then show ?thesis using reach c(2) by (intro exI [of _ "\<lparr>sch = st, in_flight = []\<rparr>"]) simp
qed

text \<open>C19. Placement of a new task. Spawning a task never panics and chooses a CPU of its affinity set of
  least load; of several such CPUs it takes the first one in ascending order after the CPU chosen
  last, wrapping around, and records it for the next choice. With an empty affinity set the task goes
  to the current CPU. A task that ran before goes back to the CPU it last was on, whatever its
  affinity.\<close>

theorem spawn_selects_least_loaded:
  assumes "bit_view ones" "ids_ok (length (rqs st)) affinity" "\<forall>l. last_chosen_cpu st = Some l \<longrightarrow> l < length (rqs st)"
    "\<forall>c\<in>ids_set affinity. load_of st c < 2 ^ 32 - 1"
  shows "case last_cpu a of
      Some c \<Rightarrow> select_cpu ones st cur a affinity flags = Inr (c, st)
    | None \<Rightarrow> \<exists>c. select_cpu ones st cur a affinity Spawn = Inr (c, st\<lparr>last_chosen_cpu := Some c\<rparr>) \<and>
        (if ids_set affinity = {} then c = cur
         else c \<in> ids_set affinity \<and> (\<forall>d\<in>ids_set affinity. load_of st c \<le> load_of st d \<and>
           (load_of st d = load_of st c \<and> d \<noteq> c \<longrightarrow>
             cycle_rank (length (rqs st)) (last_chosen_cpu st) c < cycle_rank (length (rqs st)) (last_chosen_cpu st) d)))"
proof (cases "last_cpu a")
  case None
  let ?R = "cycle_rank (length (rqs st)) (last_chosen_cpu st)"
  obtain cs where cs: "(case last_chosen_cpu st of Some c \<Rightarrow> cycle_after ones (length (rqs st)) c affinity
      | None \<Rightarrow> ids_iter ones (length (rqs st)) affinity) = Inr cs"
    "set cs = ids_set affinity" "sorted_wrt (\<lambda>c d. ?R c < ?R d) cs"
    using candidates_ordered [OF assms(1,2), of "last_chosen_cpu st"] assms(3) by blast
  have "\<forall>c\<in>set cs. c < length (rqs st)" using cs(2) assms(2) by (auto simp: ids_ok_def)
  from test_candidates_first_least [OF this, of cur "2 ^ 32 - 1"] obtain c m where
    f: "rfold (test_candidate st) cs (cur, 2 ^ 32 - 1) = Inr (c, m)" and
    d: "c = cur \<and> (\<forall>d\<in>set cs. 2 ^ 32 - 1 \<le> load_of st d) \<or>
     (\<exists>us vs. cs = us @ c # vs \<and> (\<forall>u\<in>set us. load_of st c < load_of st u) \<and> (\<forall>v\<in>set vs. load_of st c \<le> load_of st v))"
    by blast
  have sel: "select_cpu ones st cur a affinity Spawn = Inr (c, st\<lparr>last_chosen_cpu := Some c\<rparr>)"
    using None cs(1) f by (simp add: select_cpu_def Let_def)
  have "if ids_set affinity = {} then c = cur
         else c \<in> ids_set affinity \<and> (\<forall>d\<in>ids_set affinity. load_of st c \<le> load_of st d \<and>
           (load_of st d = load_of st c \<and> d \<noteq> c \<longrightarrow> ?R c < ?R d))"
  proof (cases "cs = []")
    case False
    then obtain us vs where "cs = us @ c # vs" "\<forall>u\<in>set us. load_of st c < load_of st u" "\<forall>v\<in>set vs. load_of st c \<le> load_of st v"
      using d assms(4) cs(2) by (cases cs) fastforce+
    moreover have "ids_set affinity \<noteq> {}" using False cs(2) by auto
    ultimately show ?thesis using cs(3) unfolding cs(2) [symmetric] by (auto simp: sorted_wrt_append)
  qed (use d cs(2) in auto)
  then show ?thesis using sel None by auto
next
  case (Some c)
  then show ?thesis by (simp add: select_cpu_def)
qed

theorem spawn_selects_least_loaded_witness:
  "select_cpu list_ones (a_sched\<lparr>last_chosen_cpu := Some 0\<rparr>) 0 a_fair_thread [3] Spawn =
     Inr (1, a_sched\<lparr>last_chosen_cpu := Some 1\<rparr>)"
proof -
  have v: "bit_view list_ones" ..
  have b: "bit (3 :: 64 word) i \<longleftrightarrow> i = 0 \<or> i = 1" for i
  proof -
    have "(3 :: 64 word) = 1 OR 2" by simp
    then show ?thesis using bit_one_shift [of 0 i] bit_one_shift [of 1 i] by (simp only: bit_or_iff) simp
  qed
  have S: "ids_set [3] = {0, 1}" unfolding ids_set_Cons b by (auto simp: ids_set_def)
  let ?st = "a_sched\<lparr>last_chosen_cpu := Some 0\<rparr>"
  have n: "length (rqs ?st) = 2" by (simp add: sched_new_def)
  have l: "load_of ?st c = 0" if "c < 2" for c
    using that by (simp add: sched_new_def queue_len_def cpu_rq_new_def single_len_def rt_new_def fair_new_def fair_len_def)
  have ok: "ids_ok (length (rqs ?st)) [3]" unfolding n by (simp add: ids_ok_def S parts_for_ids_def)
  have "\<forall>c\<in>ids_set [3]. load_of ?st c < 2 ^ 32 - 1" unfolding S using l by simp
  from spawn_selects_least_loaded [OF v ok _ this, where a = a_fair_thread and cur = 0 and flags = Spawn]
  obtain c where c: "select_cpu list_ones ?st 0 a_fair_thread [3] Spawn = Inr (c, ?st\<lparr>last_chosen_cpu := Some c\<rparr>)"
    "c \<in> {0, 1}" "\<forall>d\<in>{0, 1}. load_of ?st d = load_of ?st c \<and> d \<noteq> c \<longrightarrow> cycle_rank 2 (Some 0) c < cycle_rank 2 (Some 0) d"
    unfolding S n by (auto simp: a_fair_thread_def n)
  have "c = 1" using c(2,3) l [of 0] l [of 1] by (auto simp: cycle_rank_def)
  then show ?thesis using c(1) by simp
qed

text \<open>C11. A reschedule finds a task. When \<open>update_current\<close> asks for a reschedule, a task is queued and the pick
  that follows cannot fail to return one: it is the stop task, else the oldest real-time task of the
  most urgent priority, else a fair task of least key, else the idle task, and no task is gained or lost. When
  the current task waits or exits, or there is none, it asks exactly when a task is queued.\<close>

theorem reschedule_finds_task:
  assumes "bitarr ops" "attrs_ok cfg at" "cpu_inv ops at q" "update_current cfg ops now flags (q, at) = Inr (b, q1, at1)"
  shows "(flags = Wait \<or> flags = Exit \<or> current q = None \<longrightarrow> b = (cpu_queued q \<noteq> {#})) \<and>
    (b \<longrightarrow> (\<exists>t q2 at2. pick_next_entity ops (q1, at1) = Inr (Some t, q2, at2) \<and> class_choice q1 t \<and>
       cpu_queued q = add_mset t (cpu_queued q2))) \<and>
    (\<forall>now' r q3 at3. b \<and> try_pick_next cfg ops now' (q1, at1) = Inr (r, q3, at3) \<longrightarrow>
       (\<exists>t. r = Some t \<and> class_choice q1 t \<and> current q3 = Some (t, runtime_new now')) \<and> cpu_tasks q3 = cpu_tasks q)"
proof -
  have pl: "attrs_plain at" using attrs_ok_plain [OF assms(2)] .
  note U = bitarr.update_current_ok [OF assms(1) pl assms(3,4)]
  have pl1: "attrs_plain at1" using U pl by (auto simp: attrs_step_def)
  have inv1: "cpu_inv ops at1 q1" using U by simp
  have q1: "cpu_queued q1 = cpu_queued q" "cpu_tasks q1 = cpu_tasks q" "b \<longrightarrow> cpu_queued q \<noteq> {#}"
    "flags = Wait \<or> flags = Exit \<or> current q = None \<longrightarrow> b = (cpu_queued q \<noteq> {#})" using U by blast+
  have "\<exists>t q2 at2. pick_next_entity ops (q1, at1) = Inr (Some t, q2, at2) \<and> class_choice q1 t \<and>
       cpu_queued q = add_mset t (cpu_queued q2)" if b
    using bitarr.pick_next_entity_ok [OF assms(1) pl1 inv1] that q1
    by (auto split: option.splits simp: bitarr.picked_def [OF assms(1)])
  moreover have "(\<exists>t. r = Some t \<and> class_choice q1 t \<and> current q3 = Some (t, runtime_new now')) \<and> cpu_tasks q3 = cpu_tasks q"
    if "b \<and> try_pick_next cfg ops now' (q1, at1) = Inr (r, q3, at3)" for now' r q3 at3
    using bitarr.try_pick_next_ok [OF assms(1) pl1 inv1 that [THEN conjunct2]] that q1 by (auto split: option.splits)
  ultimately show ?thesis using q1(4) by blast
qed

theorem reschedule_finds_task_witness:
  "\<exists>q2 at2. pick_next_entity fn_bitarr ((cpu_rq_new fn_bitarr)\<lparr>idle_rq := Some 7\<rparr>, [7 \<mapsto> a_fair_thread]) =
     Inr (Some 7, q2, at2) \<and> cpu_queued q2 = {#}"
proof -
  let ?q = "(cpu_rq_new fn_bitarr)\<lparr>idle_rq := Some 7\<rparr>" and ?at = "[7 \<mapsto> a_fair_thread]"
  have b: "bitarr fn_bitarr" ..
  have qs: "cpu_queued ?q = {#7#}"
    by (simp add: cpu_queued_def cpu_rq_new_def single_tasks_def fair.new_tasks fnb.rt.new_tasks)
  have inv: "cpu_inv fn_bitarr ?at ?q"
    using qs fair.new_inv fnb.rt.new_inv
    by (simp add: cpu_inv_def cpu_tasks_def current_task_def) (simp add: cpu_rq_new_def single_inv_def)
  have "update_current a_cfg fn_bitarr 0 Tick (?q, ?at) = Inr (True, ?q, ?at)"
    by (simp add: update_current_def cpu_rq_new_def look_ahead_def)
  from reschedule_finds_task [OF b a_fair_thread_ok inv this] show ?thesis unfolding qs by auto
qed

text \<open>C40. Priorities of real-time threads. A timer tick preempts a thread without a time slice whenever
  the active array holds any thread, however much less urgent than the running one, and the pick then
  takes the first thread of that array, whatever the other array holds.\<close>

theorem fifo_thread_preempted:
  assumes "bitarr ops" "rt_inv ops at rq" "time_slice (real_time a) = 0" "p < 100"
    "queue (active_array rq) ! p = t # ts" "\<forall>i<p. queue (active_array rq) ! i = []"
  shows "rt_update_current ops rt Tick (rq, a) \<and>
    (\<exists>rq'. rt_pick_next ops (rq, at) = Inr (Some t, rq', at))"
proof -
  have inv: "pa_inv ops (active_array rq)" using assms(2) by (auto simp: rt_inv_def active_array_def get_array_def)
  then have g: "length (queue (active_array rq)) = 100" "ba_get ops (map_bits (active_array rq)) i = (queue (active_array rq) ! i \<noteq> [])"
    if "i < 100" for i using that by (auto simp: pa_inv_def)
  have one: "ba_first_one ops (map_bits (active_array rq)) = Some p"
    unfolding bitarr.first_one [OF assms(1)] find_upt_Some using g(2) assms(4-6) by auto
  have "t # ts \<in> set (queue (active_array rq))" using nth_mem [of p "queue (active_array rq)"] assms(4,5) g(1) [of p] by simp
  then have "t \<in># pa_tasks (active_array rq)" by (force simp: pa_tasks_def)
  then have "rt_tasks rq \<noteq> {#}" by (auto simp: rt_tasks_def active_array_def get_array_def split: if_splits)
  then have "0 < nr_running rq" using assms(2) by (simp add: rt_inv_def nonempty_has_size)
  then show ?thesis using one assms(3-5) g(1) [of p]
    by (simp add: rt_update_current_def peek_prio_def rt_pick_next_def pa_pop_def usub_def)
qed

theorem fifo_thread_preempted_witness:
  "let rq = \<lparr>index = False, array0 = \<lparr>map_bits = (\<lambda>i :: nat. i = 50), queue = (replicate 100 [])[50 := [7]]\<rparr>,
       array1 = pa_new fn_bitarr, nr_running = 1\<rparr>;
     urgent = a_fair_thread\<lparr>real_time := \<lparr>prio = 1, time_slice = 0\<rparr>\<rparr>
   in rt_update_current fn_bitarr (runtime_new 0) Tick (rq, urgent) \<and>
     (\<exists>rq'. rt_pick_next fn_bitarr (rq, [7 \<mapsto> a_fair_thread]) = Inr (Some 7, rq', [7 \<mapsto> a_fair_thread]))"
proof -
  let ?a = "\<lparr>map_bits = (\<lambda>i :: nat. i = 50), queue = (replicate 100 [])[50 := [7]]\<rparr>"
  let ?rq = "\<lparr>index = False, array0 = ?a, array1 = pa_new fn_bitarr, nr_running = 1\<rparr>"
  have b: "bitarr fn_bitarr" ..
  have "pa_tasks ?a = {#7#}" using mset_concat_update [of 50 "replicate 100 []" "[7]"] by (simp add: pa_tasks_def)
  moreover have "pa_inv fn_bitarr ?a" by (simp add: pa_inv_def fn_bitarr_def nth_list_update)
  moreover have "pa_tasks (pa_new fn_bitarr) = {#}" "pa_inv fn_bitarr (pa_new fn_bitarr)"
    by (simp_all add: pa_tasks_def pa_new_def pa_inv_def fn_bitarr_def)
  ultimately have inv: "rt_inv fn_bitarr [7 \<mapsto> a_fair_thread] ?rq" by (simp add: rt_inv_def rt_tasks_def)
  have "queue (active_array ?rq) ! 50 = 7 # []" "\<forall>i<50. queue (active_array ?rq) ! i = []"
    by (simp_all add: active_array_def get_array_def nth_list_update)
  from fifo_thread_preempted [OF b inv _ _ this, of "a_fair_thread\<lparr>real_time := \<lparr>prio = 1, time_slice = 0\<rparr>\<rparr>" "runtime_new 0"]
  show ?thesis by (simp add: Let_def)
qed

end
